(* ===== verification/Prelude.thy ===== *)
theory Prelude
  imports Main "HOL-Library.AList" "HOL-Library.Char_ord" "HOL-Library.List_Lexorder"
    "HOL-Library.Product_Lexorder" "HOL-Library.Sublist"
begin

text \<open>
  Shared vocabulary of the development: Python's substring test, its ASCII lower case,
  dictionaries as association lists in insertion order, and the collections of rewrite
  rules the component theories extend.

  A Python \<open>str\<close> is modelled by its UTF-8 encoding, a \<^typ>\<open>string\<close> whose characters are
  bytes: equality, concatenation, substring tests and code point order agree on both sides,
  and the length of a rendering is its length in bytes.
\<close>

named_theorems dict_simps \<open>how dictionary operations act on lookups and key sets\<close>

section \<open>Dictionaries in insertion order\<close>

text \<open>
  \<open>d[k] = v\<close> keeps the place of a key that is present and appends one that is not, which is
  \<^const>\<open>AList.update\<close>; \<open>d.pop(k, None)\<close> is \<^const>\<open>AList.delete\<close>; \<open>d.get(k)\<close> is \<^const>\<open>map_of\<close>.
\<close>

type_synonym ('k, 'v) dict = "('k \<times> 'v) list"

abbreviation dict_get :: "('k, 'v) dict \<Rightarrow> 'k \<Rightarrow> 'v option" where
  "dict_get d k \<equiv> map_of d k"

abbreviation dict_set :: "'k \<Rightarrow> 'v \<Rightarrow> ('k, 'v) dict \<Rightarrow> ('k, 'v) dict" where
  "dict_set k v d \<equiv> AList.update k v d"

abbreviation dict_pop :: "'k \<Rightarrow> ('k, 'v) dict \<Rightarrow> ('k, 'v) dict" where
  "dict_pop k d \<equiv> AList.delete k d"

abbreviation dict_keys :: "('k, 'v) dict \<Rightarrow> 'k set" where
  "dict_keys d \<equiv> fst ` set d"

abbreviation dict_ok :: "('k, 'v) dict \<Rightarrow> bool" where
  "dict_ok d \<equiv> distinct (map fst d)"

fun dict_update :: "('k, 'v) dict \<Rightarrow> ('k, 'v) dict \<Rightarrow> ('k, 'v) dict" where
  \<comment> \<open>\<open>d.update(e)\<close>\<close>
  "dict_update d [] = d"
| "dict_update d ((k, v) # e) = dict_update (dict_set k v d) e"

lemma dict_get_set [dict_simps, simp]:
  "dict_get (dict_set k v d) j = (if j = k then Some v else dict_get d j)"
  by (simp add: update_conv')

lemma dict_get_pop [dict_simps, simp]:
  "dict_get (dict_pop k d) j = (if j = k then None else dict_get d j)"
  by (simp add: delete_conv')

lemma dict_keys_set [dict_simps, simp]: "dict_keys (dict_set k v d) = insert k (dict_keys d)"
  by (induction d) auto

lemma dict_keys_pop [dict_simps, simp]: "dict_keys (dict_pop k d) = dict_keys d - {k}"
  by (induction d) auto

lemma dict_ok_set [dict_simps, simp]: "dict_ok d \<Longrightarrow> dict_ok (dict_set k v d)"
  by (rule distinct_update)

lemma dict_ok_pop [dict_simps, simp]: "dict_ok d \<Longrightarrow> dict_ok (dict_pop k d)"
  by (rule distinct_delete)

lemma dict_get_None_iff: "dict_get d k = None \<longleftrightarrow> k \<notin> dict_keys d"
  by (rule map_of_eq_None_iff)

lemma dict_pop_set_absent: "k \<notin> dict_keys d \<Longrightarrow> dict_pop k (dict_set k v d) = d"
  by (induction d) (auto simp: AList.delete_eq filter_id_conv)

lemma dict_set_set_present:
  "dict_get d k = Some v \<Longrightarrow> dict_set k v (dict_set k w d) = d"
  by (induction d) (auto split: if_splits)

lemma dict_ok_update: "dict_ok d \<Longrightarrow> dict_ok (dict_update d e)"
  by (induction d e rule: dict_update.induct) auto

lemma dict_keys_update: "dict_keys (dict_update d e) = dict_keys d \<union> dict_keys e"
  by (induction d e rule: dict_update.induct) auto

lemma dict_get_update:
  "dict_ok e \<Longrightarrow>
   dict_get (dict_update d e) k = (case dict_get e k of None \<Rightarrow> dict_get d k | Some v \<Rightarrow> Some v)"
proof (induction d e rule: dict_update.induct)
  case (2 d k' v e)
  then have "dict_get e k' = None" by (simp add: dict_get_None_iff)
  with 2 show ?case by (auto split: option.splits)
qed simp

lemma dict_get_update_other:
  "k \<notin> dict_keys e \<Longrightarrow> dict_get (dict_update d e) k = dict_get d k"
  by (induction d e rule: dict_update.induct) auto

lemma dict_get_in: "dict_get d k = Some v \<Longrightarrow> (k, v) \<in> set d"
  by (rule map_of_SomeD)

lemma dict_set_values: "(j, w) \<in> set (dict_set k v d) \<Longrightarrow> (j = k \<and> w = v) \<or> (j, w) \<in> set d"
  by (induction d) (auto split: if_splits)

lemma dict_ok_sort_key: "dict_ok d \<Longrightarrow> dict_ok (sort_key fst d)"
  by (simp add: distinct_map)

lemma insort_key_map_values:
  "insort_key fst (k, f v) (map (\<lambda>(k, v). (k, f v)) d)
     = map (\<lambda>(k, v). (k, f v)) (insort_key fst (k, v) d)"
  by (induction d) auto

lemma sort_key_map_values:
  "sort_key fst (map (\<lambda>(k, v). (k, f v)) d) = map (\<lambda>(k, v). (k, f v)) (sort_key fst d)"
  by (induction d) (auto simp: insort_key_map_values)

lemma dict_set_append: "k \<notin> dict_keys d \<Longrightarrow> dict_set k v d = d @ [(k, v)]"
  by (induction d) auto

lemma dict_get_sort_key: "dict_ok d \<Longrightarrow> dict_get (sort_key fst d) k = dict_get d k"
  by (metis dict_ok_sort_key distinct_map map_of_eqI map_of_inject_set set_sort set_map)

end
