(* ===== verification/Py_Errors.thy ===== *)
theory Py_Errors
  imports Prelude
begin

text \<open>
  Exceptions: the package's own taxonomy (\<open>src/resumable_batch/errors.py\<close> and the engine's
  \<open>_SplitFatal\<close>), the built-in classes its handlers name, and results of code that may raise.
  An exception is its class and the text \<open>str(exc)\<close>; texts keep the fixed words of the
  source's message and the key it names.
\<close>

section \<open>Exception classes\<close>

datatype exn_class =
    ContentKeyCollisionError | CacheLockedError | FsUnsupportedError | RetryAfterError
  | SplitFatal
  | PyException | PyValueError | PyUnicodeError | PyTypeError | PyKeyError | PyRuntimeError
  | PyOSError | PyConnectionError | PyTimeoutError
  | PyKeyboardInterrupt | PyBaseException
  | ProcessKilled \<comment> \<open>the process stopped at this point: nothing of it runs any more\<close>
  | UserClass string exn_class \<comment> \<open>a class of the caller's, with the class it derives from\<close>

datatype exn = Exn (exn_cls: exn_class) (exn_str: string)

primrec mro :: "exn_class \<Rightarrow> exn_class list" where
  \<comment> \<open>the classes an instance of the class is an instance of\<close>
  "mro ContentKeyCollisionError = [ContentKeyCollisionError, PyException, PyBaseException]"
| "mro CacheLockedError = [CacheLockedError, PyException, PyBaseException]"
| "mro FsUnsupportedError = [FsUnsupportedError, PyException, PyBaseException]"
| "mro RetryAfterError = [RetryAfterError, PyException, PyBaseException]"
| "mro SplitFatal = [SplitFatal, PyException, PyBaseException]"
| "mro PyException = [PyException, PyBaseException]"
| "mro PyValueError = [PyValueError, PyException, PyBaseException]"
| "mro PyUnicodeError = [PyUnicodeError, PyValueError, PyException, PyBaseException]"
| "mro PyTypeError = [PyTypeError, PyException, PyBaseException]"
| "mro PyKeyError = [PyKeyError, PyException, PyBaseException]"
| "mro PyRuntimeError = [PyRuntimeError, PyException, PyBaseException]"
| "mro PyOSError = [PyOSError, PyException, PyBaseException]"
| "mro PyConnectionError = [PyConnectionError, PyOSError, PyException, PyBaseException]"
| "mro PyTimeoutError = [PyTimeoutError, PyOSError, PyException, PyBaseException]"
| "mro PyKeyboardInterrupt = [PyKeyboardInterrupt, PyBaseException]"
| "mro PyBaseException = [PyBaseException]"
| "mro ProcessKilled = [ProcessKilled]"
| "mro (UserClass n b) = UserClass n b # mro b"

definition isinstance :: "exn \<Rightarrow> exn_class \<Rightarrow> bool" where
  "isinstance e c \<longleftrightarrow> c \<in> set (mro (exn_cls e))"

definition is_Exception :: "exn \<Rightarrow> bool" where
  \<comment> \<open>what an \<open>except Exception\<close> clause catches\<close>
  "is_Exception e \<longleftrightarrow> isinstance e PyException"

definition killed :: exn where
  "killed = Exn ProcessKilled ''''"

lemma killed_not_Exception [simp]: "\<not> is_Exception killed"
  by (simp add: killed_def is_Exception_def isinstance_def)

lemma is_Exception_simps [simp]:
  "is_Exception (Exn ContentKeyCollisionError m)" "is_Exception (Exn RetryAfterError m)"
  "is_Exception (Exn SplitFatal m)" "is_Exception (Exn PyOSError m)"
  "is_Exception (Exn PyRuntimeError m)" "is_Exception (Exn PyValueError m)"
  "is_Exception (Exn PyUnicodeError m)" "is_Exception (Exn PyKeyError m)"
  by (simp_all add: is_Exception_def isinstance_def)

section \<open>Results of code that may raise\<close>

type_synonym 'a result = "exn + 'a"

lemma result_cases [case_names raises returns]:
  "(\<And>e. x = Inl e \<Longrightarrow> P) \<Longrightarrow> (\<And>a. x = Inr a \<Longrightarrow> P) \<Longrightarrow> P"
  by (cases x) auto

end
