(* ===== verification/Classifiers.thy ===== *)
theory Classifiers
  imports Py_Errors
begin

text \<open>
  The default error classifiers (\<open>src/resumable_batch/classifiers.py\<close>). Both look for markers
  in \<open>str(exc).lower()\<close>. Lower-casing is modelled on ASCII letters: no other code point
  lower-cases to a text that can complete one of the (ASCII) markers.
\<close>

definition lower_char :: "char \<Rightarrow> char" where
  "lower_char c = (if of_char c \<in> {65..90 :: nat} then char_of ((of_char c :: nat) + 32) else c)"

definition py_lower :: "string \<Rightarrow> string" where
  "py_lower = map lower_char"

definition default_is_oom :: "exn \<Rightarrow> bool" where
  "default_is_oom exc =
     (let txt = py_lower (exn_str exc)
      in sublist ''out of memory'' txt \<or> sublist ''memory exceeded'' txt
         \<or> sublist ''low memory'' txt \<or> sublist ''e_runaway_query'' txt)"

definition transient_markers :: "string list" where
  "transient_markers =
     [''timed out'', ''timeout'', ''temporarily unavailable'',
      ''connection reset'', ''service unavailable'', ''throttl'']"

definition default_is_transient :: "exn \<Rightarrow> bool" where
  "default_is_transient exc =
     (if isinstance exc PyConnectionError \<or> isinstance exc PyTimeoutError then True
      else (let txt = py_lower (exn_str exc) in list_ex (\<lambda>m. sublist m txt) transient_markers))"

lemma lower_char_idem [simp]: "lower_char (lower_char c) = lower_char c"
  by (simp add: lower_char_def of_char_of)

lemma py_lower_idem [simp]: "py_lower (py_lower s) = py_lower s"
  by (simp add: py_lower_def comp_def)

lemma py_lower_append [simp]: "py_lower (s @ t) = py_lower s @ py_lower t"
  by (simp add: py_lower_def)

lemma sublist_lower_wrap: "sublist m (py_lower t) \<Longrightarrow> sublist m (py_lower (p @ t @ q))"
  by (metis py_lower_append sublist_appendI sublist_order.order.trans)

lemma default_is_oom_wrap: "default_is_oom (Exn c t) \<Longrightarrow> default_is_oom (Exn d (p @ t @ q))"
  by (auto simp: default_is_oom_def Let_def simp del: py_lower_append intro: sublist_lower_wrap)

lemma default_is_transient_wrap:
  "default_is_transient (Exn c t) \<Longrightarrow> default_is_transient (Exn c (p @ t @ q))"
  unfolding default_is_transient_def list_ex_iff isinstance_def Let_def exn.sel
  by (metis sublist_lower_wrap)

end
