(* ===== verification/Model.thy ===== *)
theory Model
  imports Complex_Main Py_Errors
begin

text \<open>
  The core data model (\<open>src/resumable_batch/model.py\<close>): items with scheduling metadata, the
  retry and split policies, and the result of a run. A payload has an arbitrary type
  \<open>'p\<close>; a result has an arbitrary type \<open>'r\<close>; Python integers are \<^typ>\<open>int\<close>. A Python float is
  \<open>pyfloat\<close> where the code tests for infinities and NaN, and a \<^typ>\<open>real\<close> elsewhere.
\<close>

definition SCHEMA_VERSION :: int where
  "SCHEMA_VERSION = 2"

definition MANIFEST_NAME :: string where
  "MANIFEST_NAME = ''manifest.json''"

datatype pyfloat = Fin real | PosInf | NegInf | NaN

fun isfinite :: "pyfloat \<Rightarrow> bool" where
  "isfinite (Fin x) = True"
| "isfinite _ = False"

fun float_less :: "pyfloat \<Rightarrow> pyfloat \<Rightarrow> bool" where
  \<comment> \<open>\<open>x < y\<close> on floats; every comparison with NaN is False\<close>
  "float_less (Fin x) (Fin y) = (x < y)"
| "float_less NaN y = False"
| "float_less x NaN = False"
| "float_less NegInf y = (y \<noteq> NegInf)"
| "float_less x PosInf = (x \<noteq> PosInf)"
| "float_less _ _ = False"

record sched_meta =
  root_order :: int
  range_start :: int
  range_end :: int
  target_size :: int

definition default_sched_meta :: sched_meta where
  "default_sched_meta = \<lparr>root_order = 0, range_start = 0, range_end = 0, target_size = 0\<rparr>"

record 'p checkpoint_item =
  payload :: 'p
  sched :: sched_meta

record retry_policy =
  max_attempts :: int
  base_delay :: real
  max_delay :: real
  multiplier :: real
  jitter :: real
  retry_after_fn :: "(exn \<Rightarrow> pyfloat option result) option"
  max_server_delay :: pyfloat

definition default_retry_policy :: retry_policy where
  "default_retry_policy =
     \<lparr>max_attempts = 4, base_delay = 2, max_delay = 60, multiplier = 2, jitter = 1 / 2,
      retry_after_fn = None, max_server_delay = Fin 300\<rparr>"

definition retry_post_init :: "retry_policy \<Rightarrow> retry_policy result" where
  \<comment> \<open>\<open>RetryPolicy.__post_init__\<close>\<close>
  "retry_post_init p =
     (if \<not> isfinite (max_server_delay p) \<or> float_less (max_server_delay p) (Fin 0)
      then Inl (Exn PyValueError ''RetryPolicy.max_server_delay must be finite and >= 0'')
      else Inr p)"

record 'p split_policy =
  should_split :: "exn \<Rightarrow> 'p checkpoint_item \<Rightarrow> bool result"
  split_fn :: "'p checkpoint_item \<Rightarrow> 'p checkpoint_item list result"

record 'o checkpoint_result =
  frame :: 'o
  attempts :: int
  committed_keys :: int
  resumed_keys :: int
  transient_retries :: int
  splits :: int

definition result_output :: "'o checkpoint_result \<Rightarrow> 'o" where
  "result_output r = frame r"

lemma retry_post_init_Inr:
  "retry_post_init p = Inr q \<longleftrightarrow> q = p \<and> (\<exists>x\<ge>0. max_server_delay p = Fin x)"
  by (cases "max_server_delay p") (auto simp: retry_post_init_def)

lemma retry_post_init_Inl_iff:
  "(\<exists>e. retry_post_init p = Inl e) \<longleftrightarrow> (\<forall>x\<ge>0. max_server_delay p \<noteq> Fin x)"
  by (cases "max_server_delay p") (auto simp: retry_post_init_def)

lemma default_retry_policy_accepted: "retry_post_init default_retry_policy = Inr default_retry_policy"
  by (simp add: retry_post_init_def default_retry_policy_def)

end
