(* ===== verification/Delayed_Queue.thy ===== *)
theory Delayed_Queue
  imports Complex_Main Prelude "HOL-Library.Multiset"
begin

text \<open>
  The heap of delayed retries. The engine only uses \<open>heapq.heappush\<close>, \<open>heapq.heappop\<close>,
  \<open>delayed[0]\<close> and emptiness, so a heap of \<open>(ready_at, seq, item)\<close> tuples is the list of
  its tuples in comparison order: first by \<open>ready_at\<close>, then by \<open>seq\<close>. Sequence numbers are
  distinct, so the items themselves are never compared (the source's \<open>_Admitted\<close> has no
  order). The interface the engine's proofs use is the locale \<open>delay_queue\<close>.
\<close>

type_synonym 'a delayed = "(real \<times> nat \<times> 'a) list"

definition due_before :: "real \<times> nat \<times> 'a \<Rightarrow> real \<times> nat \<times> 'a \<Rightarrow> bool" where
  "due_before x y \<longleftrightarrow> fst x < fst y \<or> (fst x = fst y \<and> fst (snd x) < fst (snd y))"

fun heappush :: "'a delayed \<Rightarrow> real \<times> nat \<times> 'a \<Rightarrow> 'a delayed" where
  "heappush [] x = [x]"
| "heappush (y # ys) x = (if due_before x y then x # y # ys else y # heappush ys x)"

fun heappop :: "'a delayed \<Rightarrow> (real \<times> nat \<times> 'a) option \<times> 'a delayed" where
  \<comment> \<open>\<open>None\<close> is the \<open>IndexError\<close> of an empty heap, which the engine never meets\<close>
  "heappop [] = (None, [])"
| "heappop (y # ys) = (Some y, ys)"

fun take_matured :: "real \<Rightarrow> 'a delayed \<Rightarrow> 'a list \<times> 'a delayed" where
  \<comment> \<open>the loop of \<open>_promote_matured\<close>: pop while the head is due\<close>
  "take_matured now [] = ([], [])"
| "take_matured now (x # q) =
     (if fst x \<le> now then (case take_matured now q of (ms, q') \<Rightarrow> (snd (snd x) # ms, q')) else ([], x # q))"

definition heap_ok :: "nat \<Rightarrow> 'a delayed \<Rightarrow> bool" where
  \<comment> \<open>in order, with sequence numbers that the counter has already given out\<close>
  "heap_ok n q \<longleftrightarrow> sorted_wrt due_before q \<and> (\<forall>x\<in>set q. fst (snd x) < n)"

section \<open>The interface\<close>

locale delay_queue =
  fixes ok :: "nat \<Rightarrow> 'q \<Rightarrow> bool"
    and push :: "'q \<Rightarrow> real \<times> nat \<times> 'a \<Rightarrow> 'q"
    and pop :: "'q \<Rightarrow> (real \<times> nat \<times> 'a) option \<times> 'q"
    and elems :: "'q \<Rightarrow> (real \<times> nat \<times> 'a) list"
  assumes push_ok: "ok n q \<Longrightarrow> ok (Suc n) (push q (t, n, a))"
    and push_elems: "set (elems (push q x)) = insert x (set (elems q))"
    and push_length: "length (elems (push q x)) = Suc (length (elems q))"
    and pop_None: "pop q = (None, q') \<Longrightarrow> elems q = [] \<and> q' = q"
    and pop_Some: "pop q = (Some x, q') \<Longrightarrow> elems q = x # elems q'"
    and pop_ok: "ok n q \<Longrightarrow> pop q = (r, q') \<Longrightarrow> ok n q'"
    and pop_least: "ok n q \<Longrightarrow> pop q = (Some x, q') \<Longrightarrow> y \<in> set (elems q') \<Longrightarrow> due_before x y"
begin

lemma pop_earliest:
  assumes "ok n q" and "pop q = (Some x, q')" and "y \<in> set (elems q)"
  shows "fst x \<le> fst y"
proof -
  from pop_Some [OF assms(2)] assms(3) have "y = x \<or> y \<in> set (elems q')" by simp
  then show ?thesis
    using pop_least [OF assms(1,2), of y] unfolding due_before_def by auto
qed

lemma pop_seq_distinct:
  "ok n q \<Longrightarrow> pop q = (Some x, q') \<Longrightarrow> y \<in> set (elems q') \<Longrightarrow> fst x = fst y \<Longrightarrow> fst (snd x) < fst (snd y)"
  using pop_least [of n q x q' y] unfolding due_before_def by linarith

lemma push_pop_length:
  "pop (push q x) = (Some y, q') \<Longrightarrow> length (elems q') = length (elems q)"
  using pop_Some [of "push q x" y q'] push_length [of q x] by simp

end

section \<open>The sorted list provides it\<close>

lemma due_before_trans: "due_before x y \<Longrightarrow> due_before y z \<Longrightarrow> due_before x z"
  by (auto simp: due_before_def)

lemma due_before_total: "fst (snd x) \<noteq> fst (snd y) \<Longrightarrow> \<not> due_before x y \<Longrightarrow> due_before y x"
  by (auto simp: due_before_def)

lemma heappush_set: "set (heappush q x) = insert x (set q)"
  by (induction q) auto

lemma heappush_length: "length (heappush q x) = Suc (length q)"
  by (induction q) auto

lemma heappush_map: "mset (map f (heappush q x)) = add_mset (f x) (mset (map f q))"
  by (induction q) auto

lemma heappush_sorted:
  "sorted_wrt due_before q \<Longrightarrow> \<forall>y\<in>set q. fst (snd y) \<noteq> fst (snd x) \<Longrightarrow> sorted_wrt due_before (heappush q x)"
proof (induction q)
  case (Cons y q)
  show ?case
  proof (cases "due_before x y")
    case True
    then show ?thesis using Cons.prems due_before_trans [OF True] by simp
  next
    case False
    then have "due_before y x" using Cons.prems due_before_total by (metis list.set_intros(1))
    with False show ?thesis using Cons by (simp add: heappush_set)
  qed
qed simp

lemma heappush_ok: "heap_ok n q \<Longrightarrow> heap_ok (Suc n) (heappush q (t, n, a))"
  unfolding heap_ok_def by (auto simp: heappush_set intro!: heappush_sorted intro: less_SucI)

interpretation heapq: delay_queue heap_ok heappush heappop "\<lambda>q. q"
proof
  show "heap_ok n q \<Longrightarrow> heap_ok (Suc n) (heappush q (t, n, a))" for n q t and a :: 'a
    by (rule heappush_ok)
  fix q q' :: "'a delayed" and n x r y
  show "set (heappush q x) = insert x (set q)" by (rule heappush_set)
  show "length (heappush q x) = Suc (length q)" by (rule heappush_length)
  show "heappop q = (None, q') \<Longrightarrow> q = [] \<and> q' = q" by (cases q) auto
  show "heappop q = (Some x, q') \<Longrightarrow> q = x # q'" by (cases q) auto
  show "heap_ok n q \<Longrightarrow> heappop q = (r, q') \<Longrightarrow> heap_ok n q'" by (cases q) (auto simp: heap_ok_def)
  show "heap_ok n q \<Longrightarrow> heappop q = (Some x, q') \<Longrightarrow> y \<in> set q' \<Longrightarrow> due_before x y"
    by (cases q) (auto simp: heap_ok_def)
qed

lemma take_matured_split:
  "take_matured now q = (ms, q') \<Longrightarrow> \<exists>p. q = p @ q' \<and> ms = map (\<lambda>x. snd (snd x)) p \<and> (\<forall>x\<in>set p. fst x \<le> now)"
proof (induction q arbitrary: ms)
  case (Cons x q)
  show ?case
  proof (cases "fst x \<le> now")
    case True
    obtain ms1 q1 where r: "take_matured now q = (ms1, q1)" by fastforce
    with Cons.prems True have eq: "ms = snd (snd x) # ms1" "q' = q1" by simp_all
    from Cons.IH [of ms1] r eq obtain p where "q = p @ q'" "ms1 = map (\<lambda>x. snd (snd x)) p"
      "\<forall>x\<in>set p. fst x \<le> now" by auto
    then show ?thesis using True eq by (intro exI [of _ "x # p"]) auto
  next
    case False
    then show ?thesis using Cons.prems by auto
  qed
qed simp

lemma take_matured_ok: "heap_ok n q \<Longrightarrow> take_matured now q = (ms, q') \<Longrightarrow> heap_ok n q'"
  using take_matured_split [of now q ms q'] by (auto simp: heap_ok_def sorted_wrt_append)

lemma take_matured_complete:
  "heap_ok n q \<Longrightarrow> take_matured now q = (ms, q') \<Longrightarrow> x \<in> set q' \<Longrightarrow> now < fst x"
proof (induction q arbitrary: ms)
  case (Cons y q)
  show ?case
  proof (cases "fst y \<le> now")
    case True
    then show ?thesis using Cons by (auto simp: heap_ok_def split: prod.splits)
  next
    case False
    moreover have "q' = y # q" using Cons.prems(2) False by simp
    moreover have "x = y \<or> due_before y x" using Cons.prems(1,3) calculation by (auto simp: heap_ok_def)
    ultimately show ?thesis unfolding due_before_def by auto
  qed
qed simp

lemma take_matured_pops:
  "take_matured now q = (let (r, q1) = heappop q in
     case r of Some (t, n, a) \<Rightarrow>
       if t \<le> now then (case take_matured now q1 of (ms, q') \<Rightarrow> (a # ms, q')) else ([], q)
     | None \<Rightarrow> ([], q))"
  by (cases q) auto

end
