(* ===== verification/Engine.thy ===== *)
theory Engine
  imports Classifiers Model Delayed_Queue
begin

text \<open>
  The orchestrator (\<open>src/resumable_batch/engine.py\<close>). The local variables of
  \<open>run_checkpointed\<close> are the record \<open>engine\<close>; its arguments that are plain values or
  functions of values are the record \<open>config\<close>; everything that acts on the outside world (the
  clock and \<open>sleep\<close>, the random generator, the thread pool and its futures, the store) is the
  record \<open>env\<close>, functions on a state \<open>'w\<close> of that world. A callback of the caller returns a
  result, so that it may raise. One function models each nested function of the source; the
  main loop, which need not end, is a \<open>partial_function\<close>: \<open>None\<close> is a run that never returns.

  Futures are numbered in the order of submission. A float computation is done on reals, but
  \<open>**\<close> raises \<open>OverflowError\<close> where the result is no float.
\<close>

section \<open>State, configuration and environment\<close>

record 'p admitted =
  item :: "'p checkpoint_item"
  content_key :: string
  payload_hash :: string
  depth :: int

record 'p engine =
  live_map :: "(string, string) dict"
  seq_counter :: nat
  ready :: "'p admitted list"
  delayed :: "'p admitted delayed"
  terminal_keys :: "string set"
  terminal_hash :: "(string, string) dict"
  transient_attempts :: "(string, int) dict"
  attempts_total :: int
  committed :: int
  resumed :: int
  retried :: int \<comment> \<open>\<open>transient_retries\<close>\<close>
  split_count :: int \<comment> \<open>\<open>splits\<close>\<close>
  fatal_exc :: "exn option"
  inflight :: "(nat, 'p admitted) dict"

record ('p, 'r, 'acc, 'o) config =
  content_key_fn :: "'p \<Rightarrow> (string \<times> string) result"
  combine :: "('r list \<Rightarrow> 'o result) option"
  is_oom :: "exn \<Rightarrow> bool result"
  is_transient :: "exn \<Rightarrow> bool result"
  split_policy :: "'p split_policy option"
  retry :: retry_policy
  concurrency :: int
  cleanup_on_success :: bool
  reduce :: "('acc \<Rightarrow> 'r \<Rightarrow> 'acc result) option"
  finalize :: "('acc \<Rightarrow> 'o result) option"
  initial :: 'acc
  split_size_fn :: "'p checkpoint_item \<Rightarrow> int result"
  max_split_depth :: int

type_synonym ('w, 'a) io = "'w \<Rightarrow> 'a result \<times> 'w"

record ('p, 'r, 'w) env =
  monotonic :: "'w \<Rightarrow> real \<times> 'w"
  sleep :: "real \<Rightarrow> 'w \<Rightarrow> 'w"
  uniform :: "real \<Rightarrow> real \<Rightarrow> 'w \<Rightarrow> real \<times> 'w"
  pool_submit :: "nat \<Rightarrow> 'p \<Rightarrow> ('w, unit) io"
  pool_wait :: "nat list \<Rightarrow> real option \<Rightarrow> 'w \<Rightarrow> nat list \<times> 'w"
  fut_result :: "nat \<Rightarrow> 'w \<Rightarrow> 'r result"
  fut_cancel :: "nat \<Rightarrow> 'w \<Rightarrow> 'w"
  pool_shutdown :: "'w \<Rightarrow> 'w"
  teardowns :: "'w \<Rightarrow> ('w, unit) io list" \<comment> \<open>\<open>worker_teardown(ctx)\<close> for each ctx of \<open>created\<close>\<close>
  store_has :: "string \<Rightarrow> string \<Rightarrow> ('w, bool) io"
  store_commit :: "string \<Rightarrow> string \<Rightarrow> 'r \<Rightarrow> ('w, unit) io"
  store_load_all :: "(string, string) dict \<Rightarrow> ('w, 'r list) io"
  store_iter :: "(string, string) dict \<Rightarrow> ('w, 'r) io list"
  store_cleanup :: "('w, unit) io"

definition max_workers :: "('p, 'r, 'acc, 'o) config \<Rightarrow> nat" where
  "max_workers cfg = nat (max 1 (concurrency cfg))"

definition default_split_size :: "'p checkpoint_item \<Rightarrow> int result" where
  "default_split_size it = Inr (target_size (sched it))"

section \<open>Backoff\<close>

definition overflow_error :: exn where
  "overflow_error = Exn (UserClass ''OverflowError'' PyException) ''Numerical result out of range''"

definition float_pow :: "real \<Rightarrow> nat \<Rightarrow> real result" where
  "float_pow m n = (if \<bar>m ^ n\<bar> < 2 ^ 1024 then Inr (m ^ n) else Inl overflow_error)"

definition backoff_delay :: "('p, 'r, 'w) env \<Rightarrow> retry_policy \<Rightarrow> int \<Rightarrow> ('w, real) io" where
  "backoff_delay env p attempt w =
     (case float_pow (multiplier p) (nat (attempt - 1)) of
        Inl x \<Rightarrow> (Inl x, w)
      | Inr f \<Rightarrow>
          let capped = min (max_delay p) (base_delay p * f)
          in if jitter p \<noteq> 0
             then (case uniform env (1 - jitter p) (1 + jitter p) w of
                     (u, w') \<Rightarrow> (Inr (max 0 (capped * u)), w'))
             else (Inr (max 0 capped), w))"

section \<open>Admission\<close>

definition duplicate_key :: "string \<Rightarrow> exn" where
  "duplicate_key ck = Exn ContentKeyCollisionError (''duplicate live content_key '' @ ck)"

definition admit :: "('p, 'r, 'acc, 'o) config \<Rightarrow> 'p checkpoint_item \<Rightarrow> int \<Rightarrow> 'p engine \<Rightarrow>
    'p admitted result \<times> 'p engine" where
  "admit cfg it d e =
     (case content_key_fn cfg (payload it) of
        Inl x \<Rightarrow> (Inl x, e)
      | Inr (ck, ph) \<Rightarrow>
          if ck \<in> dict_keys (live_map e) then (Inl (duplicate_key ck), e)
          else (Inr \<lparr>item = it, content_key = ck, payload_hash = ph, depth = d\<rparr>,
                e\<lparr>live_map := dict_set ck ph (live_map e)\<rparr>))"

fun admit_all :: "('p, 'r, 'acc, 'o) config \<Rightarrow> 'p checkpoint_item list \<Rightarrow> int \<Rightarrow> 'p engine \<Rightarrow>
    'p admitted list result \<times> 'p engine" where
  "admit_all cfg [] d e = (Inr [], e)"
| "admit_all cfg (it # its) d e =
     (case admit cfg it d e of
        (Inl x, e1) \<Rightarrow> (Inl x, e1)
      | (Inr ad, e1) \<Rightarrow>
          (case admit_all cfg its d e1 of (Inl x, e2) \<Rightarrow> (Inl x, e2) | (Inr ads, e2) \<Rightarrow> (Inr (ad # ads), e2)))"

definition enqueue_terminal :: "'p admitted \<Rightarrow> 'p engine \<Rightarrow> 'p engine" where
  \<comment> \<open>a new terminal key, ready to run\<close>
  "enqueue_terminal ad e =
     e\<lparr>terminal_keys := insert (content_key ad) (terminal_keys e),
       terminal_hash := dict_set (content_key ad) (payload_hash ad) (terminal_hash e),
       ready := ready e @ [ad]\<rparr>"

fun admit_roots :: "('p, 'r, 'acc, 'o) config \<Rightarrow> 'p checkpoint_item list \<Rightarrow> 'p engine \<Rightarrow>
    unit result \<times> 'p engine" where
  "admit_roots cfg [] e = (Inr (), e)"
| "admit_roots cfg (it # its) e =
     (case admit cfg it 0 e of
        (Inl x, e1) \<Rightarrow> (Inl x, e1)
      | (Inr ad, e1) \<Rightarrow> admit_roots cfg its (enqueue_terminal ad e1))"

definition initial_engine :: "'p engine" where
  "initial_engine =
     \<lparr>live_map = [], seq_counter = 0, ready = [], delayed = [], terminal_keys = {}, terminal_hash = [],
      transient_attempts = [], attempts_total = 0, committed = 0, resumed = 0, retried = 0,
      split_count = 0, fatal_exc = None, inflight = []\<rparr>"

section \<open>Delayed retries\<close>

definition promote_matured :: "('p, 'r, 'w) env \<Rightarrow> 'p engine \<Rightarrow> 'w \<Rightarrow> 'p engine \<times> 'w" where
  "promote_matured env e w =
     (case monotonic env w of
        (now, w') \<Rightarrow>
          (case take_matured now (delayed e) of
             (ms, q) \<Rightarrow> (e\<lparr>delayed := q, ready := ready e @ ms\<rparr>, w')))"

section \<open>Splitting\<close>

definition split_fatal :: "string \<Rightarrow> string \<Rightarrow> exn" where
  "split_fatal why ck = Exn SplitFatal (why @ ck)"

fun sizes :: "('p checkpoint_item \<Rightarrow> int result) \<Rightarrow> 'p checkpoint_item list \<Rightarrow> int list result" where
  "sizes f [] = Inr []"
| "sizes f (c # cs) =
     (case f c of
        Inl x \<Rightarrow> Inl x
      | Inr s \<Rightarrow> (case sizes f cs of Inl x \<Rightarrow> Inl x | Inr ss \<Rightarrow> Inr (s # ss)))"

definition not_shrinking :: "int \<Rightarrow> int list \<Rightarrow> bool" where
  "not_shrinking parent_sz child_szs \<longleftrightarrow>
     parent_sz > 0 \<and> list_all (\<lambda>s. s > 0) child_szs \<and> Max (set child_szs) \<ge> parent_sz"

definition adopt :: "'p admitted \<Rightarrow> 'p admitted list \<Rightarrow> 'p engine \<Rightarrow> 'p engine" where
  \<comment> \<open>the children take the parent's place among the terminal keys\<close>
  "adopt ad cads e =
     (let e1 = e\<lparr>terminal_keys := terminal_keys e - {content_key ad},
                 terminal_hash := dict_pop (content_key ad) (terminal_hash e)\<rparr>
      in (fold enqueue_terminal cads e1)\<lparr>split_count := split_count e + 1\<rparr>)"

definition handle_split :: "('p, 'r, 'acc, 'o) config \<Rightarrow> 'p split_policy \<Rightarrow> 'p admitted \<Rightarrow> 'p engine \<Rightarrow>
    unit result \<times> 'p engine" where
  "handle_split cfg sp ad e =
     (if depth ad + 1 > max_split_depth cfg
      then (Inl (split_fatal ''split depth cap exceeded on '' (content_key ad)), e)
      else case split_fn sp (item ad) of
        Inl x \<Rightarrow> (Inl x, e)
      | Inr children \<Rightarrow>
          if children = [] then (Inl (split_fatal ''split produced no children for '' (content_key ad)), e)
          else case split_size_fn cfg (item ad) of
            Inl x \<Rightarrow> (Inl x, e)
          | Inr parent_sz \<Rightarrow>
              (case sizes (split_size_fn cfg) children of
                 Inl x \<Rightarrow> (Inl x, e)
               | Inr child_szs \<Rightarrow>
                   if not_shrinking parent_sz child_szs
                   then (Inl (split_fatal ''split did not strictly shrink '' (content_key ad)), e)
                   else (case admit_all cfg children (depth ad + 1) e of
                           (Inl x, e1) \<Rightarrow> (Inl x, e1)
                         | (Inr cads, e1) \<Rightarrow> (Inr (), adopt ad cads e1))))"

section \<open>Routing a failed attempt\<close>

definition try_split :: "('p, 'r, 'acc, 'o) config \<Rightarrow> 'p split_policy \<Rightarrow> 'p admitted \<Rightarrow> 'p engine \<Rightarrow>
    exn option result \<times> 'p engine" where
  \<comment> \<open>\<open>try: _handle_split(ad); return None / except _SplitFatal as sf: return sf\<close>\<close>
  "try_split cfg sp ad e =
     (case handle_split cfg sp ad e of
        (Inr u, e1) \<Rightarrow> (Inr None, e1)
      | (Inl x, e1) \<Rightarrow> if isinstance x SplitFatal then (Inr (Some x), e1) else (Inl x, e1))"

definition wants_split :: "('p, 'r, 'acc, 'o) config \<Rightarrow> exn \<Rightarrow> 'p admitted \<Rightarrow> bool result" where
  \<comment> \<open>\<open>split_policy is not None and split_policy.should_split(exc, ad.item)\<close>\<close>
  "wants_split cfg exc ad =
     (case split_policy cfg of None \<Rightarrow> Inr False | Some sp \<Rightarrow> should_split sp exc (item ad))"

definition retry_after_error :: "string \<Rightarrow> exn" where
  "retry_after_error why = Exn RetryAfterError why"

definition server_delay :: "retry_policy \<Rightarrow> exn \<Rightarrow> (exn + real option) result" where
  \<comment> \<open>the validated \<open>Retry-After\<close> of a failure; a malformed or excessive one is fatal, as \<open>Inr (Inl _)\<close>\<close>
  "server_delay p exc =
     (case retry_after_fn p of
        None \<Rightarrow> Inr (Inr None)
      | Some f \<Rightarrow>
          (case f exc of
             Inl x \<Rightarrow> Inl x
           | Inr None \<Rightarrow> Inr (Inr None)
           | Inr (Some server) \<Rightarrow>
               if \<not> isfinite server \<or> float_less server (Fin 0)
               then Inr (Inl (retry_after_error ''malformed Retry-After''))
               else if float_less (max_server_delay p) server
               then Inr (Inl (retry_after_error ''server Retry-After exceeds operational bound''))
               else (case server of Fin s \<Rightarrow> Inr (Inr (Some s)) | _ \<Rightarrow> Inr (Inr None))))"

definition retry_later :: "('p, 'r, 'acc, 'o) config \<Rightarrow> ('p, 'r, 'w) env \<Rightarrow> 'p admitted \<Rightarrow> exn \<Rightarrow> 'p engine \<Rightarrow> 'w \<Rightarrow>
    exn option result \<times> 'p engine \<times> 'w" where
  \<comment> \<open>step (c): requeue the same key, within its budget\<close>
  "retry_later cfg env ad exc e w =
     (let ck = content_key ad;
          n = (case dict_get (transient_attempts e) ck of None \<Rightarrow> 0 | Some m \<Rightarrow> m) + 1;
          e1 = e\<lparr>transient_attempts := dict_set ck n (transient_attempts e)\<rparr>
      in if n < max_attempts (retry cfg) then
           (case server_delay (retry cfg) exc of
              Inl x \<Rightarrow> (Inl x, e1, w)
            | Inr (Inl fatal) \<Rightarrow> (Inr (Some fatal), e1, w)
            | Inr (Inr server) \<Rightarrow>
                (case backoff_delay env (retry cfg) n w of
                   (Inl x, w1) \<Rightarrow> (Inl x, e1, w1)
                 | (Inr b, w1) \<Rightarrow>
                     let delay = max b (case server of None \<Rightarrow> 0 | Some s \<Rightarrow> s)
                     in case monotonic env w1 of
                          (now, w2) \<Rightarrow>
                            (Inr None,
                             e1\<lparr>delayed := heappush (delayed e1) (now + delay, seq_counter e1, ad),
                                seq_counter := seq_counter e1 + 1, retried := retried e1 + 1\<rparr>,
                             w2)))
         else (Inr (Some exc), e1, w))"

definition route_exception :: "('p, 'r, 'acc, 'o) config \<Rightarrow> ('p, 'r, 'w) env \<Rightarrow> 'p admitted \<Rightarrow> exn \<Rightarrow> 'p engine \<Rightarrow> 'w \<Rightarrow>
    exn option result \<times> 'p engine \<times> 'w" where
  \<comment> \<open>a fatal exception or None; \<open>Inl\<close> is an exception of a callback, which leaves the run\<close>
  "route_exception cfg env ad exc e w =
     (case is_oom cfg exc of
        Inl x \<Rightarrow> (Inl x, e, w)
      | Inr oom \<Rightarrow>
          (case wants_split cfg exc ad of
             Inl x \<Rightarrow> (Inl x, e, w)
           | Inr split_it \<Rightarrow>
               if split_it
               then (case try_split cfg (the (split_policy cfg)) ad e of (r, e1) \<Rightarrow> (r, e1, w))
               else if oom then (Inr (Some exc), e, w)
               else (case is_transient cfg exc of
                       Inl x \<Rightarrow> (Inl x, e, w)
                     | Inr transient \<Rightarrow>
                         if transient then retry_later cfg env ad exc e w else (Inr (Some exc), e, w))))"

section \<open>The loop\<close>

fun dispatch :: "('p, 'r, 'acc, 'o) config \<Rightarrow> ('p, 'r, 'w) env \<Rightarrow> 'p admitted list \<Rightarrow> 'p engine \<Rightarrow> 'w \<Rightarrow>
    unit result \<times> 'p engine \<times> 'w" where
  \<comment> \<open>step 1, on the ready queue: a cached key is skipped, another is submitted up to the cap\<close>
  "dispatch cfg env [] e w = (Inr (), e\<lparr>ready := []\<rparr>, w)"
| "dispatch cfg env (ad # rest) e w =
     (if length (inflight e) < max_workers cfg then
        (case store_has env (content_key ad) (payload_hash ad) w of
           (Inl x, w1) \<Rightarrow> (Inl x, e\<lparr>ready := rest\<rparr>, w1)
         | (Inr hit, w1) \<Rightarrow>
             if hit then dispatch cfg env rest (e\<lparr>resumed := resumed e + 1\<rparr>) w1
             else (let fut = nat (attempts_total e) in
                   case pool_submit env fut (payload (item ad)) w1 of
                     (Inl x, w2) \<Rightarrow> (Inl x, e\<lparr>ready := rest\<rparr>, w2)
                   | (Inr u, w2) \<Rightarrow>
                       dispatch cfg env rest
                         (e\<lparr>attempts_total := attempts_total e + 1,
                            inflight := dict_set fut ad (inflight e)\<rparr>) w2))
      else (Inr (), e\<lparr>ready := ad # rest\<rparr>, w))"

fun process_done :: "('p, 'r, 'acc, 'o) config \<Rightarrow> ('p, 'r, 'w) env \<Rightarrow> nat list \<Rightarrow> 'p engine \<Rightarrow> 'w \<Rightarrow>
    unit result \<times> 'p engine \<times> 'w" where
  \<comment> \<open>the completed futures, in the order the set yields them\<close>
  "process_done cfg env [] e w = (Inr (), e, w)"
| "process_done cfg env (fut # futs) e w =
     (case dict_get (inflight e) fut of
        None \<Rightarrow> (Inl (Exn PyKeyError ''future''), e, w)
      | Some ad \<Rightarrow>
          let e1 = e\<lparr>inflight := dict_pop fut (inflight e)\<rparr> in
          (case fut_result env fut w of
             Inl exc \<Rightarrow>
               if is_Exception exc then
                 (case route_exception cfg env ad exc e1 w of
                    (Inl x, e2, w2) \<Rightarrow> (Inl x, e2, w2)
                  | (Inr (Some fatal), e2, w2) \<Rightarrow> (Inr (), e2\<lparr>fatal_exc := Some fatal\<rparr>, w2)
                  | (Inr None, e2, w2) \<Rightarrow> process_done cfg env futs e2 w2)
               else (Inl exc, e1, w)
           | Inr result \<Rightarrow>
               (case store_commit env (content_key ad) (payload_hash ad) result w of
                  (Inl x, w2) \<Rightarrow> (Inl x, e1, w2)
                | (Inr u, w2) \<Rightarrow> process_done cfg env futs (e1\<lparr>committed := committed e1 + 1\<rparr>) w2)))"

definition wait_timeout :: "('p, 'r, 'w) env \<Rightarrow> 'p engine \<Rightarrow> 'w \<Rightarrow> real option \<times> 'w" where
  "wait_timeout env e w =
     (case delayed e of
        [] \<Rightarrow> (None, w)
      | (ready_at, _) # _ \<Rightarrow> (case monotonic env w of (now, w1) \<Rightarrow> (Some (max 0 (ready_at - now)), w1)))"

definition await :: "('p, 'r, 'acc, 'o) config \<Rightarrow> ('p, 'r, 'w) env \<Rightarrow> 'p engine \<Rightarrow> 'w \<Rightarrow>
    unit result \<times> 'p engine \<times> 'w" where
  \<comment> \<open>steps 2/3 with work in flight: wait, route every completed future, promote\<close>
  "await cfg env e w =
     (case wait_timeout env e w of
        (timeout, w1) \<Rightarrow>
          (case pool_wait env (map fst (inflight e)) timeout w1 of
             (done_futs, w2) \<Rightarrow>
               (case process_done cfg env done_futs e w2 of
                  (Inl x, e3, w3) \<Rightarrow> (Inl x, e3, w3)
                | (Inr u, e3, w3) \<Rightarrow> (case promote_matured env e3 w3 of (e4, w4) \<Rightarrow> (Inr (), e4, w4)))))"

definition doze :: "('p, 'r, 'w) env \<Rightarrow> 'p engine \<Rightarrow> 'w \<Rightarrow> 'p engine \<times> 'w" where
  \<comment> \<open>nothing in flight, only delayed work: sleep until the earliest is due, promote\<close>
  "doze env e w =
     (case wait_timeout env e w of
        (timeout, w1) \<Rightarrow>
          let wait_s = (case timeout of None \<Rightarrow> 0 | Some t \<Rightarrow> t);
              w2 = (if wait_s > 0 then sleep env wait_s w1 else w1)
          in promote_matured env e w2)"

definition iteration :: "('p, 'r, 'acc, 'o) config \<Rightarrow> ('p, 'r, 'w) env \<Rightarrow> 'p engine \<Rightarrow> 'w \<Rightarrow>
    unit result \<times> 'p engine \<times> 'w" where
  "iteration cfg env e w =
     (case dispatch cfg env (ready e) e w of
        (Inl x, e1, w1) \<Rightarrow> (Inl x, e1, w1)
      | (Inr u, e1, w1) \<Rightarrow>
          if fatal_exc e1 \<noteq> None then (Inr (), e1, w1)
          else if inflight e1 \<noteq> [] then await cfg env e1 w1
          else if delayed e1 \<noteq> [] then (case doze env e1 w1 of (e2, w2) \<Rightarrow> (Inr (), e2, w2))
          else (Inr (), e1, w1))"

definition unfinished :: "'p engine \<Rightarrow> bool" where
  "unfinished e \<longleftrightarrow> (ready e \<noteq> [] \<or> delayed e \<noteq> [] \<or> inflight e \<noteq> []) \<and> fatal_exc e = None"

partial_function (option) run_loop :: "('p, 'r, 'acc, 'o) config \<Rightarrow> ('p, 'r, 'w) env \<Rightarrow> 'p engine \<Rightarrow> 'w \<Rightarrow>
    (unit result \<times> 'p engine \<times> 'w) option" where
  "run_loop cfg env e w =
     (if unfinished e then
        (case iteration cfg env e w of
           (Inl x, e1, w1) \<Rightarrow> Some (Inl x, e1, w1)
         | (Inr u, e1, w1) \<Rightarrow> run_loop cfg env e1 w1)
      else Some (Inr (), e, w))"

section \<open>The run\<close>

fun run_teardowns :: "('w, unit) io list \<Rightarrow> ('w, unit) io" where
  \<comment> \<open>an \<open>Exception\<close> of a teardown is ignored\<close>
  "run_teardowns [] w = (Inr (), w)"
| "run_teardowns (t # ts) w =
     (case t w of
        (Inr u, w1) \<Rightarrow> run_teardowns ts w1
      | (Inl x, w1) \<Rightarrow> if is_Exception x then run_teardowns ts w1 else (Inl x, w1))"

definition finally_block :: "('p, 'r, 'w) env \<Rightarrow> ('w, unit) io" where
  "finally_block env w = (let w1 = pool_shutdown env w in run_teardowns (teardowns env w1) w1)"

definition cancel_inflight :: "('p, 'r, 'w) env \<Rightarrow> 'p engine \<Rightarrow> 'w \<Rightarrow> 'w" where
  "cancel_inflight env e w = fold (fut_cancel env) (map fst (inflight e)) w"

definition expected_map :: "'p engine \<Rightarrow> (string, string) dict result" where
  \<comment> \<open>\<open>{ck: terminal_hash[ck] for ck in terminal_keys}\<close>\<close>
  "expected_map e =
     (let ks = sorted_list_of_set (terminal_keys e)
      in if \<forall>k\<in>set ks. dict_get (terminal_hash e) k \<noteq> None
         then Inr (map (\<lambda>k. (k, the (dict_get (terminal_hash e) k))) ks)
         else Inl (Exn PyKeyError ''terminal_hash''))"

fun fold_results :: "('acc \<Rightarrow> 'r \<Rightarrow> 'acc result) \<Rightarrow> 'acc \<Rightarrow> ('w, 'r) io list \<Rightarrow> ('w, 'acc) io" where
  \<comment> \<open>one result at a time: each is loaded when the one before has been folded\<close>
  "fold_results f acc [] w = (Inr acc, w)"
| "fold_results f acc (l # ls) w =
     (case l w of
        (Inl x, w1) \<Rightarrow> (Inl x, w1)
      | (Inr r, w1) \<Rightarrow> (case f acc r of Inl x \<Rightarrow> (Inl x, w1) | Inr acc' \<Rightarrow> fold_results f acc' ls w1))"

definition stitch :: "('p, 'r, 'acc, 'o) config \<Rightarrow> ('p, 'r, 'w) env \<Rightarrow> (string, string) dict \<Rightarrow> ('w, 'o) io" where
  "stitch cfg env expected w =
     (case combine cfg of
        Some c \<Rightarrow>
          (case store_load_all env expected w of (Inl x, w1) \<Rightarrow> (Inl x, w1) | (Inr rs, w1) \<Rightarrow> (c rs, w1))
      | None \<Rightarrow>
          (case (reduce cfg, finalize cfg) of
             (Some f, Some g) \<Rightarrow>
               (case fold_results f (initial cfg) (store_iter env expected) w of
                  (Inl x, w1) \<Rightarrow> (Inl x, w1)
                | (Inr acc, w1) \<Rightarrow> (g acc, w1))
           | _ \<Rightarrow> (Inl (Exn PyTypeError ''not callable''), w)))"

definition validate_mode :: "('p, 'r, 'acc, 'o) config \<Rightarrow> unit result" where
  "validate_mode cfg =
     (let has_combine = combine cfg \<noteq> None;
          has_reduce = reduce cfg \<noteq> None \<or> finalize cfg \<noteq> None
      in if has_combine = has_reduce
         then Inl (Exn PyValueError ''provide exactly one of combine OR (reduce + finalize)'')
         else if has_reduce \<and> (reduce cfg = None \<or> finalize cfg = None)
         then Inl (Exn PyValueError ''incremental combine requires BOTH reduce and finalize'')
         else Inr ())"

definition conclude :: "('p, 'r, 'acc, 'o) config \<Rightarrow> ('p, 'r, 'w) env \<Rightarrow> 'p engine \<Rightarrow> ('w, 'o checkpoint_result) io" where
  \<comment> \<open>after the loop and the \<open>finally\<close> block\<close>
  "conclude cfg env e w =
     (case fatal_exc e of
        Some x \<Rightarrow> (Inl x, w)
      | None \<Rightarrow>
          (case expected_map e of
             Inl x \<Rightarrow> (Inl x, w)
           | Inr expected \<Rightarrow>
               (case stitch cfg env expected w of
                  (Inl x, w1) \<Rightarrow> (Inl x, w1)
                | (Inr out, w1) \<Rightarrow>
                    (case (if cleanup_on_success cfg then store_cleanup env w1 else (Inr (), w1)) of
                       (Inl x, w2) \<Rightarrow> (Inl x, w2)
                     | (Inr u, w2) \<Rightarrow>
                         (Inr \<lparr>frame = out, attempts = attempts_total e, committed_keys = committed e,
                               resumed_keys = resumed e, transient_retries = retried e,
                               splits = split_count e\<rparr>, w2)))))"

definition run_checkpointed :: "('p, 'r, 'acc, 'o) config \<Rightarrow> ('p, 'r, 'w) env \<Rightarrow> 'p checkpoint_item list \<Rightarrow> 'w \<Rightarrow>
    ('o checkpoint_result result \<times> 'w) option" where
  "run_checkpointed cfg env items w =
     (case validate_mode cfg of
        Inl x \<Rightarrow> Some (Inl x, w)
      | Inr u \<Rightarrow>
          (case admit_roots cfg items initial_engine of
             (Inl x, e) \<Rightarrow> Some (Inl x, w)
           | (Inr u, e) \<Rightarrow>
               (case run_loop cfg env e w of
                  None \<Rightarrow> None
                | Some (r, e1, w1) \<Rightarrow>
                    let w2 = (case r of Inl x \<Rightarrow> w1 | Inr u \<Rightarrow> if fatal_exc e1 = None then w1 else cancel_inflight env e1 w1)
                    in Some (case finally_block env w2 of
                               (Inl x, w3) \<Rightarrow> (Inl x, w3)
                             | (Inr u, w3) \<Rightarrow> (case r of Inl x \<Rightarrow> (Inl x, w3) | Inr u \<Rightarrow> conclude cfg env e1 w3)))))"

end
