(* ===== verification/Engine_Inv.thy ===== *)
theory Engine_Inv
  imports Engine
begin

text \<open>
  The invariant of the engine's state, handler by handler. \<open>frontier cfg items ls\<close> is the
  relation "the leaves \<open>ls\<close> come from the run's items by replacing a parent by the children
  its split gave"; the invariant ties the terminal keys, the queues and the counters of a state
  to such a frontier.
\<close>

section \<open>Leaves of the split forest\<close>

definition admitted_as :: "('p, 'r, 'acc, 'o) config \<Rightarrow> int \<Rightarrow> 'p checkpoint_item \<Rightarrow> 'p admitted \<Rightarrow> bool" where
  "admitted_as cfg d it ad \<longleftrightarrow>
     item ad = it \<and> depth ad = d \<and> content_key_fn cfg (payload it) = Inr (content_key ad, payload_hash ad)"

inductive frontier :: "('p, 'r, 'acc, 'o) config \<Rightarrow> 'p checkpoint_item list \<Rightarrow> 'p admitted list \<Rightarrow> bool"
  for cfg items where
  roots: "list_all2 (admitted_as cfg 0) items ads \<Longrightarrow> frontier cfg items ads"
| replace: "frontier cfg items (xs @ ad # ys) \<Longrightarrow> split_policy cfg = Some sp \<Longrightarrow>
    split_fn sp (item ad) = Inr children \<Longrightarrow> children \<noteq> [] \<Longrightarrow> depth ad + 1 \<le> max_split_depth cfg \<Longrightarrow>
    list_all2 (admitted_as cfg (depth ad + 1)) children cads \<Longrightarrow> frontier cfg items (xs @ ys @ cads)"

inductive_cases frontier_Nil: "frontier cfg items []"

lemma admitted_as_key:
  "list_all2 (admitted_as cfg d) its ads \<Longrightarrow> ad \<in> set ads \<Longrightarrow>
     content_key_fn cfg (payload (item ad)) = Inr (content_key ad, payload_hash ad) \<and> depth ad = d \<and> item ad \<in> set its"
  by (induction rule: list_all2_induct) (auto simp: admitted_as_def)

lemma frontier_leaf:
  assumes "frontier cfg items ls" and "ad \<in> set ls"
  shows "content_key_fn cfg (payload (item ad)) = Inr (content_key ad, payload_hash ad)"
    and "0 \<le> depth ad \<and> (depth ad = 0 \<or> depth ad \<le> max_split_depth cfg)"
proof -
  have "content_key_fn cfg (payload (item ad)) = Inr (content_key ad, payload_hash ad) \<and>
    0 \<le> depth ad \<and> (depth ad = 0 \<or> depth ad \<le> max_split_depth cfg)"
    using assms
  proof (induction arbitrary: ad rule: frontier.induct)
    case (roots ads)
    then show ?case using admitted_as_key by fastforce
  next
    case (replace xs p ys sp children cads)
    from replace.prems consider "ad \<in> set (xs @ p # ys)" | "ad \<in> set cads" by auto
    then show ?case
    proof cases
      case 1
      then show ?thesis by (rule replace.IH)
    next
      case 2
      have "0 \<le> depth p" using replace.IH [of p] by simp
      with admitted_as_key [OF replace.hyps(6) 2] replace.hyps(5) show ?thesis by simp
    qed
  qed
  then show "content_key_fn cfg (payload (item ad)) = Inr (content_key ad, payload_hash ad)"
    and "0 \<le> depth ad \<and> (depth ad = 0 \<or> depth ad \<le> max_split_depth cfg)" by simp_all
qed

section \<open>Admission\<close>

lemma admit_Inr:
  "admit cfg it d e = (Inr ad, e1) \<longleftrightarrow>
     admitted_as cfg d it ad \<and> content_key ad \<notin> dict_keys (live_map e) \<and>
     e1 = e\<lparr>live_map := dict_set (content_key ad) (payload_hash ad) (live_map e)\<rparr>"
  by (cases ad) (auto simp: admit_def admitted_as_def split: sum.splits if_splits)

lemma admit_all_Inr:
  assumes "admit_all cfg its d e = (Inr ads, e1)"
  shows "\<exists>lm. e1 = e\<lparr>live_map := lm\<rparr> \<and> list_all2 (admitted_as cfg d) its ads \<and>
     dict_keys lm = dict_keys (live_map e) \<union> content_key ` set ads \<and>
     distinct (map content_key ads) \<and> content_key ` set ads \<inter> dict_keys (live_map e) = {}"
  using assms
proof (induction its arbitrary: e ads)
  case (Cons it its)
  then obtain ad e2 ads2 where a: "admit cfg it d e = (Inr ad, e2)"
    and r: "admit_all cfg its d e2 = (Inr ads2, e1)" and eq: "ads = ad # ads2"
    by (auto split: prod.splits sum.splits)
  from a have h: "admitted_as cfg d it ad" "content_key ad \<notin> dict_keys (live_map e)"
    "e2 = e\<lparr>live_map := dict_set (content_key ad) (payload_hash ad) (live_map e)\<rparr>"
    unfolding admit_Inr by blast+
  from Cons.IH [OF r] h eq show ?case by auto
qed (auto intro!: exI [of _ "live_map e1"])

section \<open>The invariant\<close>

definition pending :: "'p engine \<Rightarrow> 'p admitted list" where
  "pending e = ready e @ map (\<lambda>x. snd (snd x)) (delayed e) @ map snd (inflight e)"

definition keys_inv :: "('p, 'r, 'acc, 'o) config \<Rightarrow> 'p checkpoint_item list \<Rightarrow> 'p admitted list \<Rightarrow>
    'p admitted list \<Rightarrow> 'p engine \<Rightarrow> bool" where
  \<comment> \<open>\<open>ls\<close> are the leaves, \<open>cur\<close> what is being processed: in no queue\<close>
  "keys_inv cfg items ls cur e \<longleftrightarrow>
     frontier cfg items ls \<and> distinct (map content_key ls) \<and> mset (pending e @ cur) \<subseteq># mset ls \<and>
     terminal_keys e = content_key ` set ls \<and> content_key ` set ls \<subseteq> dict_keys (live_map e) \<and>
     (\<forall>ad\<in>set ls. dict_get (terminal_hash e) (content_key ad) = Some (payload_hash ad)) \<and>
     dict_keys (terminal_hash e) = terminal_keys e"

definition count_inv :: "('p, 'r, 'acc, 'o) config \<Rightarrow> 'p admitted list \<Rightarrow> 'p admitted list \<Rightarrow> 'p engine \<Rightarrow> bool" where
  "count_inv cfg ls cur e \<longleftrightarrow>
     int (length ls) = resumed e + committed e + int (length (pending e)) + int (length cur) \<and>
     attempts_total e = committed e + retried e + split_count e + int (length (inflight e)) + int (length cur) \<and>
     0 \<le> resumed e \<and> 0 \<le> committed e \<and> 0 \<le> retried e \<and> 0 \<le> split_count e"

definition queue_inv :: "('p, 'r, 'acc, 'o) config \<Rightarrow> 'p engine \<Rightarrow> bool" where
  "queue_inv cfg e \<longleftrightarrow>
     heap_ok (seq_counter e) (delayed e) \<and> dict_ok (inflight e) \<and>
     (\<forall>f\<in>dict_keys (inflight e). int f < attempts_total e) \<and> length (inflight e) \<le> max_workers cfg \<and>
     (\<forall>x\<in>set (delayed e). \<exists>n. dict_get (transient_attempts e) (content_key (snd (snd x))) = Some n \<and>
        n < max_attempts (retry cfg)) \<and>
     (\<forall>(k, n)\<in>set (transient_attempts e). 1 \<le> n)"

definition loop_inv :: "('p, 'r, 'acc, 'o) config \<Rightarrow> 'p checkpoint_item list \<Rightarrow> 'p admitted list \<Rightarrow>
    'p admitted list \<Rightarrow> 'p engine \<Rightarrow> bool" where
  "loop_inv cfg items ls cur e \<longleftrightarrow> keys_inv cfg items ls cur e \<and> count_inv cfg ls cur e \<and> queue_inv cfg e"

definition engine_ok :: "('p, 'r, 'acc, 'o) config \<Rightarrow> 'p checkpoint_item list \<Rightarrow> 'p engine \<Rightarrow> bool" where
  \<comment> \<open>between two steps of the loop: after a fatal error one leaf is in no queue\<close>
  "engine_ok cfg items e \<longleftrightarrow>
     (\<exists>ls cur. loop_inv cfg items ls cur e \<and> length cur = (if fatal_exc e = None then 0 else 1))"

section \<open>Roots\<close>

lemma list_all2_snoc: "list_all2 P xs ys \<Longrightarrow> P x y \<Longrightarrow> list_all2 P (xs @ [x]) (ys @ [y])"
  by (auto intro: list_all2_appendI)

lemma admit_roots_inv:
  assumes "admit_roots cfg its e = (Inr (), e1)"
    and "loop_inv cfg done_items ls [] e" and "list_all2 (admitted_as cfg 0) done_items ls"
    and "fatal_exc e = None" and "dict_keys (live_map e) = content_key ` set ls"
  shows "\<exists>ls1. loop_inv cfg (done_items @ its) ls1 [] e1 \<and> list_all2 (admitted_as cfg 0) (done_items @ its) ls1 \<and>
     fatal_exc e1 = None"
  using assms
proof (induction its arbitrary: e done_items ls)
  case (Cons it its)
  then obtain ad e2 where a: "admit cfg it 0 e = (Inr ad, e2)"
    and r: "admit_roots cfg its (enqueue_terminal ad e2) = (Inr (), e1)"
    by (auto split: prod.splits sum.splits)
  from a have h: "admitted_as cfg 0 it ad" "content_key ad \<notin> dict_keys (live_map e)"
    "e2 = e\<lparr>live_map := dict_set (content_key ad) (payload_hash ad) (live_map e)\<rparr>"
    unfolding admit_Inr by blast+
  have l: "list_all2 (admitted_as cfg 0) (done_items @ [it]) (ls @ [ad])"
    using Cons.prems(3) h(1) by (rule list_all2_snoc)
  have new: "\<forall>x\<in>set ls. content_key x \<noteq> content_key ad" using h(2) Cons.prems(5) by (metis imageI)
  have "loop_inv cfg (done_items @ [it]) (ls @ [ad]) [] (enqueue_terminal ad e2)"
    using Cons.prems(2) new h(3) frontier.roots [OF l]
    by (auto simp: loop_inv_def keys_inv_def count_inv_def queue_inv_def enqueue_terminal_def pending_def)
  from Cons.IH [OF r this l] Cons.prems(4,5) h(3)
  show ?case by (simp add: enqueue_terminal_def insert_commute)
qed auto

lemma initial_inv: "loop_inv cfg [] [] [] initial_engine"
  by (simp add: loop_inv_def keys_inv_def count_inv_def queue_inv_def initial_engine_def pending_def heap_ok_def
      frontier.roots)

lemma roots_ok:
  "admit_roots cfg items initial_engine = (Inr (), e) \<Longrightarrow> engine_ok cfg items e"
  using admit_roots_inv [OF _ initial_inv, of cfg items e]
  by (auto simp: engine_ok_def initial_engine_def)


section \<open>Splitting\<close>

lemma enqueue_fold:
  "fold enqueue_terminal cads e =
     e\<lparr>terminal_keys := terminal_keys e \<union> content_key ` set cads,
       terminal_hash := fold (\<lambda>c d. dict_set (content_key c) (payload_hash c) d) cads (terminal_hash e),
       ready := ready e @ cads\<rparr>"
  by (induction cads arbitrary: e) (auto simp: enqueue_terminal_def)

lemma fold_set_other:
  "k \<notin> content_key ` set cads \<Longrightarrow>
   dict_get (fold (\<lambda>c d. dict_set (content_key c) (payload_hash c) d) cads d0) k = dict_get d0 k"
  by (induction cads arbitrary: d0) auto

lemma fold_set_get:
  "distinct (map content_key cads) \<Longrightarrow> c \<in> set cads \<Longrightarrow>
   dict_get (fold (\<lambda>c d. dict_set (content_key c) (payload_hash c) d) cads d0) (content_key c) = Some (payload_hash c)"
proof (induction cads arbitrary: d0)
  case (Cons x cads)
  show ?case
  proof (cases "c \<in> set cads")
    case False
    with Cons.prems have "c = x" "content_key x \<notin> content_key ` set cads" by auto
    then show ?thesis by (simp add: fold_set_other)
  qed (use Cons in simp)
qed simp

lemma fold_set_keys:
  "dict_keys (fold (\<lambda>c d. dict_set (content_key c) (payload_hash c) d) cads d0) = dict_keys d0 \<union> content_key ` set cads"
  by (induction cads arbitrary: d0) auto


lemma handle_split_Inr:
  assumes "handle_split cfg sp ad e = (Inr (), e1)"
  obtains children cads e2 where "split_fn sp (item ad) = Inr children" and "children \<noteq> []"
    and "depth ad + 1 \<le> max_split_depth cfg"
    and "admit_all cfg children (depth ad + 1) e = (Inr cads, e2)" and "e1 = adopt ad cads e2"
  using assms by (auto simp: handle_split_def split: if_splits sum.splits prod.splits)

lemma split_inv:
  assumes "handle_split cfg sp ad e = (Inr (), e1)" and "split_policy cfg = Some sp"
    and "loop_inv cfg items ls [ad] e"
  obtains ls1 where "loop_inv cfg items ls1 [] e1"
    and "\<forall>x\<in>set ls1. x \<in> set (pending e1) \<or> (x \<in> set ls \<and> x \<notin> set (pending e) \<and> x \<noteq> ad)"
proof -
  from handle_split_Inr [OF assms(1)] obtain children cads e2 where s: "split_fn sp (item ad) = Inr children"
      "children \<noteq> []" "depth ad + 1 \<le> max_split_depth cfg"
      "admit_all cfg children (depth ad + 1) e = (Inr cads, e2)" "e1 = adopt ad cads e2" .
  from admit_all_Inr [OF s(4)] obtain lm where aa: "e2 = e\<lparr>live_map := lm\<rparr>"
      "list_all2 (admitted_as cfg (depth ad + 1)) children cads"
      "dict_keys lm = dict_keys (live_map e) \<union> content_key ` set cads"
      "distinct (map content_key cads)" "content_key ` set cads \<inter> dict_keys (live_map e) = {}" by blast
  have k: "keys_inv cfg items ls [ad] e" using assms(3) by (simp add: loop_inv_def)
  then have "ad \<in># mset ls" by (auto simp: keys_inv_def dest: mset_subset_eqD)
  then obtain xs ys where ls: "ls = xs @ ad # ys" by (auto dest: split_list)
  let ?ls1 = "xs @ ys @ cads"
  have fr: "frontier cfg items ?ls1"
    using frontier.replace [of cfg items xs ad ys sp children cads] k ls assms(2) s(1-3) aa(2)
    by (simp add: keys_inv_def)
  have d: "distinct (map content_key ls)" "content_key ` set ls \<subseteq> dict_keys (live_map e)"
    using k by (simp_all add: keys_inv_def)
  have new: "content_key ` set cads \<inter> content_key ` set ls = {}" using d(2) aa(5) by blast
  have na: "content_key ad \<notin> content_key ` set xs" "content_key ad \<notin> content_key ` set ys" using d(1) ls by auto
  have rest: "content_key ` set xs \<union> content_key ` set ys = terminal_keys e - {content_key ad}"
    using k ls na by (auto simp: keys_inv_def image_Un)
  have "content_key ` set cads \<inter> content_key ` (set xs \<union> set ys) = {}" using new ls by auto
  then have "distinct (map content_key ?ls1)" using d(1) aa(4) ls by (auto simp: image_Un)
  moreover have "mset (pending e1) \<subseteq># mset ?ls1"
    using k s(5) aa(1) ls
    by (simp add: keys_inv_def adopt_def Let_def enqueue_fold pending_def)
  moreover have "dict_get (terminal_hash e1) (content_key x) = Some (payload_hash x)" if "x \<in> set ?ls1" for x
  proof (cases "x \<in> set cads")
    case True
    then show ?thesis using s(5) aa(4) by (simp add: adopt_def Let_def enqueue_fold fold_set_get)
  next
    case False
    with that have x: "x \<in> set ls" "x \<in> set xs \<union> set ys" using ls by auto
    then have "content_key x \<notin> content_key ` set cads" using new by blast
    moreover have "content_key x \<noteq> content_key ad" using d(1) ls x(2) by (auto simp: image_iff)
    ultimately show ?thesis using k s(5) aa(1) x(1)
      by (simp add: adopt_def Let_def enqueue_fold fold_set_other keys_inv_def)
  qed
  moreover have "terminal_keys e1 = content_key ` set ?ls1"
    using s(5) aa(1) rest by (simp add: adopt_def Let_def enqueue_fold image_Un Un_assoc [symmetric])
  moreover have "dict_keys (terminal_hash e1) = terminal_keys e1"
    using k s(5) aa(1) by (simp add: adopt_def Let_def enqueue_fold fold_set_keys keys_inv_def)
  moreover have "content_key ` set ?ls1 \<subseteq> dict_keys (live_map e1)"
    using d(2) s(5) aa(1,3) ls by (auto simp: adopt_def Let_def enqueue_fold)
  ultimately have "keys_inv cfg items ?ls1 [] e1" using fr by (simp add: keys_inv_def)
  moreover have "count_inv cfg ?ls1 [] e1"
    using assms(3) s(5) aa(1) ls by (simp add: loop_inv_def count_inv_def adopt_def Let_def enqueue_fold pending_def)
  moreover have "queue_inv cfg e1"
    using assms(3) s(5) aa(1) by (simp add: loop_inv_def queue_inv_def adopt_def Let_def enqueue_fold)
  ultimately have "loop_inv cfg items ?ls1 [] e1" by (simp add: loop_inv_def)
  moreover have "set (pending e1) = set (pending e) \<union> set cads"
    using s(5) aa(1) by (auto simp: pending_def adopt_def Let_def enqueue_fold)
  moreover have "x \<noteq> ad" if "x \<in> set xs \<union> set ys" for x using that na by auto
  ultimately show ?thesis using that [of ?ls1] ls by auto
qed

section \<open>Routing\<close>

text \<open>
  What a routed failure does to the state, branch by branch: the four outcomes of
  \<open>route_exception\<close> that do not leave the run.
\<close>

definition transient_count :: "'p engine \<Rightarrow> string \<Rightarrow> int" where
  "transient_count e ck = (case dict_get (transient_attempts e) ck of None \<Rightarrow> 0 | Some m \<Rightarrow> m)"

definition count_failure :: "'p admitted \<Rightarrow> 'p engine \<Rightarrow> 'p engine" where
  "count_failure ad e =
     e\<lparr>transient_attempts := dict_set (content_key ad) (transient_count e (content_key ad) + 1) (transient_attempts e)\<rparr>"

definition requeue :: "'p admitted \<Rightarrow> real \<Rightarrow> 'p engine \<Rightarrow> 'p engine" where
  "requeue ad due e =
     e\<lparr>delayed := heappush (delayed e) (due, seq_counter e, ad),
       seq_counter := seq_counter e + 1, retried := retried e + 1\<rparr>"

lemma retry_later_cases:
  assumes "retry_later cfg env ad exc e w = (Inr r, e1, w1)"
  obtains (fatal) x where "r = Some x" and "e1 = count_failure ad e"
  | (requeued) due where "r = None" and "e1 = requeue ad due (count_failure ad e)"
      and "transient_count e (content_key ad) + 1 < max_attempts (retry cfg)"
  using assms
  by (auto simp: retry_later_def Let_def count_failure_def transient_count_def requeue_def
      split: if_splits sum.splits prod.splits option.splits)

definition grows :: "'p engine \<Rightarrow> 'p engine \<Rightarrow> bool" where
  "grows e e1 \<longleftrightarrow> (\<exists>lm. e1 = e\<lparr>live_map := lm\<rparr> \<and> dict_keys (live_map e) \<subseteq> dict_keys lm)"

lemma grows_refl [simp]: "grows e e"
  by (auto simp: grows_def intro!: exI [of _ "live_map e"])

lemma grows_trans: "grows e e1 \<Longrightarrow> grows e1 e2 \<Longrightarrow> grows e e2"
proof -
  assume "grows e e1" and "grows e1 e2"
  then obtain l1 l2 where "e1 = e\<lparr>live_map := l1\<rparr>" "dict_keys (live_map e) \<subseteq> dict_keys l1"
      "e2 = e1\<lparr>live_map := l2\<rparr>" "dict_keys (live_map e1) \<subseteq> dict_keys l2"
    unfolding grows_def by blast
  then show ?thesis unfolding grows_def by (intro exI [of _ l2] conjI) auto
qed

lemma grows_insert: "grows e (e\<lparr>live_map := dict_set k v (live_map e)\<rparr>)"
  unfolding grows_def by (rule exI [of _ "dict_set k v (live_map e)"]) (simp add: subset_insertI)

lemma admit_all_keeps:
  "admit_all cfg its d e = (r, e1) \<Longrightarrow>
   grows e e1"
proof (induction its arbitrary: e r e1)
  case (Cons it its)
  obtain r2 e2 where a: "admit cfg it d e = (r2, e2)" by fastforce
  then have e2: "grows e e2"
    by (auto simp: admit_def grows_insert split: sum.splits if_splits)
  show ?case
  proof (cases r2)
    case (Inl x)
    with Cons.prems a e2 show ?thesis by simp
  next
    case (Inr ad)
    obtain r3 e3 where b: "admit_all cfg its d e2 = (r3, e3)" by fastforce
    with Cons.prems a Inr have "e1 = e3" by (auto split: sum.splits)
    with Cons.IH [OF b] e2 show ?thesis by (auto intro: grows_trans)
  qed
qed simp

lemma handle_split_Inl:
  assumes "handle_split cfg sp ad e = (Inl x, e1)"
  shows "grows e e1"
proof -
  have "e1 = e \<or> (\<exists>children. admit_all cfg children (depth ad + 1) e = (Inl x, e1))"
    using assms by (auto simp: handle_split_def split: if_splits sum.splits prod.splits)
  then show ?thesis by (auto dest: admit_all_keeps)
qed

lemma route_cases:
  assumes "route_exception cfg env ad exc e w = (Inr r, e1, w1)"
  obtains (split) sp where "split_policy cfg = Some sp" and "should_split sp exc (item ad) = Inr True"
      and "handle_split cfg sp ad e = (Inr (), e1)" and "r = None" and "w1 = w"
  | (split_fails) sp x where "split_policy cfg = Some sp" and "should_split sp exc (item ad) = Inr True"
      and "handle_split cfg sp ad e = (Inl x, e1)" and "isinstance x SplitFatal" and "r = Some x" and "w1 = w"
  | (fatal) "wants_split cfg exc ad = Inr False" and "r = Some exc" and "e1 = e" and "w1 = w"
      and "is_oom cfg exc = Inr True \<or> is_transient cfg exc = Inr False"
  | (transient) "is_oom cfg exc = Inr False" and "wants_split cfg exc ad = Inr False"
      and "is_transient cfg exc = Inr True" and "retry_later cfg env ad exc e w = (Inr r, e1, w1)"
proof (cases "wants_split cfg exc ad")
  case (Inl x)
  with assms show ?thesis by (simp add: route_exception_def split: sum.splits)
next
  case ws: (Inr b)
  obtain oom where oom: "is_oom cfg exc = Inr oom"
    using assms by (cases "is_oom cfg exc") (auto simp: route_exception_def)
  show ?thesis
  proof (cases b)
    case True
    then obtain sp where sp: "split_policy cfg = Some sp" "should_split sp exc (item ad) = Inr True"
      using ws by (auto simp: wants_split_def split: option.splits)
    obtain q e2 where h: "handle_split cfg sp ad e = (q, e2)" by fastforce
    have r: "(Inr r, e1, w1) = (case try_split cfg sp ad e of (r, e1) \<Rightarrow> (r, e1, w))"
      using assms ws oom True sp by (simp add: route_exception_def)
    show ?thesis
    proof (cases q)
      case (Inl x)
      with r h show ?thesis
        using split_fails [OF sp, of x] by (auto simp: try_split_def split: if_splits)
    next
      case (Inr u)
      with r h show ?thesis using split [OF sp] by (auto simp: try_split_def)
    qed
  next
    case False
    with ws have "wants_split cfg exc ad = Inr False" by simp
    then show ?thesis
      using assms oom fatal transient
      by (auto simp: route_exception_def split: if_splits sum.splits)
  qed
qed

section \<open>The invariant, step by step\<close>

lemma grows_inv: "grows e e1 \<Longrightarrow> loop_inv cfg items ls cur e \<Longrightarrow> loop_inv cfg items ls cur e1"
proof -
  assume "grows e e1" and i: "loop_inv cfg items ls cur e"
  then obtain lm where lm: "e1 = e\<lparr>live_map := lm\<rparr>" "dict_keys (live_map e) \<subseteq> dict_keys lm"
    unfolding grows_def by blast
  moreover have "content_key ` set ls \<subseteq> dict_keys lm"
    by (rule order_trans [OF _ lm(2)]) (use i in \<open>simp add: loop_inv_def keys_inv_def\<close>)
  ultimately have "keys_inv cfg items ls cur e1"
    using i by (simp add: loop_inv_def keys_inv_def pending_def)
  moreover have "count_inv cfg ls cur e1" using i lm(1) by (simp add: loop_inv_def count_inv_def pending_def)
  moreover have "queue_inv cfg e1" using i lm(1) by (simp add: loop_inv_def queue_inv_def)
  ultimately show ?thesis by (simp add: loop_inv_def)
qed

lemma count_failure_inv:
  assumes "loop_inv cfg items ls cur e"
  shows "keys_inv cfg items ls cur (count_failure ad e)" and "count_inv cfg ls cur (count_failure ad e)"
    and "\<forall>(k, n)\<in>set (transient_attempts (count_failure ad e)). 1 \<le> n"
    and "0 \<le> transient_count e ck"
proof -
  show "keys_inv cfg items ls cur (count_failure ad e)" "count_inv cfg ls cur (count_failure ad e)"
    using assms by (simp_all add: loop_inv_def keys_inv_def count_inv_def count_failure_def pending_def)
  have pos: "0 \<le> transient_count e ck" for ck
    using assms by (force simp: loop_inv_def queue_inv_def transient_count_def split: option.splits dest: dict_get_in)
  then show "0 \<le> transient_count e ck" .
  show "\<forall>(k, n)\<in>set (transient_attempts (count_failure ad e)). 1 \<le> n"
    using assms pos [of "content_key ad"]
    by (auto simp: loop_inv_def queue_inv_def count_failure_def dest!: dict_set_values)
qed

lemma transient_count_get:
  "dict_get (transient_attempts (count_failure ad e)) k =
     (if k = content_key ad then Some (transient_count e (content_key ad) + 1) else dict_get (transient_attempts e) k)"
  by (simp add: count_failure_def)

text \<open>A popped item's key is in no queue: what is delayed keeps its own attempt count.\<close>

lemma cur_key_fresh:
  assumes "keys_inv cfg items ls [ad] e" and "x \<in> set (pending e)"
  shows "content_key x \<noteq> content_key ad"
proof
  assume same: "content_key x = content_key ad"
  have sub: "mset (pending e @ [ad]) \<subseteq># mset ls" using assms(1) by (simp add: keys_inv_def)
  then have "image_mset content_key (mset (pending e @ [ad])) \<subseteq># mset (map content_key ls)"
    by (metis image_mset_subseteq_mono mset_map)
  moreover have "{#content_key ad, content_key ad#} \<subseteq># image_mset content_key (mset (pending e @ [ad]))"
    using imageI [OF assms(2), of content_key] same by simp
  ultimately have "{#content_key ad, content_key ad#} \<subseteq># mset (map content_key ls)"
    by (rule subset_mset.trans [rotated])
  from mset_subset_eq_count [OF this, of "content_key ad"]
  have "2 \<le> count (mset (map content_key ls)) (content_key ad)" by simp
  moreover have "count (mset (map content_key ls)) (content_key ad) \<le> 1"
    using assms(1) by (simp add: keys_inv_def distinct_count_atmost_1)
  ultimately show False by simp
qed

lemma requeue_inv:
  assumes "loop_inv cfg items ls [ad] e" and "transient_count e (content_key ad) + 1 < max_attempts (retry cfg)"
  shows "loop_inv cfg items ls [] (requeue ad due (count_failure ad e))"
proof -
  note cf = count_failure_inv(1-3) [OF assms(1), where ad = ad]
  let ?e = "count_failure ad e"
  have same: "delayed ?e = delayed e" "inflight ?e = inflight e" "seq_counter ?e = seq_counter e"
    "attempts_total ?e = attempts_total e" "ready ?e = ready e"
    by (simp_all add: count_failure_def)
  have p: "mset (pending (requeue ad due ?e)) = add_mset ad (mset (pending ?e))"
    by (simp add: pending_def requeue_def heappush_map mset_map [symmetric] del: mset_map)
  have "keys_inv cfg items ls [] (requeue ad due ?e)"
    using cf(1) p by (simp add: keys_inv_def requeue_def)
  moreover have "count_inv cfg ls [] (requeue ad due ?e)"
    using cf(2) by (simp add: count_inv_def requeue_def pending_def heappush_length)
  moreover have "queue_inv cfg (requeue ad due ?e)"
  proof -
    have "\<exists>n. dict_get (transient_attempts ?e) (content_key (snd (snd x))) = Some n \<and> n < max_attempts (retry cfg)"
      if "x \<in> set (heappush (delayed e) (due, seq_counter e, ad))" for x
    proof (cases "snd (snd x) = ad")
      case True
      then show ?thesis using assms(2) by (simp add: transient_count_get)
    next
      case False
      with that have x: "x \<in> set (delayed e)" by (auto simp: heappush_set)
      then have "content_key (snd (snd x)) \<noteq> content_key ad"
        using cur_key_fresh [of cfg items ls ad e "snd (snd x)"] assms(1) by (auto simp: loop_inv_def pending_def)
      then show ?thesis using x assms(1) by (auto simp: transient_count_get loop_inv_def queue_inv_def)
    qed
    moreover have "heap_ok (Suc (seq_counter e)) (heappush (delayed e) (due, seq_counter e, ad))"
      using assms(1) by (intro heappush_ok) (simp add: loop_inv_def queue_inv_def)
    ultimately show ?thesis
      using assms(1) cf(3) by (simp add: loop_inv_def queue_inv_def requeue_def same)
  qed
  ultimately show ?thesis by (simp add: loop_inv_def)
qed

lemma dict_pop_mset:
  "dict_ok d \<Longrightarrow> dict_get d k = Some v \<Longrightarrow> mset d = add_mset (k, v) (mset (dict_pop k d))"
proof (induction d)
  case (Cons x d)
  show ?case
  proof (cases "fst x = k")
    case True
    with Cons.prems have "k \<notin> dict_keys d" "x = (k, v)" by (auto split: if_splits)
    then show ?thesis by (simp add: delete_id)
  next
    case False
    with Cons show ?thesis by (auto split: if_splits)
  qed
qed simp

lemma pop_inflight_inv:
  assumes "loop_inv cfg items ls [] e" and "dict_get (inflight e) f = Some ad"
  shows "loop_inv cfg items ls [ad] (e\<lparr>inflight := dict_pop f (inflight e)\<rparr>)"
proof -
  let ?e = "e\<lparr>inflight := dict_pop f (inflight e)\<rparr>"
  have "mset (inflight e) = add_mset (f, ad) (mset (dict_pop f (inflight e)))"
    using assms by (intro dict_pop_mset) (simp_all add: loop_inv_def queue_inv_def)
  note m = this arg_cong [OF this, of size]
  have p: "mset (pending e) = add_mset ad (mset (pending ?e))"
    using m(1) by (simp add: pending_def)
  have l: "length (pending e) = Suc (length (pending ?e))" "length (inflight e) = Suc (length (dict_pop f (inflight e)))"
    using arg_cong [OF p, of size] m(2) by simp_all
  have "keys_inv cfg items ls [ad] ?e" using assms(1) p by (simp add: loop_inv_def keys_inv_def)
  moreover have "count_inv cfg ls [ad] ?e" using assms(1) l by (simp add: loop_inv_def count_inv_def)
  moreover have "queue_inv cfg ?e" using assms(1) l by (auto simp: loop_inv_def queue_inv_def)
  ultimately show ?thesis by (simp add: loop_inv_def)
qed

lemma committed_inv:
  assumes "loop_inv cfg items ls [ad] e"
  shows "loop_inv cfg items ls [] (e\<lparr>committed := committed e + 1\<rparr>)"
proof -
  have "keys_inv cfg items ls [] (e\<lparr>committed := committed e + 1\<rparr>)"
    using assms subset_mset.order_trans [of "mset (pending e)" "mset (pending e @ [ad])" "mset ls"]
    by (simp add: loop_inv_def keys_inv_def pending_def)
  moreover have "count_inv cfg ls [] (e\<lparr>committed := committed e + 1\<rparr>)"
    using assms by (simp add: loop_inv_def count_inv_def pending_def)
  moreover have "queue_inv cfg (e\<lparr>committed := committed e + 1\<rparr>)"
    using assms by (simp add: loop_inv_def queue_inv_def)
  ultimately show ?thesis by (simp add: loop_inv_def)
qed

lemma fatal_inv: "loop_inv cfg items ls cur e \<Longrightarrow> loop_inv cfg items ls cur (e\<lparr>fatal_exc := x\<rparr>)"
proof -
  have "keys_inv cfg items ls cur (e\<lparr>fatal_exc := x\<rparr>) = keys_inv cfg items ls cur e"
    by (simp add: keys_inv_def pending_def)
  moreover have "count_inv cfg ls cur (e\<lparr>fatal_exc := x\<rparr>) = count_inv cfg ls cur e"
    by (simp add: count_inv_def pending_def)
  moreover have "queue_inv cfg (e\<lparr>fatal_exc := x\<rparr>) = queue_inv cfg e"
    by (simp add: queue_inv_def)
  ultimately show "loop_inv cfg items ls cur e \<Longrightarrow> loop_inv cfg items ls cur (e\<lparr>fatal_exc := x\<rparr>)"
    by (simp add: loop_inv_def)
qed

lemma resumed_inv:
  assumes "loop_inv cfg items ls [] (e\<lparr>ready := ad # rest\<rparr>)"
  shows "loop_inv cfg items ls [] (e\<lparr>resumed := resumed e + 1, ready := rest\<rparr>)"
proof -
  have "keys_inv cfg items ls [] (e\<lparr>resumed := resumed e + 1, ready := rest\<rparr>)"
    using assms subset_mset.order_trans [of "mset (rest @ map (\<lambda>x. snd (snd x)) (delayed e) @ map snd (inflight e))"
        "mset (ad # rest @ map (\<lambda>x. snd (snd x)) (delayed e) @ map snd (inflight e))" "mset ls"]
    by (simp add: loop_inv_def keys_inv_def pending_def)
  moreover have "count_inv cfg ls [] (e\<lparr>resumed := resumed e + 1, ready := rest\<rparr>)"
    using assms by (simp add: loop_inv_def count_inv_def pending_def)
  moreover have "queue_inv cfg (e\<lparr>resumed := resumed e + 1, ready := rest\<rparr>)"
    using assms by (simp add: loop_inv_def queue_inv_def)
  ultimately show ?thesis by (simp add: loop_inv_def)
qed

lemma submitted_inv:
  assumes i: "loop_inv cfg items ls [] (e\<lparr>ready := ad # rest\<rparr>)" and l: "length (inflight e) < max_workers cfg"
  defines "e1 \<equiv> e\<lparr>attempts_total := attempts_total e + 1,
      inflight := dict_set (nat (attempts_total e)) ad (inflight e), ready := rest\<rparr>"
  shows "loop_inv cfg items ls [] e1"
proof -
  have a: "0 \<le> attempts_total e" using i by (simp add: loop_inv_def count_inv_def)
  have "nat (attempts_total e) \<notin> dict_keys (inflight e)"
    using i a by (auto simp: loop_inv_def queue_inv_def)
  then have app: "dict_set (nat (attempts_total e)) ad (inflight e) = inflight e @ [(nat (attempts_total e), ad)]"
    by (rule dict_set_append)
  have e1: "e1 = e\<lparr>attempts_total := attempts_total e + 1,
      inflight := inflight e @ [(nat (attempts_total e), ad)], ready := rest\<rparr>"
    by (simp only: e1_def app)
  have "keys_inv cfg items ls [] e1"
    using i by (simp add: loop_inv_def keys_inv_def pending_def e1)
  moreover have "count_inv cfg ls [] e1"
    using i by (simp add: loop_inv_def count_inv_def pending_def e1)
  moreover have "queue_inv cfg e1"
    using i l a dict_ok_set [of "inflight e" "nat (attempts_total e)" ad]
    by (auto simp: loop_inv_def queue_inv_def e1 app)
  ultimately show ?thesis by (simp add: loop_inv_def)
qed

lemma dispatch_inv:
  assumes "dispatch cfg env rest e w = (Inr (), e1, w1)" and "loop_inv cfg items ls [] (e\<lparr>ready := rest\<rparr>)"
  shows "loop_inv cfg items ls [] e1" and "fatal_exc e1 = fatal_exc e" and "delayed e1 = delayed e"
    and "ready e1 = [] \<or> length (inflight e1) = max_workers cfg"
proof -
  have "loop_inv cfg items ls [] e1 \<and> fatal_exc e1 = fatal_exc e \<and> delayed e1 = delayed e \<and>
    (ready e1 = [] \<or> length (inflight e1) = max_workers cfg)"
    using assms
  proof (induction rest arbitrary: e w)
    case (Cons ad rest)
    show ?case
    proof (cases "length (inflight e) < max_workers cfg")
      case False
      then show ?thesis using Cons.prems by (auto simp: loop_inv_def queue_inv_def)
    next
      case True
      from Cons.prems(1) True obtain hit w2 where h: "store_has env (content_key ad) (payload_hash ad) w = (Inr hit, w2)"
        by (auto split: prod.splits sum.splits)
      show ?thesis
      proof (cases hit)
        case hit: True
        from Cons.IH [of "e\<lparr>resumed := resumed e + 1\<rparr>" w2] Cons.prems True h hit resumed_inv [OF Cons.prems(2)]
        show ?thesis by simp
      next
        case miss: False
        from Cons.prems(1) True h miss obtain w3
          where s: "dispatch cfg env rest (e\<lparr>attempts_total := attempts_total e + 1,
              inflight := dict_set (nat (attempts_total e)) ad (inflight e)\<rparr>) w3 = (Inr (), e1, w1)"
          by (auto simp: Let_def split: prod.splits sum.splits)
        from Cons.IH [OF s] submitted_inv [OF Cons.prems(2) True] show ?thesis by simp
      qed
    qed
  qed auto
  then show "loop_inv cfg items ls [] e1" and "fatal_exc e1 = fatal_exc e" and "delayed e1 = delayed e"
    and "ready e1 = [] \<or> length (inflight e1) = max_workers cfg" by blast+
qed

lemma promote_inv:
  assumes "promote_matured env e w = (e1, w1)" and "loop_inv cfg items ls cur e"
  shows "loop_inv cfg items ls cur e1" and "fatal_exc e1 = fatal_exc e" and "inflight e1 = inflight e"
proof -
  obtain now w2 where m: "monotonic env w = (now, w2)" by fastforce
  obtain ms q where t: "take_matured now (delayed e) = (ms, q)" by fastforce
  from take_matured_split [OF t] obtain p where p: "delayed e = p @ q" "ms = map (\<lambda>x. snd (snd x)) p" by blast
  have e1: "e1 = e\<lparr>delayed := q, ready := ready e @ ms\<rparr>"
    using assms(1) m t by (simp add: promote_matured_def)
  then show "fatal_exc e1 = fatal_exc e" "inflight e1 = inflight e" by simp_all
  have "keys_inv cfg items ls cur e1"
    using assms(2) p by (simp add: loop_inv_def keys_inv_def pending_def e1 ac_simps)
  moreover have "count_inv cfg ls cur e1" using assms(2) p by (simp add: loop_inv_def count_inv_def pending_def e1)
  moreover have "queue_inv cfg e1"
    using assms(2) p take_matured_ok [OF _ t] by (simp add: loop_inv_def queue_inv_def e1 ball_Un)
  ultimately show "loop_inv cfg items ls cur e1" by (simp add: loop_inv_def)
qed

lemma failure_counted_inv:
  assumes "loop_inv cfg items ls [ad] e"
  shows "loop_inv cfg items ls [ad] (count_failure ad e)"
proof -
  note cf = count_failure_inv(1-3) [OF assms, where ad = ad]
  have same: "delayed (count_failure ad e) = delayed e" "inflight (count_failure ad e) = inflight e"
    "seq_counter (count_failure ad e) = seq_counter e" "attempts_total (count_failure ad e) = attempts_total e"
    by (simp_all add: count_failure_def)
  have "dict_get (transient_attempts (count_failure ad e)) (content_key (snd (snd x)))
      = dict_get (transient_attempts e) (content_key (snd (snd x)))" if "x \<in> set (delayed e)" for x
    using cur_key_fresh [of cfg items ls ad e "snd (snd x)"] assms that
    by (auto simp: transient_count_get loop_inv_def pending_def)
  then have "queue_inv cfg (count_failure ad e)"
    using assms cf(3) by (simp add: loop_inv_def queue_inv_def same)
  with cf show ?thesis by (simp add: loop_inv_def)
qed

lemma route_keeps:
  assumes "route_exception cfg env ad exc e w = (Inr r, e1, w1)"
  shows "fatal_exc e1 = fatal_exc e" and "inflight e1 = inflight e"
proof -
  have "fatal_exc e1 = fatal_exc e \<and> inflight e1 = inflight e"
    using assms
  proof (cases rule: route_cases)
    case (split sp)
    from handle_split_Inr [OF split(3)] obtain children cads e2
      where "admit_all cfg children (depth ad + 1) e = (Inr cads, e2)" "e1 = adopt ad cads e2" .
    then show ?thesis using admit_all_Inr by (fastforce simp: adopt_def Let_def enqueue_fold)
  next
    case (split_fails sp x)
    from handle_split_Inl [OF split_fails(3)] show ?thesis by (auto simp: grows_def)
  next
    case transient
    from transient(4) show ?thesis
      by (cases rule: retry_later_cases) (simp_all add: requeue_def count_failure_def)
  qed simp
  then show "fatal_exc e1 = fatal_exc e" and "inflight e1 = inflight e" by simp_all
qed

lemma route_inv:
  assumes "route_exception cfg env ad exc e w = (Inr r, e1, w1)" and i: "loop_inv cfg items ls [ad] e"
  obtains ls1 where "loop_inv cfg items ls1 (case r of None \<Rightarrow> [] | Some x \<Rightarrow> [ad]) e1"
    and "\<forall>x\<in>set ls1. x \<in> set (pending e1 @ (case r of None \<Rightarrow> [] | Some x \<Rightarrow> [ad])) \<or>
           (x \<in> set ls \<and> x \<notin> set (pending e) \<and> x \<noteq> ad)"
  using assms(1)
proof (cases rule: route_cases)
  case (split sp)
  from split_inv [OF split(3,1) i] obtain ls1 where "loop_inv cfg items ls1 [] e1"
    "\<forall>x\<in>set ls1. x \<in> set (pending e1) \<or> (x \<in> set ls \<and> x \<notin> set (pending e) \<and> x \<noteq> ad)" .
  then show ?thesis using that [of ls1] split(4) by simp
next
  case (split_fails sp x)
  note g = handle_split_Inl [OF split_fails(3)]
  then have "pending e1 = pending e" by (auto simp: grows_def pending_def)
  then show ?thesis using grows_inv [OF g i] that [of ls] split_fails by auto
next
  case fatal
  then show ?thesis using that [of ls] i by auto
next
  case transient
  from transient(4) show ?thesis
  proof (cases rule: retry_later_cases)
    case (fatal x)
    then have "pending e1 = pending e" by (simp add: count_failure_def pending_def)
    then show ?thesis using failure_counted_inv [OF i] that [of ls] fatal by auto
  next
    case (requeued due)
    then have "set (pending e1) = insert ad (set (pending e))"
      by (auto simp: requeue_def count_failure_def pending_def heappush_set)
    then show ?thesis using requeue_inv [OF i, of due] that [of ls] requeued by auto
  qed
qed

lemma process_done_inv:
  assumes "process_done cfg env futs e w = (Inr (), e1, w1)" and "engine_ok cfg items e" and "fatal_exc e = None"
  shows "engine_ok cfg items e1"
  using assms
proof (induction futs arbitrary: e w)
  case (Cons f futs)
  from Cons.prems(1) obtain ad where ad: "dict_get (inflight e) f = Some ad"
    by (cases "dict_get (inflight e) f") auto
  let ?e = "e\<lparr>inflight := dict_pop f (inflight e)\<rparr>"
  from Cons.prems(2,3) obtain ls where "loop_inv cfg items ls [] e" by (auto simp: engine_ok_def)
  from pop_inflight_inv [OF this ad] have i: "loop_inv cfg items ls [ad] ?e" .
  show ?case
  proof (cases "fut_result env f w")
    case (Inr r)
    then obtain w2 where "process_done cfg env futs (?e\<lparr>committed := committed ?e + 1\<rparr>) w2 = (Inr (), e1, w1)"
      using Cons.prems(1) ad by (auto simp: Let_def split: prod.splits sum.splits)
    moreover have "engine_ok cfg items (?e\<lparr>committed := committed ?e + 1\<rparr>)"
      using committed_inv [OF i] Cons.prems(3) unfolding engine_ok_def by (intro exI [of _ ls] exI [of _ "[]"]) simp
    ultimately show ?thesis using Cons.IH Cons.prems(3) by simp
  next
    case (Inl exc)
    then obtain q e2 w2 where r: "route_exception cfg env ad exc ?e w = (Inr q, e2, w2)"
        and q: "(Inr (), e1, w1) = (case q of None \<Rightarrow> process_done cfg env futs e2 w2
           | Some x \<Rightarrow> (Inr (), e2\<lparr>fatal_exc := Some x\<rparr>, w2))"
      using Cons.prems(1) ad
      by (cases "is_Exception exc") (auto simp: Let_def split: prod.splits sum.splits option.splits)
    from route_inv [OF r i] obtain ls1
      where i1: "loop_inv cfg items ls1 (case q of None \<Rightarrow> [] | Some x \<Rightarrow> [ad]) e2" by blast
    note k = route_keeps [OF r]
    show ?thesis
    proof (cases q)
      case None
      then have "engine_ok cfg items e2" using i1 k(1) Cons.prems(3) unfolding engine_ok_def
        by (intro exI [of _ ls1] exI [of _ "[]"]) simp
      then show ?thesis using Cons.IH [of e2 w2] q None k(1) Cons.prems(3) by simp
    next
      case (Some x)
      then have "e1 = e2\<lparr>fatal_exc := Some x\<rparr>" using q by simp
      with fatal_inv [OF i1] Some show ?thesis unfolding engine_ok_def
        by (intro exI [of _ ls1] exI [of _ "[ad]"]) simp
    qed
  qed
qed simp

lemma promote_ok: "promote_matured env e w = (e1, w1) \<Longrightarrow> engine_ok cfg items e \<Longrightarrow> engine_ok cfg items e1"
  unfolding engine_ok_def using promote_inv by metis

lemma dispatch_ok:
  assumes "dispatch cfg env (ready e) e w = (Inr (), e1, w1)" and "engine_ok cfg items e" and "fatal_exc e = None"
  shows "engine_ok cfg items e1" and "fatal_exc e1 = None"
proof -
  from assms(2,3) obtain ls where "loop_inv cfg items ls [] (e\<lparr>ready := ready e\<rparr>)" by (auto simp: engine_ok_def)
  note d = dispatch_inv [OF assms(1) this]
  from d(2) assms(3) show "fatal_exc e1 = None" by simp
  with d(1) show "engine_ok cfg items e1" unfolding engine_ok_def
    by (intro exI [of _ ls] exI [of _ "[]"]) simp
qed

lemma iteration_ok:
  assumes "iteration cfg env e w = (Inr (), e1, w1)" and "engine_ok cfg items e" and "fatal_exc e = None"
  shows "engine_ok cfg items e1"
proof -
  from assms(1) obtain e2 w2 where d: "dispatch cfg env (ready e) e w = (Inr (), e2, w2)"
    by (auto simp: iteration_def split: prod.splits sum.splits)
  note ok = dispatch_ok [OF d assms(2,3)]
  from assms(1) d ok(2) consider "await cfg env e2 w2 = (Inr (), e1, w1)" | "doze env e2 w2 = (e1, w1)" | "e1 = e2"
    by (auto simp: iteration_def split: if_splits prod.splits)
  then show ?thesis
  proof cases
    case 1
    then obtain e3 w3 dn w4 where "process_done cfg env dn e2 w4 = (Inr (), e3, w3)" "promote_matured env e3 w3 = (e1, w1)"
      by (auto simp: await_def split: prod.splits sum.splits)
    then show ?thesis using process_done_inv ok promote_ok by metis
  next
    case 2
    then obtain w3 where "promote_matured env e2 w3 = (e1, w1)"
      by (auto simp: doze_def Let_def split: prod.splits)
    then show ?thesis using promote_ok ok(1) by metis
  qed (use ok in simp)
qed

section \<open>The loop as a state machine\<close>

inductive loop_step :: "('p, 'r, 'acc, 'o) config \<Rightarrow> ('p, 'r, 'w) env \<Rightarrow> 'p engine \<times> 'w \<Rightarrow> 'p engine \<times> 'w \<Rightarrow> bool"
  for cfg env where
  "unfinished e \<Longrightarrow> iteration cfg env e w = (Inr (), e1, w1) \<Longrightarrow> loop_step cfg env (e, w) (e1, w1)"

inductive_cases loop_stepE: "loop_step cfg env (e, w) (e1, w1)"
inductive_simps loop_step_iff: "loop_step cfg env (e, w) (e1, w1)"

abbreviation loop_steps :: "('p, 'r, 'acc, 'o) config \<Rightarrow> ('p, 'r, 'w) env \<Rightarrow> 'p engine \<times> 'w \<Rightarrow> 'p engine \<times> 'w \<Rightarrow> bool" where
  "loop_steps cfg env \<equiv> (loop_step cfg env)\<^sup>*\<^sup>*"

definition loop_outcome :: "('p, 'r, 'acc, 'o) config \<Rightarrow> ('p, 'r, 'w) env \<Rightarrow> 'p engine \<Rightarrow> 'w \<Rightarrow>
    unit result \<times> 'p engine \<times> 'w \<Rightarrow> bool" where
  "loop_outcome cfg env e w out \<longleftrightarrow>
     (case out of (r, e1, w1) \<Rightarrow>
        (case r of
           Inr u \<Rightarrow> loop_steps cfg env (e, w) (e1, w1) \<and> \<not> unfinished e1
         | Inl x \<Rightarrow> (\<exists>e0 w0. loop_steps cfg env (e, w) (e0, w0) \<and> unfinished e0 \<and>
                      iteration cfg env e0 w0 = (Inl x, e1, w1))))"

lemma loop_outcome_step:
  "unfinished e \<Longrightarrow> iteration cfg env e w = (Inr u, e2, w2) \<Longrightarrow> loop_outcome cfg env e2 w2 out \<Longrightarrow>
   loop_outcome cfg env e w out"
proof -
  assume "unfinished e" "iteration cfg env e w = (Inr u, e2, w2)"
  then have "loop_step cfg env (e, w) (e2, w2)" by (simp add: loop_step.intros)
  then show "loop_outcome cfg env e2 w2 out \<Longrightarrow> loop_outcome cfg env e w out"
    unfolding loop_outcome_def
    by (auto split: sum.splits) (blast intro: converse_rtranclp_into_rtranclp)+
qed

lemma run_loop_outcome:
  assumes "run_loop cfg env e w = Some out"
  shows "loop_outcome cfg env e w out"
proof (rule run_loop.raw_induct [where P = loop_outcome, OF _ assms], goal_cases)
  case (1 rec cfg env e w out)
  note IH = 1(1) and body = 1(2)
  show "loop_outcome cfg env e w out"
  proof (cases "unfinished e")
    case False
    with body show ?thesis by (auto simp: loop_outcome_def)
  next
    case True
    obtain r e2 w2 where it: "iteration cfg env e w = (r, e2, w2)" by (metis surj_pair)
    show ?thesis
    proof (cases r)
      case (Inl x)
      with body True it have "out = (Inl x, e2, w2)" by simp
      with Inl True it show ?thesis
        unfolding loop_outcome_def by (auto intro!: exI [of _ e] exI [of _ w])
    next
      case (Inr u)
      with body True it have "rec cfg env e2 w2 = Some out" by simp
      from loop_outcome_step [OF True _ IH [OF this]] it Inr show ?thesis by blast
    qed
  qed
qed

lemma loop_steps_ok:
  assumes "loop_steps cfg env (e, w) (e1, w1)" and "engine_ok cfg items e"
  shows "engine_ok cfg items e1"
  using assms(1)
proof (induction rule: rtranclp_induct2)
  case (step e1 w1 e2 w2)
  then show ?case using iteration_ok by (auto simp: unfinished_def elim!: loop_stepE)
qed (rule assms(2))

lemma run_loop_ok:
  assumes "run_loop cfg env e w = Some (Inr (), e1, w1)" and "engine_ok cfg items e"
  shows "engine_ok cfg items e1" and "\<not> unfinished e1"
  using run_loop_outcome [OF assms(1)] loop_steps_ok [OF _ assms(2)] by (auto simp: loop_outcome_def)

end
