(* ===== verification/Engine_Results.thy ===== *)
theory Engine_Results
  imports Engine_Inv
begin

text \<open>
  What a run returns. \<open>result_store\<close> is what the engine relies on in a store, through the
  results \<open>served\<close> for a key in a world that is \<open>ok\<close>: a successful load returns them, a hit has
  one, a successful commit of a worker's result adds one and touches no other key, and nothing
  else the engine does changes what is served. Inside the locale: after the loop every leaf is
  served, and the output is the fold of exactly the leaves' results in key order.
\<close>

section \<open>Folding results\<close>

fun fold_pure :: "('acc \<Rightarrow> 'r \<Rightarrow> 'acc result) \<Rightarrow> 'acc \<Rightarrow> 'r list \<Rightarrow> 'acc result" where
  "fold_pure f acc [] = Inr acc"
| "fold_pure f acc (r # rs) = (case f acc r of Inl x \<Rightarrow> Inl x | Inr acc' \<Rightarrow> fold_pure f acc' rs)"

definition outcome_of :: "('p, 'r, 'acc, 'o) config \<Rightarrow> 'r list \<Rightarrow> 'o result" where
  \<comment> \<open>the output the results have, in either mode\<close>
  "outcome_of cfg rs =
     (case combine cfg of
        Some c \<Rightarrow> c rs
      | None \<Rightarrow>
          (case fold_pure (the (reduce cfg)) (initial cfg) rs of
             Inl x \<Rightarrow> Inl x
           | Inr acc \<Rightarrow> the (finalize cfg) acc))"

fun load_seq :: "('k \<Rightarrow> ('w, 'r) io) \<Rightarrow> 'k list \<Rightarrow> ('w, 'r list) io" where
  "load_seq ld [] w = (Inr [], w)"
| "load_seq ld (k # ks) w =
     (case ld k w of
        (Inl x, w1) \<Rightarrow> (Inl x, w1)
      | (Inr r, w1) \<Rightarrow> (case load_seq ld ks w1 of (Inl x, w2) \<Rightarrow> (Inl x, w2) | (Inr rs, w2) \<Rightarrow> (Inr (r # rs), w2)))"

section \<open>What the engine relies on\<close>

definition leaf_map :: "'p admitted list \<Rightarrow> (string, string) dict" where
  "leaf_map ls = sort (map (\<lambda>ad. (content_key ad, payload_hash ad)) ls)"

lemma expected_map_leaves:
  assumes "keys_inv cfg items ls [] e"
  shows "expected_map e = Inr (leaf_map ls)"
proof -
  let ?ks = "sorted_list_of_set (terminal_keys e)" and ?h = "\<lambda>k. the (dict_get (terminal_hash e) k)"
  have keys: "terminal_keys e = set (map content_key ls)" and d: "distinct (map content_key ls)"
    and h: "\<And>ad. ad \<in> set ls \<Longrightarrow> dict_get (terminal_hash e) (content_key ad) = Some (payload_hash ad)"
    using assms by (simp_all add: keys_inv_def)
  have some: "\<forall>k\<in>set ?ks. dict_get (terminal_hash e) k \<noteq> None"
    using keys h by (auto simp: assms)
  have "sorted (map (\<lambda>k. (k, ?h k)) ks)" if "sorted ks" "distinct ks" for ks
    using that by (induction ks) (auto simp: less_eq_prod_def order_less_le)
  then have s: "sorted (map (\<lambda>k. (k, ?h k)) ?ks)" by simp
  have "mset ?ks = mset (map content_key ls)"
    using keys d by (metis distinct_sorted_list_of_set finite_set set_eq_iff_mset_eq_distinct set_sorted_list_of_set)
  then have "mset (map (\<lambda>k. (k, ?h k)) ?ks) = mset (map (\<lambda>k. (k, ?h k)) (map content_key ls))"
    by (simp only: mset_map)
  also have "map (\<lambda>k. (k, ?h k)) (map content_key ls) = map (\<lambda>ad. (content_key ad, payload_hash ad)) ls"
    using h by simp
  finally have "map (\<lambda>k. (k, ?h k)) ?ks = leaf_map ls"
    unfolding leaf_map_def using s by (metis properties_for_sort)
  then show ?thesis using some by (simp add: expected_map_def)
qed

lemma leaf_map_sorted: "sort (leaf_map ls) = leaf_map ls"
  by (simp add: leaf_map_def sorted_sort_id)

definition unmoved :: "('w \<Rightarrow> bool) \<Rightarrow> ('w \<Rightarrow> 'k) \<Rightarrow> 'w \<Rightarrow> 'w \<Rightarrow> bool" where
  \<comment> \<open>nothing a reader of the store could tell apart\<close>
  "unmoved ok served w w' \<longleftrightarrow> served w' = served w \<and> (ok w \<longrightarrow> ok w')"

locale result_store =
  fixes env :: "('p, 'r, 'w) env"
    and ld :: "string \<times> string \<Rightarrow> ('w, 'r) io"
    and served :: "'w \<Rightarrow> string \<Rightarrow> (string \<times> 'r) option"
    and ok :: "'w \<Rightarrow> bool"
    and hash_ok :: "string \<Rightarrow> bool"
  assumes load_all: "store_load_all env d = load_seq ld (sort d)"
    and iter: "store_iter env d = map ld (sort d)"
    and load_served: "ld (k, h) w = (Inr r, w') \<Longrightarrow> served w k = Some (h, r)"
    and load_keeps: "ld kh w = (q, w') \<Longrightarrow> unmoved ok served w w'"
    and has_served: "store_has env k h w = (Inr True, w') \<Longrightarrow> \<exists>r. served w k = Some (h, r)"
    and has_keeps: "store_has env k h w = (b, w') \<Longrightarrow> unmoved ok served w w'"
    and commit_served: "ok w \<Longrightarrow> hash_ok h \<Longrightarrow> fut_result env f w = Inr r \<Longrightarrow>
      store_commit env k h r w = (Inr (), w') \<Longrightarrow>
      ok w' \<and> (\<exists>r'. served w' k = Some (h, r')) \<and> (\<forall>j. j \<noteq> k \<longrightarrow> served w' j = served w j)"
    and world_keeps: "monotonic env w = (t, w') \<Longrightarrow> unmoved ok served w w'"
      "unmoved ok served w (sleep env s w)"
      "uniform env lo hi w = (u, w') \<Longrightarrow> unmoved ok served w w'"
      "pool_submit env f p w = (ru, w') \<Longrightarrow> unmoved ok served w w'"
      "pool_wait env fs tm w = (dn, w') \<Longrightarrow> unmoved ok served w w'"
      "unmoved ok served w (pool_shutdown env w)"
      "td \<in> set (teardowns env v) \<Longrightarrow> td w = (tq, w') \<Longrightarrow> unmoved ok served w w'"
begin

lemma unmoved_trans: "unmoved ok served a b \<Longrightarrow> unmoved ok served b c \<Longrightarrow> unmoved ok served a c"
  by (simp add: unmoved_def)

lemma unmoved_refl [simp]: "unmoved ok served w w"
  by (simp add: unmoved_def)

lemma unmoved_served: "unmoved ok served w w' \<Longrightarrow> served w' = served w"
  by (simp add: unmoved_def)

lemma load_seq_served:
  "load_seq ld khs w = (Inr rs, w') \<Longrightarrow>
     list_all2 (\<lambda>kh r. served w (fst kh) = Some (snd kh, r)) khs rs \<and> served w' = served w"
proof (induction khs arbitrary: w rs)
  case (Cons kh khs)
  then obtain r w1 rs1 where l: "ld kh w = (Inr r, w1)" "load_seq ld khs w1 = (Inr rs1, w')" "rs = r # rs1"
    by (auto split: prod.splits sum.splits)
  show ?case
    using Cons.IH [OF l(2)] load_served [of "fst kh" "snd kh" w r w1] unmoved_served [OF load_keeps [OF l(1)]] l by simp
qed simp

lemma fold_results_served:
  "fold_results f acc (map ld khs) w = (Inr acc', w') \<Longrightarrow>
     \<exists>rs. list_all2 (\<lambda>kh r. served w (fst kh) = Some (snd kh, r)) khs rs \<and> fold_pure f acc rs = Inr acc'"
proof (induction khs arbitrary: w acc)
  case (Cons kh khs)
  then obtain r w1 acc1 where l: "ld kh w = (Inr r, w1)" "f acc r = Inr acc1"
      "fold_results f acc1 (map ld khs) w1 = (Inr acc', w')"
    by (auto split: prod.splits sum.splits)
  from Cons.IH [OF l(3)] obtain rs where "list_all2 (\<lambda>kh r. served w1 (fst kh) = Some (snd kh, r)) khs rs"
    "fold_pure f acc1 rs = Inr acc'" by blast
  then show ?case
    using load_served [of "fst kh" "snd kh" w r w1] unmoved_served [OF load_keeps [OF l(1)]] l(1,2)
    by (intro exI [of _ "r # rs"]) simp
qed simp

lemma stitch_served:
  assumes "stitch cfg env d w = (Inr out, w')"
  shows "\<exists>rs. list_all2 (\<lambda>kh r. served w (fst kh) = Some (snd kh, r)) (sort d) rs \<and> outcome_of cfg rs = Inr out"
proof (cases "combine cfg")
  case (Some c)
  with assms obtain rs w1 where "load_seq ld (sort d) w = (Inr rs, w1)" "c rs = Inr out"
    by (auto simp: stitch_def load_all split: prod.splits sum.splits)
  with load_seq_served [OF this(1)] Some show ?thesis by (auto simp: outcome_of_def)
next
  case None
  with assms obtain f g acc w1 where m: "reduce cfg = Some f" "finalize cfg = Some g"
      "fold_results f (initial cfg) (map ld (sort d)) w = (Inr acc, w1)" "g acc = Inr out"
    by (auto simp: stitch_def iter split: prod.splits sum.splits option.splits)
  from fold_results_served [OF m(3)] m show ?thesis by (auto simp: outcome_of_def None)
qed

text \<open>The two combine modes agree, when every load succeeds.\<close>

lemma load_seq_fold:
  "load_seq ld khs w = (Inr rs, w') \<Longrightarrow> fst (fold_results f acc (map ld khs) w) = fold_pure f acc rs"
proof (induction khs arbitrary: w rs acc)
  case (Cons kh khs)
  then obtain r w1 rs1 where l: "ld kh w = (Inr r, w1)" "load_seq ld khs w1 = (Inr rs1, w')" "rs = r # rs1"
    by (auto split: prod.splits sum.splits)
  then show ?case using Cons.IH [OF l(2)] by (simp split: sum.split)
qed simp

section \<open>Every leaf ends up served\<close>

definition leaves_served :: "'p admitted list \<Rightarrow> 'p admitted list \<Rightarrow> 'w \<Rightarrow> bool" where
  "leaves_served ls open_ads w \<longleftrightarrow>
     (\<forall>ad\<in>set ls. ad \<in> set open_ads \<or> (\<exists>r. served w (content_key ad) = Some (payload_hash ad, r)))"

definition hashes_ok :: "('p, 'r, 'acc, 'o) config \<Rightarrow> bool" where
  "hashes_ok cfg \<longleftrightarrow> (\<forall>p ck ph. content_key_fn cfg p = Inr (ck, ph) \<longrightarrow> hash_ok ph)"

definition served_ok :: "('p, 'r, 'acc, 'o) config \<Rightarrow> 'p checkpoint_item list \<Rightarrow> 'p engine \<Rightarrow> 'w \<Rightarrow> bool" where
  "served_ok cfg items e w \<longleftrightarrow> ok w \<and>
     (\<exists>ls cur. loop_inv cfg items ls cur e \<and> length cur = (if fatal_exc e = None then 0 else 1) \<and>
        leaves_served ls (pending e @ cur) w)"

lemma leaves_servedI:
  "ok w \<Longrightarrow> loop_inv cfg items ls [] e \<Longrightarrow> fatal_exc e = None \<Longrightarrow> leaves_served ls (pending e) w \<Longrightarrow> served_ok cfg items e w"
  unfolding served_ok_def by (intro conjI exI [of _ ls] exI [of _ "[]"]) simp_all

lemma leaves_servedE:
  assumes "served_ok cfg items e w" and "fatal_exc e = None"
  obtains ls where "loop_inv cfg items ls [] e" and "leaves_served ls (pending e) w" and "ok w"
  using assms by (auto simp: served_ok_def)

lemma leaves_served_keeps: "unmoved ok served w w' \<Longrightarrow> leaves_served ls ads w' = leaves_served ls ads w"
  by (simp add: leaves_served_def unmoved_def)

lemma leaves_served_mono: "leaves_served ls ads w \<Longrightarrow> set ads \<subseteq> set ads' \<Longrightarrow> leaves_served ls ads' w"
  by (auto simp: leaves_served_def)

lemma leaves_served_done:
  "leaves_served ls (ad # ads) w \<Longrightarrow> \<exists>r. served w (content_key ad) = Some (payload_hash ad, r) \<Longrightarrow>
   leaves_served ls ads w"
  by (auto simp: leaves_served_def)

lemma dispatch_unmoved:
  "dispatch cfg env rest e w = (Inr (), e1, w1) \<Longrightarrow> unmoved ok served w w1"
proof (induction rest arbitrary: e w)
  case (Cons ad rest)
  show ?case
  proof (cases "length (inflight e) < max_workers cfg")
    case True
    with Cons.prems obtain hit w2 where h: "store_has env (content_key ad) (payload_hash ad) w = (Inr hit, w2)"
      by (auto split: prod.splits sum.splits)
    note u = has_keeps [OF h]
    show ?thesis
    proof (cases hit)
      case True
      then show ?thesis
        using Cons.IH Cons.prems \<open>length (inflight e) < max_workers cfg\<close> h unmoved_trans [OF u] by simp
    next
      case False
      with Cons.prems True h obtain v e2 w3 where "dispatch cfg env rest e2 w3 = (Inr (), e1, w1)"
          "pool_submit env (nat (attempts_total e)) (payload (item ad)) w2 = (Inr v, w3)"
        by (auto simp: Let_def split: prod.splits sum.splits)
      then show ?thesis using Cons.IH world_keeps(4) unmoved_trans u by blast
    qed
  qed (use Cons.prems in auto)
qed simp

lemma dispatch_served:
  assumes "dispatch cfg env rest e w = (Inr (), e1, w1)"
    and "leaves_served ls (pending (e\<lparr>ready := rest\<rparr>)) w" and "loop_inv cfg items ls [] (e\<lparr>ready := rest\<rparr>)"
  shows "leaves_served ls (pending e1) w1"
  using assms
proof (induction rest arbitrary: e w)
  case (Cons ad rest)
  show ?case
  proof (cases "length (inflight e) < max_workers cfg")
    case False
    then show ?thesis using Cons.prems by auto
  next
    case True
    from Cons.prems(1) True obtain hit w2 where h: "store_has env (content_key ad) (payload_hash ad) w = (Inr hit, w2)"
      by (auto split: prod.splits sum.splits)
    note keep = leaves_served_keeps [OF has_keeps [OF h]]
    show ?thesis
    proof (cases hit)
      case hit: True
      let ?e = "e\<lparr>resumed := resumed e + 1\<rparr>"
      have "\<exists>r. served w2 (content_key ad) = Some (payload_hash ad, r)"
        using has_served h hit unmoved_served [OF has_keeps [OF h]] by simp
      moreover have "leaves_served ls (ad # pending (?e\<lparr>ready := rest\<rparr>)) w2"
        using Cons.prems(2) by (simp add: keep pending_def)
      ultimately have "leaves_served ls (pending (?e\<lparr>ready := rest\<rparr>)) w2"
        by (rule leaves_served_done [rotated])
      then show ?thesis
        using Cons.IH [of ?e w2] Cons.prems(1) True h hit resumed_inv [OF Cons.prems(3)] by simp
    next
      case miss: False
      let ?f = "nat (attempts_total e)"
      let ?e = "e\<lparr>attempts_total := attempts_total e + 1, inflight := dict_set ?f ad (inflight e)\<rparr>"
      from Cons.prems(1) True h miss obtain u w3 where s: "dispatch cfg env rest ?e w3 = (Inr (), e1, w1)"
          and w3: "pool_submit env ?f (payload (item ad)) w2 = (Inr u, w3)"
        by (auto simp: Let_def split: prod.splits sum.splits)
      have "0 \<le> attempts_total e" using Cons.prems(3) by (simp add: loop_inv_def count_inv_def)
      then have f: "?f \<notin> dict_keys (inflight e)"
        using Cons.prems(3) by (auto simp: loop_inv_def queue_inv_def)
      have "served w3 = served w2" using unmoved_served [OF world_keeps(4) [OF w3]] .
      moreover have "set (pending (?e\<lparr>ready := rest\<rparr>)) = set (pending (e\<lparr>ready := ad # rest\<rparr>))"
        by (auto simp: pending_def dict_set_append [OF f])
      ultimately have "leaves_served ls (pending (?e\<lparr>ready := rest\<rparr>)) w3"
        using Cons.prems(2) keep by (simp add: leaves_served_def)
      then show ?thesis
        using Cons.IH [OF s] submitted_inv [OF Cons.prems(3) True] by simp
    qed
  qed
qed simp

lemma promote_served:
  assumes "promote_matured env e w = (e1, w1)" and "served_ok cfg items e w"
  shows "served_ok cfg items e1 w1"
proof -
  from assms(2) obtain ls cur where s: "loop_inv cfg items ls cur e"
      "length cur = (if fatal_exc e = None then 0 else 1)" "leaves_served ls (pending e @ cur) w" "ok w"
    by (auto simp: served_ok_def)
  note p = promote_inv [OF assms(1) s(1)]
  have u: "unmoved ok served w w1"
    using assms(1) world_keeps(1) by (auto simp: promote_matured_def split: prod.splits)
  then have "served w1 = served w" by (rule unmoved_served)
  moreover have "set (pending e1) = set (pending e)"
  proof -
    obtain t w2 where m: "monotonic env w = (t, w2)" by fastforce
    obtain ms q where tm: "take_matured t (delayed e) = (ms, q)" by fastforce
    from take_matured_split [OF tm] obtain p where p: "delayed e = p @ q" "ms = map (\<lambda>x. snd (snd x)) p" by blast
    have "e1 = e\<lparr>delayed := q, ready := ready e @ ms\<rparr>" using assms(1) m tm by (simp add: promote_matured_def)
    then show ?thesis by (simp add: pending_def p image_Un Un_ac)
  qed
  ultimately have "leaves_served ls (pending e1 @ cur) w1"
    using s(3) by (simp add: leaves_served_def)
  with p s(2,4) u show ?thesis unfolding served_ok_def
    by (intro conjI exI [of _ ls] exI [of _ cur]) (simp_all add: unmoved_def)
qed

lemma route_world:
  assumes "route_exception cfg env ad exc e w = (Inr r, e1, w1)"
  shows "unmoved ok served w w1"
  using assms
proof (cases rule: route_cases)
  case transient
  have b: "backoff_delay env p n v = (x, v') \<Longrightarrow> unmoved ok served v v'" for p n v x v'
    using world_keeps(3) by (auto simp: backoff_delay_def Let_def split: sum.splits prod.splits if_splits)
  from transient(4) consider "w1 = w" | x v y where "backoff_delay env (retry cfg) y w = (x, v)" "v = w1"
    | x v y t where "backoff_delay env (retry cfg) y w = (x, v)" "monotonic env v = (t, w1)"
    by (auto simp: retry_later_def Let_def split: if_splits sum.splits prod.splits option.splits)
  then show ?thesis using b world_keeps(1) unmoved_trans unmoved_refl by cases metis+
qed simp_all

lemma process_done_served:
  assumes "hashes_ok cfg" and "process_done cfg env futs e w = (Inr (), e1, w1)" and "served_ok cfg items e w"
    and "fatal_exc e = None"
  shows "served_ok cfg items e1 w1"
  using assms(2-)
proof (induction futs arbitrary: e w)
  case (Cons f futs)
  from Cons.prems(1) obtain ad where ad: "dict_get (inflight e) f = Some ad"
    by (cases "dict_get (inflight e) f") auto
  let ?e = "e\<lparr>inflight := dict_pop f (inflight e)\<rparr>"
  from leaves_servedE [OF Cons.prems(2,3)] obtain ls
    where li: "loop_inv cfg items ls [] e" and lv: "leaves_served ls (pending e) w" and okw: "ok w" .
  from pop_inflight_inv [OF li ad] have i: "loop_inv cfg items ls [ad] ?e" .
  have "mset (inflight e) = add_mset (f, ad) (mset (dict_pop f (inflight e)))"
    using li ad by (intro dict_pop_mset) (simp_all add: loop_inv_def queue_inv_def)
  then have "set (inflight e) = insert (f, ad) (set (dict_pop f (inflight e)))"
    by (metis set_mset_add_mset_insert set_mset_mset)
  then have s: "snd ` set (inflight e) = insert ad (snd ` set (dict_pop f (inflight e)))"
    by (metis image_insert snd_conv)
  have "pending ?e = ready e @ map (\<lambda>x. snd (snd x)) (delayed e) @ map snd (dict_pop f (inflight e))"
    by (simp add: pending_def)
  then have "set (pending e) = insert ad (set (pending ?e))"
    unfolding pending_def [of e] by (simp add: s)
  then have lv1: "leaves_served ls (ad # pending ?e) w" using lv by (simp add: leaves_served_def)
  show ?case
  proof (cases "fut_result env f w")
    case (Inr r)
    let ?c = "?e\<lparr>committed := committed ?e + 1\<rparr>"
    from Cons.prems(1) ad Inr obtain w2 where c: "store_commit env (content_key ad) (payload_hash ad) r w = (Inr (), w2)"
        and p: "process_done cfg env futs ?c w2 = (Inr (), e1, w1)"
      by (auto simp: Let_def split: prod.splits sum.splits)
    have ad_in: "ad \<in> set ls" using i by (auto simp: loop_inv_def keys_inv_def dest: mset_subset_eqD)
    have "hash_ok (payload_hash ad)"
    proof -
      have "frontier cfg items ls" using i by (simp add: loop_inv_def keys_inv_def)
      from frontier_leaf(1) [OF this ad_in] assms(1) show ?thesis unfolding hashes_ok_def by blast
    qed
    note cs = commit_served [OF okw this Inr c]
    have "leaves_served ls (pending ?e) w2"
      unfolding leaves_served_def
    proof
      fix x assume x: "x \<in> set ls"
      show "x \<in> set (pending ?e) \<or> (\<exists>r. served w2 (content_key x) = Some (payload_hash x, r))"
      proof (cases "x = ad")
        case True
        then show ?thesis using cs by simp
      next
        case False
        have "content_key x \<noteq> content_key ad"
          using i x False ad_in by (auto simp: loop_inv_def keys_inv_def distinct_map inj_on_eq_iff)
        then show ?thesis using lv1 x False cs by (auto simp: leaves_served_def)
      qed
    qed
    then have "leaves_served ls (pending ?c) w2" by (simp add: pending_def)
    from leaves_servedI [OF _ committed_inv [OF i] _ this] cs Cons.IH [OF p] Cons.prems(3) show ?thesis by simp
  next
    case (Inl exc)
    then obtain q e2 w2 where r: "route_exception cfg env ad exc ?e w = (Inr q, e2, w2)"
        and q: "(Inr (), e1, w1) = (case q of None \<Rightarrow> process_done cfg env futs e2 w2
           | Some x \<Rightarrow> (Inr (), e2\<lparr>fatal_exc := Some x\<rparr>, w2))"
      using Cons.prems(1) ad
      by (cases "is_Exception exc") (auto simp: Let_def split: prod.splits sum.splits option.splits)
    let ?cur = "case q of None \<Rightarrow> [] | Some x \<Rightarrow> [ad]"
    from route_inv [OF r i] obtain ls1 where i1: "loop_inv cfg items ls1 ?cur e2"
      and new: "\<forall>x\<in>set ls1. x \<in> set (pending e2 @ ?cur) \<or> (x \<in> set ls \<and> x \<notin> set (pending ?e) \<and> x \<noteq> ad)" .
    have lv2: "leaves_served ls1 (pending e2 @ ?cur) w2"
      using new lv1 unmoved_served [OF route_world [OF r]] unfolding leaves_served_def by fastforce
    note k = route_keeps [OF r]
    have ok2: "ok w2" using route_world [OF r] okw by (simp add: unmoved_def)
    show ?thesis
    proof (cases q)
      case None
      then show ?thesis
        using leaves_servedI [of w2 cfg items ls1 e2] ok2 i1 lv2 k(1) Cons.prems(3) Cons.IH [of e2 w2] q by simp
    next
      case (Some x)
      then have e1: "e1 = e2\<lparr>fatal_exc := Some x\<rparr>" "w1 = w2" using q by simp_all
      have "pending e1 = pending e2" by (simp add: e1 pending_def)
      with fatal_inv [OF i1, of "Some x"] lv2 Some e1 ok2 show ?thesis unfolding served_ok_def
        by (intro conjI exI [of _ ls1] exI [of _ "[ad]"]) simp_all
    qed
  qed
qed simp

lemma iteration_served:
  assumes "hashes_ok cfg" and "iteration cfg env e w = (Inr (), e1, w1)" and "served_ok cfg items e w"
    and "fatal_exc e = None"
  shows "served_ok cfg items e1 w1"
proof -
  from leaves_servedE [OF assms(3,4)] obtain ls
    where li: "loop_inv cfg items ls [] e" and lv: "leaves_served ls (pending e) w" and okw: "ok w" .
  from assms(2) obtain e2 w2 where d: "dispatch cfg env (ready e) e w = (Inr (), e2, w2)"
    by (auto simp: iteration_def split: prod.splits sum.splits)
  have li': "loop_inv cfg items ls [] (e\<lparr>ready := ready e\<rparr>)" using li by simp
  note di = dispatch_inv [OF d li']
  have f2: "fatal_exc e2 = None" using di(2) assms(4) by simp
  have ok2: "served_ok cfg items e2 w2"
    using leaves_servedI [OF _ di(1) f2] dispatch_served [OF d _ li'] dispatch_unmoved [OF d] okw lv
    by (simp add: unmoved_def)
  have same: "served_ok cfg items e2 v" if "unmoved ok served w2 v" for v
    using ok2 that leaves_served_keeps [OF that] by (simp add: served_ok_def unmoved_def)
  have wt: "wait_timeout env e2 w2 = (tm, v) \<Longrightarrow> unmoved ok served w2 v" for tm v
    using world_keeps(1) by (auto simp: wait_timeout_def split: list.splits prod.splits)
  have "iteration cfg env e w =
      (if inflight e2 \<noteq> [] then await cfg env e2 w2
       else if delayed e2 \<noteq> [] then (case doze env e2 w2 of (e3, w3) \<Rightarrow> (Inr (), e3, w3)) else (Inr (), e2, w2))"
    using d f2 by (simp add: iteration_def)
  then have run: "(if inflight e2 \<noteq> [] then await cfg env e2 w2
       else if delayed e2 \<noteq> [] then (case doze env e2 w2 of (e3, w3) \<Rightarrow> (Inr (), e3, w3)) else (Inr (), e2, w2))
      = (Inr (), e1, w1)"
    using assms(2) by (rule trans [OF sym])
  show ?thesis
  proof (cases "inflight e2 = []")
    case False
    then have 1: "await cfg env e2 w2 = (Inr (), e1, w1)" using run by (simp only: if_True not_False_eq_True)
    obtain tm v where a1: "wait_timeout env e2 w2 = (tm, v)" by fastforce
    obtain dn v2 where a2: "pool_wait env (map fst (inflight e2)) tm v = (dn, v2)" by fastforce
    from 1 a1 a2 obtain e3 w3 where "process_done cfg env dn e2 v2 = (Inr (), e3, w3)"
        "promote_matured env e3 w3 = (e1, w1)"
      by (auto simp: await_def split: prod.splits sum.splits)
    note a = a1 a2 this
    have "unmoved ok served w2 v2" using unmoved_trans [OF wt [OF a(1)] world_keeps(5) [OF a(2)]] .
    from process_done_served [OF assms(1) a(3) same [OF this] f2] promote_served [OF a(4)] show ?thesis by blast
  next
    case none: True
    show ?thesis
    proof (cases "delayed e2 = []")
      case True
      then have "e1 = e2 \<and> w1 = w2" using run none by simp
      then show ?thesis using ok2 by simp
    next
      case False
      then have 2: "doze env e2 w2 = (e1, w1)" using run none by (simp split: prod.splits)
      obtain tm v where a: "wait_timeout env e2 w2 = (tm, v)" by fastforce
      let ?d = "case tm of None \<Rightarrow> 0 | Some t \<Rightarrow> t"
      let ?v2 = "if ?d > 0 then sleep env ?d v else v"
      have "promote_matured env e2 ?v2 = (e1, w1)" using 2 a by (simp add: doze_def Let_def)
      moreover have "unmoved ok served w2 ?v2" using wt [OF a] unmoved_trans [OF wt [OF a] world_keeps(2)] by simp
      ultimately show ?thesis using promote_served same by blast
    qed
  qed
qed

lemma loop_served:
  assumes "hashes_ok cfg" and "loop_steps cfg env (e, w) (e1, w1)" and "served_ok cfg items e w"
  shows "served_ok cfg items e1 w1"
  using assms(2)
proof (induction rule: rtranclp_induct2)
  case (step e1 w1 e2 w2)
  then show ?case using iteration_served [OF assms(1)] by (auto simp: unfinished_def elim!: loop_stepE)
qed (rule assms(3))

lemma roots_counts:
  "admit_roots cfg its e = (Inr (), e1) \<Longrightarrow> resumed e1 = resumed e \<and> committed e1 = committed e"
proof (induction its arbitrary: e)
  case (Cons it its)
  then obtain ad e2 where a: "admit cfg it 0 e = (Inr ad, e2)"
    and r: "admit_roots cfg its (enqueue_terminal ad e2) = (Inr (), e1)"
    by (auto split: prod.splits sum.splits)
  from a have "resumed e2 = resumed e" "committed e2 = committed e" unfolding admit_Inr by simp_all
  with Cons.IH [OF r] show ?case by (simp add: enqueue_terminal_def)
qed simp

lemma roots_served:
  assumes "admit_roots cfg items initial_engine = (Inr (), e)" and "ok w"
  shows "served_ok cfg items e w"
proof -
  from admit_roots_inv [OF assms(1) initial_inv] obtain ls where i: "loop_inv cfg items ls [] e" and f: "fatal_exc e = None"
    by (auto simp: initial_engine_def)
  have "length ls = length (pending e)" "mset (pending e) \<subseteq># mset ls"
    using i roots_counts [OF assms(1)] by (simp_all add: loop_inv_def count_inv_def keys_inv_def initial_engine_def)
  then have "mset (pending e) = mset ls"
    by (metis size_mset subset_mset.le_imp_less_or_eq mset_subset_size order_less_irrefl)
  then have "set (pending e) = set ls" by (metis set_mset_mset)
  then have "leaves_served ls (pending e) w" by (simp add: leaves_served_def)
  with leaves_servedI [OF assms(2) i f] show ?thesis by blast
qed

section \<open>A run that returns\<close>

lemma finally_served:
  assumes "finally_block env w = (Inr (), w')"
  shows "unmoved ok served w w'"
proof -
  have "set ts \<subseteq> set (teardowns env v) \<Longrightarrow> run_teardowns ts u = (Inr (), u') \<Longrightarrow> unmoved ok served u u'" for ts v u u'
  proof (induction ts arbitrary: u)
    case (Cons t ts)
    obtain q u1 where q: "t u = (q, u1)" by fastforce
    then have "run_teardowns ts u1 = (Inr (), u')" using Cons.prems(2) by (auto split: sum.splits if_splits)
    with Cons.IH Cons.prems(1) have "unmoved ok served u1 u'" by simp
    moreover have "unmoved ok served u u1"
      using world_keeps(7) [where td = t and v = v] q Cons.prems(1) by (metis insert_subset list.set(2))
    ultimately show ?case using unmoved_trans by blast
  qed simp
  from this [of "teardowns env (pool_shutdown env w)" "pool_shutdown env w" "pool_shutdown env w" w']
  show ?thesis using assms unmoved_trans [OF world_keeps(6) [of w]] by (simp add: finally_block_def Let_def)
qed

lemma run_parts:
  assumes "run_checkpointed cfg env items w = Some (Inr res, w')"
  obtains e0 e1 w1 w2 where "admit_roots cfg items initial_engine = (Inr (), e0)"
    and "run_loop cfg env e0 w = Some (Inr (), e1, w1)" and "fatal_exc e1 = None"
    and "finally_block env w1 = (Inr (), w2)" and "conclude cfg env e1 w2 = (Inr res, w')"
proof -
  from assms obtain e0 where r: "admit_roots cfg items initial_engine = (Inr (), e0)"
    by (auto simp: run_checkpointed_def split: sum.splits prod.splits)
  with assms obtain q e1 w1 where l: "run_loop cfg env e0 w = Some (q, e1, w1)"
    by (auto simp: run_checkpointed_def Let_def split: sum.splits option.splits)
  let ?w2 = "case q of Inl x \<Rightarrow> w1 | Inr u \<Rightarrow> if fatal_exc e1 = None then w1 else cancel_inflight env e1 w1"
  obtain f w3 where fb: "finally_block env ?w2 = (f, w3)" by fastforce
  from assms r l fb have c: "f = Inr ()" "q = Inr ()" "conclude cfg env e1 w3 = (Inr res, w')"
    by (auto simp: run_checkpointed_def Let_def split: sum.splits)
  then have fa: "fatal_exc e1 = None" by (auto simp: conclude_def split: option.splits)
  with c r l fb that show ?thesis by simp
qed

lemma run_success:
  assumes "run_checkpointed cfg env items w = Some (Inr res, w')" and "hashes_ok cfg" and "ok w"
  shows "\<exists>ls rs e0 e1 w1 w2. admit_roots cfg items initial_engine = (Inr (), e0) \<and>
     loop_steps cfg env (e0, w) (e1, w1) \<and> finally_block env w1 = (Inr (), w2) \<and>
     frontier cfg items ls \<and> distinct (map content_key ls) \<and>
     list_all2 (\<lambda>kh r. served w2 (fst kh) = Some (snd kh, r)) (leaf_map ls) rs \<and>
     outcome_of cfg rs = Inr (frame res) \<and>
     attempts res = committed_keys res + transient_retries res + splits res \<and>
     resumed_keys res + committed_keys res = int (length ls)"
proof -
  from run_parts [OF assms(1)] obtain e0 e1 w1 w2 where r: "admit_roots cfg items initial_engine = (Inr (), e0)"
      "run_loop cfg env e0 w = Some (Inr (), e1, w1)" "fatal_exc e1 = None"
      "finally_block env w1 = (Inr (), w2)" "conclude cfg env e1 w2 = (Inr res, w')" .
  from run_loop_outcome [OF r(2)] have st: "loop_steps cfg env (e0, w) (e1, w1)" "\<not> unfinished e1"
    by (auto simp: loop_outcome_def)
  from loop_served [OF assms(2) st(1) roots_served [OF r(1) assms(3)]] r(3)
  obtain ls where li: "loop_inv cfg items ls [] e1" and "leaves_served ls (pending e1) w1"
    by (rule leaves_servedE)
  have empty: "ready e1 = []" "delayed e1 = []" "inflight e1 = []" using st(2) r(3) by (simp_all add: unfinished_def)
  have k: "keys_inv cfg items ls [] e1" using li by (simp add: loop_inv_def)
  obtain q w3 where s: "stitch cfg env (leaf_map ls) w2 = (q, w3)" by fastforce
  obtain cq cw where cl: "(if cleanup_on_success cfg then store_cleanup env w3 else (Inr (), w3)) = (cq, cw)"
    by fastforce
  from r(5) obtain out where q: "q = Inr out"
    by (cases q) (simp_all add: conclude_def r(3) expected_map_leaves [OF k] s)
  have res: "res = \<lparr>frame = out, attempts = attempts_total e1, committed_keys = committed e1,
      resumed_keys = resumed e1, transient_retries = retried e1, splits = split_count e1\<rparr>"
    using r(5) by (cases cq) (simp_all add: conclude_def r(3) expected_map_leaves [OF k] s q cl)
  from stitch_served [OF s [unfolded q]] obtain rs
    where rs: "list_all2 (\<lambda>kh r. served w2 (fst kh) = Some (snd kh, r)) (leaf_map ls) rs" "outcome_of cfg rs = Inr (frame res)"
    by (auto simp: leaf_map_sorted res)
  have "attempts res = committed_keys res + transient_retries res + splits res"
    "resumed_keys res + committed_keys res = int (length ls)"
    using li empty res by (simp_all add: loop_inv_def count_inv_def pending_def)
  moreover have "frontier cfg items ls" "distinct (map content_key ls)" using k by (simp_all add: keys_inv_def)
  ultimately show ?thesis
    by (intro exI [of _ ls] exI [of _ rs] exI [of _ e0] exI [of _ e1] exI [of _ w1] exI [of _ w2] conjI r(1,4) st(1) rs)
qed

end

end
