(* ===== verification/Engine_Term.thy ===== *)
theory Engine_Term
  imports Engine_Inv
begin

text \<open>
  The loop ends. \<open>fair_env\<close> states what the clock, \<open>sleep\<close> and \<open>concurrent.futures.wait\<close>
  promise: time does not run backwards, a sleep lasts at least its argument, a wait returns a
  completed future or lasts until its timeout. Every iteration then shrinks the multiset of
  the pending items' weights: the splits and the attempts an item has left, and the queue it
  is in.
\<close>

locale fair_env =
  fixes env :: "('p, 'r, 'w) env" and now :: "'w \<Rightarrow> real"
  assumes clock: "monotonic env w = (t, w') \<Longrightarrow> now w \<le> t \<and> now w' = t"
    and sleeps: "0 < d \<Longrightarrow> now w + d \<le> now (sleep env d w)"
    and waits: "pool_wait env futs timeout w = (dn, w') \<Longrightarrow> futs \<noteq> [] \<Longrightarrow>
      set dn \<subseteq> set futs \<and> (dn = [] \<longrightarrow> (\<exists>t. timeout = Some t \<and> now w + t \<le> now w'))"

section \<open>Weights\<close>

type_synonym weight = "nat \<times> nat \<times> nat"

definition lighter :: "(weight \<times> weight) set" where
  "lighter = less_than <*lex*> less_than <*lex*> less_than"

definition wt :: "('p, 'r, 'acc, 'o) config \<Rightarrow> (string, int) dict \<Rightarrow> nat \<Rightarrow> 'p admitted \<Rightarrow> weight" where
  "wt cfg counts place ad =
     (nat (max_split_depth cfg - depth ad),
      nat (max_attempts (retry cfg) - (case dict_get counts (content_key ad) of None \<Rightarrow> 0 | Some m \<Rightarrow> m)), place)"

definition weights :: "('p, 'r, 'acc, 'o) config \<Rightarrow> 'p engine \<Rightarrow> weight multiset" where
  "weights cfg e =
     image_mset (wt cfg (transient_attempts e) 1) (mset (ready e)) +
     image_mset (wt cfg (transient_attempts e) 2) (mset (map (\<lambda>x. snd (snd x)) (delayed e))) +
     image_mset (wt cfg (transient_attempts e) 0) (mset (map snd (inflight e)))"

abbreviation smaller :: "weight multiset \<Rightarrow> weight multiset \<Rightarrow> bool" where
  "smaller M N \<equiv> (M, N) \<in> mult lighter"

lemma wf_smaller: "wf (mult lighter)"
  by (simp add: lighter_def wf_mult wf_lex_prod)

lemma trans_smaller: "smaller A B \<Longrightarrow> smaller B C \<Longrightarrow> smaller A C"
  unfolding mult_def by (rule trancl_trans)

lemma smaller_drop: "smaller M (add_mset x M)"
  using one_step_implies_mult [of "{#x#}" "{#}" lighter M] by simp

lemma smaller_swap: "(y, x) \<in> lighter \<Longrightarrow> smaller (add_mset y M) (add_mset x M)"
  using one_step_implies_mult [of "{#x#}" "{#y#}" lighter M] by simp

lemma smaller_many: "(\<forall>y\<in>#K. (y, x) \<in> lighter) \<Longrightarrow> smaller (M + K) (add_mset x M)"
  using one_step_implies_mult [of "{#x#}" K lighter M] by simp

lemma weights_cong:
  assumes "\<And>x. x \<in> set (pending e) \<Longrightarrow> transient_count e' (content_key x) = transient_count e (content_key x)"
    and "ready e' = ready e" and "delayed e' = delayed e" and "inflight e' = inflight e"
  shows "weights cfg e' = weights cfg e"
proof -
  have "wt cfg (transient_attempts e') l x = wt cfg (transient_attempts e) l x" if "x \<in> set (pending e)" for l x
    using assms(1) [OF that] by (simp add: wt_def transient_count_def)
  then show ?thesis
    unfolding weights_def assms(2-4)
    by (intro arg_cong2 [where f = "(+)"] image_mset_cong) (auto simp: pending_def)
qed

section \<open>Every handler lightens\<close>

lemma pop_weights:
  assumes "loop_inv cfg items ls [] e" and "dict_get (inflight e) f = Some ad"
  shows "weights cfg e = add_mset (wt cfg (transient_attempts e) 0 ad) (weights cfg (e\<lparr>inflight := dict_pop f (inflight e)\<rparr>))"
proof -
  have "mset (inflight e) = add_mset (f, ad) (mset (dict_pop f (inflight e)))"
    using assms by (intro dict_pop_mset) (simp_all add: loop_inv_def queue_inv_def)
  then show ?thesis by (simp add: weights_def)
qed

lemma adopt_weights:
  assumes "\<forall>c\<in>set cads. depth c = depth ad + 1" and "depth ad + 1 \<le> max_split_depth cfg"
  shows "smaller (weights cfg (adopt ad cads e)) (add_mset (wt cfg counts 0 ad) (weights cfg e))"
proof -
  let ?e = "adopt ad cads e"
  have "weights cfg ?e = weights cfg e + image_mset (wt cfg (transient_attempts e) 1) (mset cads)"
    by (simp add: adopt_def Let_def enqueue_fold weights_def ac_simps)
  moreover have "smaller (weights cfg e + image_mset (wt cfg (transient_attempts e) 1) (mset cads)) (add_mset (wt cfg counts 0 ad) (weights cfg e))"
    by (rule smaller_many) (use assms in \<open>auto simp: wt_def lighter_def\<close>)
  ultimately show ?thesis by simp
qed

lemma requeue_weights:
  assumes i: "loop_inv cfg items ls [ad] e" and "transient_count e (content_key ad) + 1 < max_attempts (retry cfg)"
  shows "smaller (weights cfg (requeue ad due (count_failure ad e))) (add_mset (wt cfg (transient_attempts e) 0 ad) (weights cfg e))"
proof -
  let ?e = "count_failure ad e"
  have count: "transient_count ?e k = (if k = content_key ad then transient_count e k + 1 else transient_count e k)" for k
    by (simp add: transient_count_def [of ?e] transient_count_get) (simp add: transient_count_def)
  have "weights cfg ?e = weights cfg e"
    by (rule weights_cong)
      (use cur_key_fresh [of cfg items ls ad e] i in \<open>auto simp: count loop_inv_def, simp_all add: count_failure_def\<close>)
  moreover have "weights cfg (requeue ad due ?e) = add_mset (wt cfg (transient_attempts ?e) 2 ad) (weights cfg ?e)"
    by (simp add: requeue_def weights_def heappush_map mset_map [symmetric] del: mset_map)
  moreover have "(wt cfg (transient_attempts ?e) 2 ad, wt cfg (transient_attempts e) 0 ad) \<in> lighter"
    using assms(2) by (simp add: wt_def lighter_def transient_count_get transient_count_def split: option.splits)
  ultimately show ?thesis by (simp add: smaller_swap)
qed

lemma route_weights:
  assumes "route_exception cfg env ad exc e w = (Inr None, e1, w1)" and i: "loop_inv cfg items ls [ad] e"
  shows "smaller (weights cfg e1) (add_mset (wt cfg (transient_attempts e) 0 ad) (weights cfg e))"
  using assms(1)
proof (cases rule: route_cases)
  case (split sp)
  from handle_split_Inr [OF split(3)] obtain children cads e2 where s: "depth ad + 1 \<le> max_split_depth cfg"
      "admit_all cfg children (depth ad + 1) e = (Inr cads, e2)" "e1 = adopt ad cads e2" .
  from admit_all_Inr [OF s(2)] obtain lm where lm: "e2 = e\<lparr>live_map := lm\<rparr>"
      "list_all2 (admitted_as cfg (depth ad + 1)) children cads" by blast
  have d: "\<forall>c\<in>set cads. depth c = depth ad + 1" using admitted_as_key [OF lm(2)] by simp
  have w: "weights cfg e2 = weights cfg e" by (simp add: lm weights_def)
  show ?thesis using adopt_weights [OF d s(1), of e2 "transient_attempts e"] by (simp only: s(3) w)
next
  case (split_fails sp x)
  then show ?thesis by simp
next
  case fatal
  then show ?thesis by simp
next
  case transient
  from transient(4) show ?thesis
  proof (cases rule: retry_later_cases)
    case (requeued due)
    then show ?thesis using requeue_weights [OF i] by simp
  qed simp
qed

lemma committed_weights: "weights cfg (e\<lparr>committed := c\<rparr>) = weights cfg e"
  by (simp add: weights_def)

lemma process_done_weights:
  assumes "process_done cfg env futs e w = (Inr (), e1, w1)" and "engine_ok cfg items e"
    and "fatal_exc e = None" and "fatal_exc e1 = None"
  shows "if futs = [] then e1 = e else smaller (weights cfg e1) (weights cfg e)"
  using assms
proof (induction futs arbitrary: e w)
  case (Cons f futs)
  from Cons.prems(1) obtain ad where ad: "dict_get (inflight e) f = Some ad"
    by (cases "dict_get (inflight e) f") auto
  let ?e = "e\<lparr>inflight := dict_pop f (inflight e)\<rparr>"
  from Cons.prems(2,3) obtain ls where li: "loop_inv cfg items ls [] e" by (auto simp: engine_ok_def)
  note i = pop_inflight_inv [OF li ad] and pw = pop_weights [OF li ad]
  have next_step: "smaller (weights cfg e1) (weights cfg e)"
    if "process_done cfg env futs e2 w2 = (Inr (), e1, w1)" "engine_ok cfg items e2" "fatal_exc e2 = None"
      "smaller (weights cfg e2) (weights cfg e)" for e2 w2
    using Cons.IH [OF that(1-3) Cons.prems(4)] that(4) by (auto split: if_splits intro: trans_smaller)
  have "smaller (weights cfg e1) (weights cfg e)"
  proof (cases "fut_result env f w")
    case (Inr r)
    then obtain w2 where "process_done cfg env futs (?e\<lparr>committed := committed ?e + 1\<rparr>) w2 = (Inr (), e1, w1)"
      using Cons.prems(1) ad by (auto simp: Let_def split: prod.splits sum.splits)
    moreover have "engine_ok cfg items (?e\<lparr>committed := committed ?e + 1\<rparr>)"
      using committed_inv [OF i] Cons.prems(3) unfolding engine_ok_def by (intro exI [of _ ls] exI [of _ "[]"]) simp
    moreover have "smaller (weights cfg (?e\<lparr>committed := committed ?e + 1\<rparr>)) (weights cfg e)"
      using smaller_drop by (simp add: committed_weights pw)
    ultimately show ?thesis using next_step Cons.prems(3) by simp
  next
    case (Inl exc)
    then obtain q e2 w2 where r: "route_exception cfg env ad exc ?e w = (Inr q, e2, w2)"
        and q: "(Inr (), e1, w1) = (case q of None \<Rightarrow> process_done cfg env futs e2 w2
           | Some x \<Rightarrow> (Inr (), e2\<lparr>fatal_exc := Some x\<rparr>, w2))"
      using Cons.prems(1) ad
      by (cases "is_Exception exc") (auto simp: Let_def split: prod.splits sum.splits option.splits)
    with Cons.prems(4) have q0: "q = None" by (cases q) auto
    from route_inv [OF r i] obtain ls1 where "loop_inv cfg items ls1 [] e2" using q0 by auto
    then have "engine_ok cfg items e2" using route_keeps(1) [OF r] Cons.prems(3) unfolding engine_ok_def
      by (intro exI [of _ ls1] exI [of _ "[]"]) simp
    moreover have "smaller (weights cfg e2) (weights cfg e)"
      using route_weights [OF r [unfolded q0] i] by (simp add: pw)
    ultimately show ?thesis using next_step q q0 route_keeps(1) [OF r] Cons.prems(3) by simp
  qed
  then show ?case by simp
qed simp

lemma resumed_weights:
  "weights cfg (e\<lparr>ready := ad # rest\<rparr>) =
     add_mset (wt cfg (transient_attempts e) 1 ad) (weights cfg (e\<lparr>resumed := n, ready := rest\<rparr>))"
  by (simp add: weights_def)

lemma submitted_weights:
  assumes "f \<notin> dict_keys (inflight e)"
  shows "smaller (weights cfg (e\<lparr>attempts_total := n, inflight := dict_set f ad (inflight e), ready := rest\<rparr>))
     (weights cfg (e\<lparr>ready := ad # rest\<rparr>))"
proof -
  let ?m = "weights cfg (e\<lparr>ready := rest\<rparr>)"
  have "weights cfg (e\<lparr>attempts_total := n, inflight := dict_set f ad (inflight e), ready := rest\<rparr>) =
      add_mset (wt cfg (transient_attempts e) 0 ad) ?m"
    using dict_set_append [OF assms] by (simp add: weights_def)
  moreover have "weights cfg (e\<lparr>ready := ad # rest\<rparr>) = add_mset (wt cfg (transient_attempts e) 1 ad) ?m"
    by (simp add: weights_def)
  moreover have "(wt cfg (transient_attempts e) 0 ad, wt cfg (transient_attempts e) 1 ad) \<in> lighter"
    by (simp add: wt_def lighter_def)
  ultimately show ?thesis by (simp add: smaller_swap)
qed

lemma dispatch_weights:
  assumes "dispatch cfg env rest e w = (Inr (), e1, w1)" and "loop_inv cfg items ls [] (e\<lparr>ready := rest\<rparr>)"
  shows "(e1 = e\<lparr>ready := rest\<rparr> \<and> (rest = [] \<or> length (inflight e) = max_workers cfg)) \<or>
         smaller (weights cfg e1) (weights cfg (e\<lparr>ready := rest\<rparr>))"
  using assms
proof (induction rest arbitrary: e w)
  case (Cons ad rest)
  show ?case
  proof (cases "length (inflight e) < max_workers cfg")
    case False
    then show ?thesis using Cons.prems by (auto simp: loop_inv_def queue_inv_def)
  next
    case True
    from Cons.prems(1) True obtain hit w2 where h: "store_has env (content_key ad) (payload_hash ad) w = (Inr hit, w2)"
      by (auto split: prod.splits sum.splits)
    show ?thesis
    proof (cases hit)
      case hit: True
      let ?e = "e\<lparr>resumed := resumed e + 1\<rparr>"
      have "smaller (weights cfg (?e\<lparr>ready := rest\<rparr>)) (weights cfg (e\<lparr>ready := ad # rest\<rparr>))"
        using smaller_drop by (simp add: resumed_weights [where n = "resumed e + 1"])
      then show ?thesis
        using Cons.IH [of ?e w2] Cons.prems True h hit resumed_inv [OF Cons.prems(2)]
        by (auto intro: trans_smaller)
    next
      case miss: False
      let ?e = "e\<lparr>attempts_total := attempts_total e + 1, inflight := dict_set (nat (attempts_total e)) ad (inflight e)\<rparr>"
      from Cons.prems(1) True h miss obtain w3 where s: "dispatch cfg env rest ?e w3 = (Inr (), e1, w1)"
        by (auto simp: Let_def split: prod.splits sum.splits)
      have "0 \<le> attempts_total e" using Cons.prems(2) by (simp add: loop_inv_def count_inv_def)
      then have "nat (attempts_total e) \<notin> dict_keys (inflight e)"
        using Cons.prems(2) by (auto simp: loop_inv_def queue_inv_def)
      from submitted_weights [OF this, where cfg = cfg and n = "attempts_total e + 1" and ad = ad and rest = rest]
      show ?thesis
        using Cons.IH [OF s] submitted_inv [OF Cons.prems(2) True] by (auto intro: trans_smaller)
    qed
  qed
qed auto

lemma move_weights:
  assumes "delayed e = p @ q"
  shows "weights cfg (e\<lparr>delayed := q, ready := ready e @ map (\<lambda>x. snd (snd x)) p\<rparr>) = weights cfg e \<and> p = [] \<or>
         smaller (weights cfg (e\<lparr>delayed := q, ready := ready e @ map (\<lambda>x. snd (snd x)) p\<rparr>)) (weights cfg e)"
proof (cases "p = []")
  case True
  then show ?thesis using assms by (simp add: weights_def)
next
  case False
  let ?c = "transient_attempts e" and ?ms = "mset (map (\<lambda>x. snd (snd x)) p)"
  let ?I = "image_mset (wt cfg ?c 1) (mset (ready e)) + image_mset (wt cfg ?c 2) (mset (map (\<lambda>x. snd (snd x)) q)) +
     image_mset (wt cfg ?c 0) (mset (map snd (inflight e)))"
  have "weights cfg (e\<lparr>delayed := q, ready := ready e @ map (\<lambda>x. snd (snd x)) p\<rparr>) = ?I + image_mset (wt cfg ?c 1) ?ms"
    by (simp add: weights_def ac_simps)
  moreover have "weights cfg e = ?I + image_mset (wt cfg ?c 2) ?ms"
    by (simp add: weights_def assms ac_simps)
  moreover have "smaller (?I + image_mset (wt cfg ?c 1) ?ms) (?I + image_mset (wt cfg ?c 2) ?ms)"
  proof (rule one_step_implies_mult)
    show "image_mset (wt cfg ?c 2) ?ms \<noteq> {#}" using False by simp
    show "\<forall>k\<in>#image_mset (wt cfg ?c 1) ?ms. \<exists>j\<in>#image_mset (wt cfg ?c 2) ?ms. (k, j) \<in> lighter"
      by (auto simp: wt_def lighter_def)
  qed
  ultimately show ?thesis by simp
qed

lemma promote_weights:
  assumes "promote_matured env e w = (e1, w1)"
  shows "weights cfg e1 = weights cfg e \<or> smaller (weights cfg e1) (weights cfg e)"
    and "delayed e \<noteq> [] \<Longrightarrow> fst (hd (delayed e)) \<le> fst (monotonic env w) \<Longrightarrow> smaller (weights cfg e1) (weights cfg e)"
proof -
  obtain t w2 where m: "monotonic env w = (t, w2)" by fastforce
  obtain ms q where tm: "take_matured t (delayed e) = (ms, q)" by fastforce
  from take_matured_split [OF tm] obtain p where p: "delayed e = p @ q" "ms = map (\<lambda>x. snd (snd x)) p" by blast
  have e1: "e1 = e\<lparr>delayed := q, ready := ready e @ ms\<rparr>" using assms m tm by (simp add: promote_matured_def)
  note mv = move_weights [OF p(1), of cfg, folded p(2), folded e1]
  then show "weights cfg e1 = weights cfg e \<or> smaller (weights cfg e1) (weights cfg e)" by blast
  assume "delayed e \<noteq> []" "fst (hd (delayed e)) \<le> fst (monotonic env w)"
  then have "p \<noteq> []" using tm m p by (cases "delayed e") (auto split: prod.splits)
  with mv show "smaller (weights cfg e1) (weights cfg e)" by blast
qed

section \<open>Every iteration lightens\<close>

context fair_env
begin

lemma await_weights:
  assumes "await cfg env e w = (Inr (), e1, w1)" and ok: "engine_ok cfg items e" "fatal_exc e = None"
    and "inflight e \<noteq> []" and "fatal_exc e1 = None"
  shows "smaller (weights cfg e1) (weights cfg e)"
proof -
  obtain tm w2 where t: "wait_timeout env e w = (tm, w2)" by fastforce
  obtain dn w3 where d: "pool_wait env (map fst (inflight e)) tm w2 = (dn, w3)" by fastforce
  from assms(1) t d obtain e4 w4 where p: "process_done cfg env dn e w3 = (Inr (), e4, w4)"
      and q: "promote_matured env e4 w4 = (e1, w1)"
    by (auto simp: await_def split: prod.splits sum.splits)
  have "engine_ok cfg items e4" using process_done_inv [OF p ok] .
  have f4: "fatal_exc e4 = None"
    using q assms(5) by (auto simp: promote_matured_def split: prod.splits)
  note pw = process_done_weights [OF p ok f4] and qw = promote_weights [OF q, of cfg]
  show ?thesis
  proof (cases "dn = []")
    case False
    then show ?thesis using pw qw(1) by (auto intro: trans_smaller)
  next
    case True
    with pw have e4: "e4 = e" and w4: "w4 = w3" using p by simp_all
    from waits [OF d] assms(4) True obtain x where x: "tm = Some x" "now w2 + x \<le> now w3" by auto
    with t obtain ra y q2 r where dl: "delayed e = (ra, y) # q2" "monotonic env w = (r, w2)" "x = max 0 (ra - r)"
      by (auto simp: wait_timeout_def split: list.splits prod.splits)
    have "ra \<le> now w3" using clock [OF dl(2)] x dl(3) by auto
    moreover have "now w3 \<le> fst (monotonic env w3)" using clock by (metis prod.collapse)
    ultimately show ?thesis using qw(2) dl(1) e4 w4 by simp
  qed
qed

lemma doze_weights:
  assumes "doze env e w = (e1, w1)" and "delayed e \<noteq> []"
  shows "smaller (weights cfg e1) (weights cfg e)"
proof -
  obtain ra y q2 where dl: "delayed e = (ra, y) # q2" using assms(2) by (cases "delayed e") auto
  obtain r w2 where m: "monotonic env w = (r, w2)" by fastforce
  define d where "d = max 0 (ra - r)"
  define w3 where "w3 = (if d > 0 then sleep env d w2 else w2)"
  have wt: "wait_timeout env e w = (Some d, w2)" by (simp add: wait_timeout_def dl m d_def)
  have q: "promote_matured env e w3 = (e1, w1)"
    using assms(1) by (simp add: doze_def wt w3_def Let_def split: if_splits)
  have "ra \<le> now w3" using clock [OF m] sleeps [of d w2] by (auto simp: w3_def d_def)
  moreover have "now w3 \<le> fst (monotonic env w3)" using clock by (metis prod.collapse)
  ultimately show ?thesis using promote_weights(2) [OF q, of cfg] dl by simp
qed

lemma iteration_weights:
  assumes "iteration cfg env e w = (Inr (), e1, w1)" and ok: "engine_ok cfg items e"
    and "unfinished e" and f1: "fatal_exc e1 = None"
  shows "smaller (weights cfg e1) (weights cfg e)"
proof -
  have f: "fatal_exc e = None" using assms(3) by (simp add: unfinished_def)
  from assms(1) obtain e2 w2 where d: "dispatch cfg env (ready e) e w = (Inr (), e2, w2)"
    by (auto simp: iteration_def split: prod.splits sum.splits)
  from ok f obtain ls where li: "loop_inv cfg items ls [] (e\<lparr>ready := ready e\<rparr>)" by (auto simp: engine_ok_def)
  note ok2 = dispatch_ok [OF d ok f]
  have dw: "e2 = e \<and> (ready e = [] \<or> length (inflight e) = max_workers cfg) \<or> smaller (weights cfg e2) (weights cfg e)"
    using dispatch_weights [OF d li] by simp
  from assms(1) d ok2(2) consider "inflight e2 \<noteq> []" "await cfg env e2 w2 = (Inr (), e1, w1)"
    | "delayed e2 \<noteq> []" "doze env e2 w2 = (e1, w1)" | "e1 = e2" "inflight e2 = []" "delayed e2 = []"
    by (auto simp: iteration_def split: if_splits prod.splits)
  then show ?thesis
  proof cases
    case 1
    then show ?thesis using await_weights [OF 1(2) ok2 1(1) f1] dw by (auto intro: trans_smaller)
  next
    case 2
    then show ?thesis using doze_weights [OF 2(2,1), of cfg] dw by (auto intro: trans_smaller)
  next
    case 3
    then show ?thesis using dw assms(3) by (auto simp: unfinished_def max_workers_def)
  qed
qed

text \<open>So the loop returns: it finishes, or an iteration raises.\<close>

lemma run_loop_returns:
  assumes "engine_ok cfg items e"
  shows "\<exists>out. run_loop cfg env e w = Some out"
  using wf_smaller assms
proof (induction "weights cfg e" arbitrary: e w rule: wf_induct_rule)
  case less
  show ?case
  proof (cases "unfinished e")
    case False
    then show ?thesis by (simp add: run_loop.simps)
  next
    case True
    obtain r e1 w1 where it: "iteration cfg env e w = (r, e1, w1)" by (metis surj_pair)
    show ?thesis
    proof (cases r)
      case (Inl x)
      then show ?thesis using True it by (simp add: run_loop.simps)
    next
      case (Inr u)
      have step: "run_loop cfg env e w = run_loop cfg env e1 w1"
        using True it Inr by (subst run_loop.simps) simp
      have ok1: "engine_ok cfg items e1"
        using iteration_ok it Inr less.prems True by (auto simp: unfinished_def)
      show ?thesis
      proof (cases "fatal_exc e1")
        case None
        have "smaller (weights cfg e1) (weights cfg e)"
          using iteration_weights [OF _ less.prems True None] it Inr by simp
        from less.hyps [OF this ok1] step show ?thesis by simp
      next
        case (Some x)
        then have "run_loop cfg env e1 w1 = Some (Inr (), e1, w1)"
          by (subst run_loop.simps) (simp add: unfinished_def)
        with step show ?thesis by simp
      qed
    qed
  qed
qed

lemma run_returns: "\<exists>out. run_checkpointed cfg env items w = Some out"
proof -
  have "\<exists>out. run_loop cfg env e w = Some out" if "admit_roots cfg items initial_engine = (Inr (), e)" for e
    using run_loop_returns [OF roots_ok [OF that]] .
  then show ?thesis
    by (fastforce simp: run_checkpointed_def Let_def split: sum.split prod.split option.split)
qed

end

end
