(* ===== verification/Text_Codec.thy ===== *)
theory Text_Codec
  imports Prelude
begin

text \<open>
  Text encodings the stores rely on (Python's \<open>str(int)\<close>, \<open>bytes.hex()\<close>, four-digit \<open>\\u\<close>
  escapes and UTF-8), with their inverses, and the newline translation of text mode reading. A
  Python \<open>str\<close> is represented by its UTF-8 bytes; a lone surrogate, which no file encoding accepts, by the three bytes the same scheme gives it.
\<close>

section \<open>Decimal integers\<close>

definition digit_char :: "nat \<Rightarrow> char" where
  "digit_char d = char_of (48 + d)"

definition is_digit :: "char \<Rightarrow> bool" where
  "is_digit c \<longleftrightarrow> (let n = of_char c :: nat in 48 \<le> n \<and> n \<le> 57)"

definition digit_val :: "char \<Rightarrow> nat" where
  "digit_val c = of_char c - 48"

fun nat_repr :: "nat \<Rightarrow> string" where
  "nat_repr n = (if n < 10 then [digit_char n] else nat_repr (n div 10) @ [digit_char (n mod 10)])"

declare nat_repr.simps [simp del]

definition int_repr :: "int \<Rightarrow> string" where
  \<comment> \<open>\<open>str(i)\<close>\<close>
  "int_repr i = (if i < 0 then CHR ''-'' # nat_repr (nat (- i)) else nat_repr (nat i))"

definition digits_val :: "string \<Rightarrow> nat" where
  "digits_val = foldl (\<lambda>a c. 10 * a + digit_val c) 0"

lemma digit_char_props [simp]:
  assumes "d < 10"
  shows "is_digit (digit_char d)" and "digit_val (digit_char d) = d"
  using assms by (simp_all add: is_digit_def digit_char_def digit_val_def of_char_of)

lemma nat_repr_digits: "\<forall>c \<in> set (nat_repr n). is_digit c"
proof (induction n rule: nat_repr.induct)
  case (1 n)
  then show ?case by (subst nat_repr.simps) auto
qed

lemma nat_repr_not_Nil [simp]: "nat_repr n \<noteq> []"
  by (subst nat_repr.simps) simp

lemma digits_val_snoc: "digits_val (s @ [c]) = 10 * digits_val s + digit_val c"
  by (simp add: digits_val_def)

lemma digits_val_nat_repr [simp]: "digits_val (nat_repr n) = n"
proof (induction n rule: nat_repr.induct)
  case (1 n)
  show ?case
  proof (cases "n < 10")
    case True
    then show ?thesis by (subst nat_repr.simps) (simp add: digits_val_def)
  next
    case False
    with "1.IH" show ?thesis by (subst nat_repr.simps) (simp add: digits_val_snoc)
  qed
qed

lemma nat_repr_inj: "nat_repr m = nat_repr n \<longleftrightarrow> m = n"
  by (metis digits_val_nat_repr)

lemma nat_repr_hd_nonzero: "0 < n \<Longrightarrow> hd (nat_repr n) \<noteq> CHR ''0''"
proof (induction n rule: nat_repr.induct)
  case (1 n)
  show ?case
  proof (cases "n < 10")
    case True
    have "digit_char n \<noteq> CHR ''0''"
    proof
      assume "digit_char n = CHR ''0''"
      then have "digit_val (digit_char n) = 0" by (simp add: digit_val_def)
      with True 1(2) show False by simp
    qed
    with True show ?thesis by (subst nat_repr.simps) simp
  next
    case False
    then have "0 < n div 10" by simp
    with False "1.IH" show ?thesis by (subst nat_repr.simps) (simp add: hd_append)
  qed
qed

lemma int_repr_inj: "int_repr i = int_repr j \<longleftrightarrow> i = j"
proof
  assume eq: "int_repr i = int_repr j"
  have minus: "CHR ''-'' \<notin> set (nat_repr n)" for n
    using nat_repr_digits [of n] by (auto simp: is_digit_def)
  from eq minus show "i = j"
    by (auto simp: int_repr_def nat_repr_inj split: if_splits)
       (metis list.set_intros(1))+
qed simp

section \<open>Hexadecimal\<close>

definition hex_digit :: "nat \<Rightarrow> char" where
  "hex_digit n = (if n < 10 then char_of (48 + n) else char_of (87 + n))"

definition hex_val :: "char \<Rightarrow> nat option" where
  \<comment> \<open>the value of a digit of \<open>[0-9A-Fa-f]\<close>\<close>
  "hex_val c =
     (let n = of_char c :: nat
      in if 48 \<le> n \<and> n \<le> 57 then Some (n - 48)
         else if 97 \<le> n \<and> n \<le> 102 then Some (n - 87)
         else if 65 \<le> n \<and> n \<le> 70 then Some (n - 55)
         else None)"

definition hex4 :: "nat \<Rightarrow> string" where
  "hex4 n = [hex_digit (n div 4096 mod 16), hex_digit (n div 256 mod 16),
             hex_digit (n div 16 mod 16), hex_digit (n mod 16)]"

definition hex4_val :: "string \<Rightarrow> nat option" where
  "hex4_val s =
     (case map hex_val s of
        [Some a, Some b, Some c, Some d] \<Rightarrow> Some (4096 * a + 256 * b + 16 * c + d)
      | _ \<Rightarrow> None)"

definition bytes_hex :: "nat list \<Rightarrow> string" where
  \<comment> \<open>\<open>bytes.hex()\<close>\<close>
  "bytes_hex bs = concat (map (\<lambda>b. [hex_digit (b div 16 mod 16), hex_digit (b mod 16)]) bs)"

lemma hex_val_digit [simp]: "n < 16 \<Longrightarrow> hex_val (hex_digit n) = Some n"
  by (auto simp: hex_val_def hex_digit_def of_char_of Let_def)

lemma hex4_val_hex4: "n < 65536 \<Longrightarrow> hex4_val (hex4 n) = Some n"
proof -
  assume n: "n < 65536"
  have "16 * (n div 16) + n mod 16 = n" by simp
  moreover have "16 * (n div 256) + n div 16 mod 16 = n div 16"
    using mult_div_mod_eq [of 16 "n div 16"] by (simp flip: div_mult2_eq)
  moreover have "16 * (n div 4096) + n div 256 mod 16 = n div 256"
    using mult_div_mod_eq [of 16 "n div 256"] by (simp flip: div_mult2_eq)
  moreover have "n div 4096 mod 16 = n div 4096" and "n div 4096 < 16" using n by simp_all
  ultimately have "4096 * (n div 4096) + 256 * (n div 256 mod 16) + 16 * (n div 16 mod 16) + n mod 16 = n"
    by linarith
  with \<open>n div 4096 mod 16 = n div 4096\<close> \<open>n div 4096 < 16\<close> show ?thesis
    by (simp add: hex4_val_def hex4_def)
qed

lemma length_hex4 [simp]: "length (hex4 n) = 4"
  by (simp add: hex4_def)

lemma bytes_hex_chars: "c \<in> set (bytes_hex bs) \<Longrightarrow> hex_val c \<noteq> None"
  by (auto simp: bytes_hex_def)

section \<open>UTF-8\<close>

definition byte :: "nat \<Rightarrow> char" where
  "byte n = char_of n"

definition utf8_enc :: "nat \<Rightarrow> string" where
  "utf8_enc cp =
     (if cp < 128 then [byte cp]
      else if cp < 2048 then [byte (192 + cp div 64), byte (128 + cp mod 64)]
      else if cp < 65536 then
        [byte (224 + cp div 4096), byte (128 + cp div 64 mod 64), byte (128 + cp mod 64)]
      else
        [byte (240 + cp div 262144), byte (128 + cp div 4096 mod 64),
         byte (128 + cp div 64 mod 64), byte (128 + cp mod 64)])"

definition is_cont :: "char \<Rightarrow> bool" where
  "is_cont c \<longleftrightarrow> (let n = of_char c :: nat in 128 \<le> n \<and> n < 192)"

fun utf8_tail :: "nat \<Rightarrow> nat \<Rightarrow> string \<Rightarrow> (nat \<times> string) option" where
  \<comment> \<open>\<open>n\<close> continuation bytes, six bits each\<close>
  "utf8_tail 0 a s = Some (a, s)"
| "utf8_tail (Suc n) a [] = None"
| "utf8_tail (Suc n) a (c # s) =
     (if is_cont c then utf8_tail n (64 * a + (of_char c - 128)) s else None)"

definition utf8_next :: "string \<Rightarrow> (nat \<times> string) option" where
  \<comment> \<open>the first code point, and the bytes after it; overlong forms are refused\<close>
  "utf8_next s =
     (case s of [] \<Rightarrow> None | c # r \<Rightarrow>
        let n = of_char c :: nat in
        if n < 128 then Some (n, r)
        else if n < 192 then None
        else if n < 224 then
          (case utf8_tail 1 (n - 192) r of Some (cp, r') \<Rightarrow> if 128 \<le> cp then Some (cp, r') else None
           | None \<Rightarrow> None)
        else if n < 240 then
          (case utf8_tail 2 (n - 224) r of Some (cp, r') \<Rightarrow> if 2048 \<le> cp then Some (cp, r') else None
           | None \<Rightarrow> None)
        else if n < 245 then
          (case utf8_tail 3 (n - 240) r of
             Some (cp, r') \<Rightarrow> if 65536 \<le> cp \<and> cp < 1114112 then Some (cp, r') else None
           | None \<Rightarrow> None)
        else None)"

definition is_surrogate :: "nat \<Rightarrow> bool" where
  "is_surrogate cp \<longleftrightarrow> 55296 \<le> cp \<and> cp < 57344"

lemma utf8_tail_length: "utf8_tail n a s = Some (cp, r) \<Longrightarrow> length r \<le> length s"
  by (induction n a s rule: utf8_tail.induct) (auto split: if_splits)

lemma utf8_next_length: "utf8_next s = Some (cp, r) \<Longrightarrow> length r < length s"
  by (auto simp: utf8_next_def Let_def dest!: utf8_tail_length
      split: list.splits if_splits option.splits)

function utf8_ok :: "string \<Rightarrow> bool" where
  \<comment> \<open>the bytes decode strictly: what \<open>str.encode(\<close>utf-8\<open>)\<close> and reading a file accept\<close>
  "utf8_ok s =
     (s = [] \<or> (case utf8_next s of None \<Rightarrow> False | Some (cp, r) \<Rightarrow> \<not> is_surrogate cp \<and> utf8_ok r))"
  by pat_completeness auto
termination
  by (relation "measure length") (auto simp: utf8_next_length)

declare utf8_ok.simps [simp del]

lemma utf8_ascii: "(\<forall>c\<in>set s. of_char c < (128 :: nat)) \<Longrightarrow> utf8_ok s"
  by (induction s) (simp_all add: utf8_ok.simps utf8_next_def is_surrogate_def Let_def)

lemma char_byte_of: "of_char c = n \<Longrightarrow> byte n = c"
  by (auto simp: byte_def)

lemma of_char_lt [simp]: "(of_char c :: nat) < 256"
  by (metis of_char_mod_256 mod_less_divisor zero_less_numeral)

lemma utf8_enc_2: "m < 32 \<Longrightarrow> k < 64 \<Longrightarrow> 128 \<le> 64 * m + k \<Longrightarrow>
   utf8_enc (64 * m + k) = [byte (192 + m), byte (128 + k)]"
  by (simp add: utf8_enc_def)

lemma div_mod_64: "k < 64 \<Longrightarrow> (64 * x + k) div 64 = x" "k < 64 \<Longrightarrow> (64 * x + k) mod 64 = k" for k x :: nat
  by simp_all

lemma utf8_enc_3: "m < 16 \<Longrightarrow> j < 64 \<Longrightarrow> k < 64 \<Longrightarrow> 2048 \<le> 64 * (64 * m + j) + k \<Longrightarrow>
   utf8_enc (64 * (64 * m + j) + k) = [byte (224 + m), byte (128 + j), byte (128 + k)]"
proof -
  assume a: "m < 16" "j < 64" "k < 64" "2048 \<le> 64 * (64 * m + j) + k"
  let ?cp = "64 * (64 * m + j) + k"
  have d: "?cp div 64 = 64 * m + j" "?cp mod 64 = k" using a(3) by (rule div_mod_64)+
  have "?cp div 4096 = ?cp div 64 div 64" by (simp flip: div_mult2_eq)
  then have "?cp div 4096 = m" using a d by simp
  with a d show ?thesis by (simp add: utf8_enc_def)
qed

lemma utf8_enc_4: "m < 5 \<Longrightarrow> i < 64 \<Longrightarrow> j < 64 \<Longrightarrow> k < 64 \<Longrightarrow>
   65536 \<le> 64 * (64 * (64 * m + i) + j) + k \<Longrightarrow>
   utf8_enc (64 * (64 * (64 * m + i) + j) + k)
     = [byte (240 + m), byte (128 + i), byte (128 + j), byte (128 + k)]"
proof -
  assume a: "m < 5" "i < 64" "j < 64" "k < 64" "65536 \<le> 64 * (64 * (64 * m + i) + j) + k"
  let ?cp = "64 * (64 * (64 * m + i) + j) + k"
  have d: "?cp div 64 = 64 * (64 * m + i) + j" "?cp mod 64 = k" using a(4) by (rule div_mod_64)+
  have "?cp div 4096 = ?cp div 64 div 64" by (simp flip: div_mult2_eq)
  then have e: "?cp div 4096 = 64 * m + i" using a d by simp
  have "?cp div 262144 = ?cp div 4096 div 64" by (simp flip: div_mult2_eq)
  then have f: "?cp div 262144 = m" using a e by simp
  have g: "?cp div 64 mod 64 = j" unfolding d using a(3) by (rule div_mod_64)
  from a(5) have "\<not> ?cp < 128" "\<not> ?cp < 2048" "\<not> ?cp < 65536" by linarith+
  then show ?thesis unfolding utf8_enc_def using a d(2) e f g by (simp only: if_False) simp
qed

lemma is_contE:
  assumes "is_cont c"
  obtains k where "k < 64" "c = byte (128 + k)" "of_char c = (128 + k :: nat)"
proof
  let ?k = "of_char c - 128 :: nat"
  show "?k < 64" and "of_char c = 128 + ?k" using assms by (auto simp: is_cont_def Let_def)
  then show "c = byte (128 + ?k)" by (metis char_byte_of)
qed

lemma lead_byteE:
  assumes "(a :: nat) \<le> of_char c" and "of_char c < b"
  obtains m where "m < b - a" "c = byte (a + m)" "of_char c - a = m"
proof
  show "of_char c - a < b - a" and "of_char c - a = of_char c - a" using assms by auto
  show "c = byte (a + (of_char c - a))" using assms by (simp add: char_byte_of)
qed

lemma utf8_next_enc: "utf8_next s = Some (cp, r) \<Longrightarrow> s = utf8_enc cp @ r \<and> cp < 1114112"
proof -
  assume nx: "utf8_next s = Some (cp, r)"
  then obtain c t where s: "s = c # t" by (auto simp: utf8_next_def split: list.splits)
  let ?n = "of_char c :: nat"
  consider "?n < 128" | "192 \<le> ?n" "?n < 224" | "224 \<le> ?n" "?n < 240" | "240 \<le> ?n" "?n < 245"
    using nx s by (auto simp: utf8_next_def Let_def split: if_splits)
  then show ?thesis
  proof cases
    case 1
    with nx s show ?thesis by (auto simp: utf8_next_def utf8_enc_def char_byte_of Let_def)
  next
    case 2
    then obtain m where m: "m < 32" "c = byte (192 + m)" "?n - 192 = m" by (rule lead_byteE) simp
    from nx s 2 m(3) have "utf8_tail 1 m t = Some (cp, r)" "128 \<le> cp"
      by (auto simp: utf8_next_def Let_def split: if_splits option.splits)
    then obtain d where t: "t = d # r" "is_cont d" "cp = 64 * m + (of_char d - 128)" "128 \<le> cp"
      by (cases t) (auto split: if_splits)
    from t(2) obtain k where "k < 64" "d = byte (128 + k)" "of_char d = (128 + k :: nat)"
      by (rule is_contE)
    with m t s show ?thesis by (simp add: utf8_enc_2)
  next
    case 3
    then obtain m where m: "m < 16" "c = byte (224 + m)" "?n - 224 = m" by (rule lead_byteE) simp
    from nx s 3 m(3) have tl: "utf8_tail 2 m t = Some (cp, r)" "2048 \<le> cp"
      by (auto simp: utf8_next_def Let_def split: if_splits option.splits)
    then obtain d e where t: "t = d # e # r" "is_cont d" "is_cont e"
      "cp = 64 * (64 * m + (of_char d - 128)) + (of_char e - 128)"
      by (cases t; cases "tl t") (auto simp: numeral_2_eq_2 split: if_splits)
    from t(2) obtain j where "j < 64" "d = byte (128 + j)" "of_char d = (128 + j :: nat)"
      by (rule is_contE)
    moreover from t(3) obtain k where "k < 64" "e = byte (128 + k)" "of_char e = (128 + k :: nat)"
      by (rule is_contE)
    ultimately show ?thesis using m t s tl(2) utf8_enc_3 [of m j k] by simp
  next
    case 4
    then obtain m where m: "m < 5" "c = byte (240 + m)" "?n - 240 = m" by (rule lead_byteE) simp
    from nx s 4 m(3) have tl: "utf8_tail 3 m t = Some (cp, r)" "65536 \<le> cp" "cp < 1114112"
      by (auto simp: utf8_next_def Let_def split: if_splits option.splits)
    then obtain b d e where t: "t = b # d # e # r" "is_cont b" "is_cont d" "is_cont e"
      "cp = 64 * (64 * (64 * m + (of_char b - 128)) + (of_char d - 128)) + (of_char e - 128)"
      by (cases t; cases "tl t"; cases "tl (tl t)") (auto simp: numeral_3_eq_3 split: if_splits)
    from t(2) obtain i where "i < 64" "b = byte (128 + i)" "of_char b = (128 + i :: nat)"
      by (rule is_contE)
    moreover from t(3) obtain j where "j < 64" "d = byte (128 + j)" "of_char d = (128 + j :: nat)"
      by (rule is_contE)
    moreover from t(4) obtain k where "k < 64" "e = byte (128 + k)" "of_char e = (128 + k :: nat)"
      by (rule is_contE)
    ultimately show ?thesis using m t s tl(2,3) utf8_enc_4 [of m i j k] by simp
  qed
qed

section \<open>Text files\<close>

definition newline :: char where
  "newline = CHR 0x0A"

fun universal_newlines :: "string \<Rightarrow> string" where
  \<comment> \<open>text mode reading: CR LF and CR become LF\<close>
  "universal_newlines [] = []"
| "universal_newlines [c] = [if c = CHR 0x0D then newline else c]"
| "universal_newlines (c # d # s) =
     (if c \<noteq> CHR 0x0D then c # universal_newlines (d # s)
      else if d = newline then newline # universal_newlines s
      else newline # universal_newlines (d # s))"

end
