(* ===== verification/Os_Files.thy ===== *)
theory Os_Files
  imports Py_Errors Text_Codec
begin

text \<open>
  The cache directory as the stores see it, and the atomic-write primitives of
  \<open>src/resumable_batch/durability.py\<close>. The directory is a map from names to regular files or
  subdirectories. Everything the operating system decides is an oracle indexed by a tick that
  every call advances: whether a call succeeds, raises \<open>OSError\<close> or is the point at which the
  process is killed (with the number of bytes of a write that reached the file), what
  \<open>os.urandom\<close>, \<open>uuid.uuid4\<close> and \<open>time.time\<close> return. \<open>os.replace\<close> is atomic, which is what
  the module relies on.
\<close>

datatype node = RegFile string | SubDir

datatype fault = NoFault | Raises "nat option" | Kills "nat option"

record os =
  files :: "(string, node) dict"
  dir_exists :: bool
  tick :: nat
  fault_at :: "nat \<Rightarrow> fault"
  urandom_at :: "nat \<Rightarrow> nat list"
  uuid4_at :: "nat \<Rightarrow> string"
  time_at :: "nat \<Rightarrow> string"
  pid :: nat
  is_windows :: bool

definition file_at :: "os \<Rightarrow> string \<Rightarrow> node option" where
  "file_at s name = dict_get (files s) name"

section \<open>Actions: they return or raise, and change the state either way\<close>

type_synonym 'a act = "os \<Rightarrow> 'a result \<times> os"

definition ret :: "'a \<Rightarrow> 'a act" where
  "ret x s = (Inr x, s)"

definition raise :: "exn \<Rightarrow> 'a act" where
  "raise e s = (Inl e, s)"

definition bind_act :: "'a act \<Rightarrow> ('a \<Rightarrow> 'b act) \<Rightarrow> 'b act" where
  "bind_act m f s = (case m s of (Inl e, s') \<Rightarrow> (Inl e, s') | (Inr x, s') \<Rightarrow> f x s')"

definition then_act :: "'a act \<Rightarrow> 'b act \<Rightarrow> 'b act" where
  "then_act m n = bind_act m (\<lambda>_. n)"

definition catch_OSError :: "'a act \<Rightarrow> 'a act \<Rightarrow> 'a act" where
  \<comment> \<open>\<open>try: m / except OSError: h\<close>\<close>
  "catch_OSError m h s =
     (case m s of (Inl e, s') \<Rightarrow> if isinstance e PyOSError then h s' else (Inl e, s') | r \<Rightarrow> r)"

definition os_error :: exn where
  "os_error = Exn PyOSError ''''"

definition advance :: "os \<Rightarrow> os" where
  "advance s = s\<lparr>tick := Suc (tick s)\<rparr>"

definition syscall :: "(nat \<Rightarrow> os \<Rightarrow> os) \<Rightarrow> 'a act \<Rightarrow> 'a act" where
  \<comment> \<open>a call that may fail: \<open>partial n\<close> is what it leaves when \<open>n\<close> bytes got through\<close>
  "syscall partial body s =
     (let leave = (\<lambda>n. case n of None \<Rightarrow> advance s | Some k \<Rightarrow> partial k (advance s))
      in case fault_at s (tick s) of
           NoFault \<Rightarrow> body (advance s)
         | Raises n \<Rightarrow> (Inl os_error, leave n)
         | Kills n \<Rightarrow> (Inl killed, leave n))"

abbreviation nothing_partial :: "nat \<Rightarrow> os \<Rightarrow> os" where
  "nothing_partial \<equiv> \<lambda>_ s. s"

section \<open>File operations\<close>

definition writable :: "string \<Rightarrow> os \<Rightarrow> bool" where
  "writable name s \<longleftrightarrow> dir_exists s \<and> file_at s name \<noteq> Some SubDir"

definition put_file :: "string \<Rightarrow> string \<Rightarrow> os \<Rightarrow> os" where
  "put_file name body s = (if writable name s then s\<lparr>files := dict_set name (RegFile body) (files s)\<rparr> else s)"

definition fs_write :: "string \<Rightarrow> string \<Rightarrow> unit act" where
  \<comment> \<open>open for writing, write the bytes, close\<close>
  "fs_write name body =
     syscall (\<lambda>n. put_file name (take n body))
       (\<lambda>s. if writable name s then (Inr (), put_file name body s) else (Inl os_error, s))"

definition fs_read :: "string \<Rightarrow> string act" where
  "fs_read name =
     syscall nothing_partial
       (\<lambda>s. case file_at s name of Some (RegFile b) \<Rightarrow> (Inr b, s) | _ \<Rightarrow> (Inl os_error, s))"

definition fs_unlink :: "string \<Rightarrow> unit act" where
  "fs_unlink name =
     syscall nothing_partial
       (\<lambda>s. case file_at s name of
          Some (RegFile b) \<Rightarrow> (Inr (), s\<lparr>files := dict_pop name (files s)\<rparr>)
        | _ \<Rightarrow> (Inl os_error, s))"

definition fs_listdir :: "(string \<times> node) list act" where
  \<comment> \<open>the names in the directory, and what \<open>is_file\<close> says of each\<close>
  "fs_listdir = syscall nothing_partial (\<lambda>s. if dir_exists s then (Inr (files s), s) else (Inl os_error, s))"

definition fsync_file :: "string \<Rightarrow> unit act" where
  \<comment> \<open>\<open>_fsync_file\<close>: open, \<open>os.fsync\<close>, close\<close>
  "fsync_file name =
     syscall nothing_partial
       (\<lambda>s. case file_at s name of Some (RegFile b) \<Rightarrow> (Inr (), s) | _ \<Rightarrow> (Inl os_error, s))"

definition fsync_dir :: "unit act" where
  \<comment> \<open>\<open>_fsync_dir\<close>: nothing on Windows\<close>
  "fsync_dir s =
     (if is_windows s then (Inr (), s)
      else syscall nothing_partial
        (\<lambda>s. if dir_exists s then (Inr (), s) else (Inl os_error, s)) s)"

definition os_replace :: "string \<Rightarrow> string \<Rightarrow> unit act" where
  "os_replace src dst =
     syscall nothing_partial
       (\<lambda>s. case file_at s src of
          Some (RegFile b) \<Rightarrow>
            if writable dst s then (Inr (), s\<lparr>files := dict_set dst (RegFile b) (dict_pop src (files s))\<rparr>)
            else (Inl os_error, s)
        | _ \<Rightarrow> (Inl os_error, s))"

definition atomic_replace_file :: "string \<Rightarrow> string \<Rightarrow> unit act" where
  \<comment> \<open>\<open>_atomic_replace_file\<close>: fsync the file, replace, fsync the directory\<close>
  "atomic_replace_file tmp final =
     then_act (fsync_file tmp) (then_act (os_replace tmp final) fsync_dir)"

definition tmp_name :: "string \<Rightarrow> string act" where
  \<comment> \<open>\<open>_tmp_name\<close>\<close>
  "tmp_name final s =
     (Inr (final @ ''.tmp.'' @ nat_repr (pid s) @ ''.'' @ bytes_hex (urandom_at s (tick s))), advance s)"

definition uuid4_hex :: "string act" where
  "uuid4_hex s = (Inr (uuid4_at s (tick s)), advance s)"

definition time_time :: "string act" where
  "time_time s = (Inr (time_at s (tick s)), advance s)"

section \<open>How actions change the files\<close>

lemma file_at_update [simp]: "file_at (s\<lparr>files := d\<rparr>) j = dict_get d j"
  by (simp add: file_at_def)

lemma dict_get_files [simp]: "dict_get (files s) j = file_at s j"
  by (simp add: file_at_def)

lemma advance_simps [simp]:
  "files (advance s) = files s" "file_at (advance s) = file_at s" "dir_exists (advance s) = dir_exists s"
  "tick (advance s) = Suc (tick s)" "fault_at (advance s) = fault_at s"
  "urandom_at (advance s) = urandom_at s" "uuid4_at (advance s) = uuid4_at s"
  "time_at (advance s) = time_at s" "pid (advance s) = pid s" "is_windows (advance s) = is_windows s"
  by (simp_all add: advance_def file_at_def fun_eq_iff del: dict_get_files)

lemma put_file_simps [simp]:
  "dir_exists (put_file n b s) = dir_exists s" "tick (put_file n b s) = tick s"
  "fault_at (put_file n b s) = fault_at s" "pid (put_file n b s) = pid s"
  "uuid4_at (put_file n b s) = uuid4_at s" "urandom_at (put_file n b s) = urandom_at s"
  "time_at (put_file n b s) = time_at s" "is_windows (put_file n b s) = is_windows s"
  "j \<noteq> n \<Longrightarrow> file_at (put_file n b s) j = file_at s j"
  by (simp_all add: put_file_def)

lemma isinstance_os_error [simp]: "isinstance os_error PyOSError"
  by (simp add: os_error_def isinstance_def)

lemma isinstance_killed [simp]: "\<not> isinstance killed PyOSError"
  by (simp add: killed_def isinstance_def)

lemma is_Exception_os_error [simp]: "is_Exception os_error"
  by (simp add: os_error_def)

lemma bind_act_Inr:
  "bind_act m f s = (Inr y, s'') \<longleftrightarrow> (\<exists>x s'. m s = (Inr x, s') \<and> f x s' = (Inr y, s''))"
  by (auto simp: bind_act_def split: prod.splits sum.splits)

lemma bind_act_Inl:
  "bind_act m f s = (Inl e, s'') \<longleftrightarrow>
     m s = (Inl e, s'') \<or> (\<exists>x s'. m s = (Inr x, s') \<and> f x s' = (Inl e, s''))"
  by (auto simp: bind_act_def split: prod.splits sum.splits)

definition keeps :: "string set \<Rightarrow> os \<Rightarrow> os \<Rightarrow> bool" where
  \<comment> \<open>no file outside the set changed, and nothing else a reader depends on\<close>
  "keeps F s s' \<longleftrightarrow>
     (\<forall>j. j \<notin> F \<longrightarrow> file_at s' j = file_at s j) \<and> dir_exists s' = dir_exists s \<and>
     fault_at s' = fault_at s \<and> pid s' = pid s \<and> uuid4_at s' = uuid4_at s \<and>
     urandom_at s' = urandom_at s \<and> time_at s' = time_at s \<and> is_windows s' = is_windows s \<and>
     tick s \<le> tick s'"

definition touches :: "string set \<Rightarrow> 'a act \<Rightarrow> bool" where
  "touches F m \<longleftrightarrow> (\<forall>s. keeps F s (snd (m s)))"

lemma keeps_refl [simp]: "keeps F s s"
  by (simp add: keeps_def)

lemma keeps_trans: "keeps F s t \<Longrightarrow> keeps F t u \<Longrightarrow> keeps F s u"
  by (auto simp: keeps_def)

lemma keeps_advance [simp]: "keeps F s (advance s)"
  by (simp add: keeps_def)

lemma keeps_mono: "keeps F s t \<Longrightarrow> F \<subseteq> G \<Longrightarrow> keeps G s t"
  by (auto simp: keeps_def)

lemma keepsD:
  assumes "keeps F s s'"
  shows "j \<notin> F \<Longrightarrow> file_at s' j = file_at s j" and "dir_exists s' = dir_exists s"
    and "fault_at s' = fault_at s" and "pid s' = pid s" and "uuid4_at s' = uuid4_at s"
    and "urandom_at s' = urandom_at s" and "is_windows s' = is_windows s" and "tick s \<le> tick s'"
    and "time_at s' = time_at s"
  using assms by (simp_all add: keeps_def)

lemma touches_keeps: "touches F m \<Longrightarrow> m s = (r, s') \<Longrightarrow> keeps F s s'"
  by (metis snd_conv touches_def)

lemmas touchesD = keepsD [OF touches_keeps]

lemma touches_mono: "touches F m \<Longrightarrow> F \<subseteq> G \<Longrightarrow> touches G m"
  by (auto simp: touches_def intro: keeps_mono)

lemma touches_bind [intro]:
  assumes "touches F m" and "\<And>x. touches F (f x)"
  shows "touches F (bind_act m f)"
  unfolding touches_def
proof
  fix s
  obtain r s1 where m: "m s = (r, s1)" by fastforce
  with assms show "keeps F s (snd (bind_act m f s))"
    by (auto simp: bind_act_def touches_def split: sum.splits intro: keeps_trans touches_keeps)
qed

lemma touches_then [intro]: "touches F m \<Longrightarrow> touches F n \<Longrightarrow> touches F (then_act m n)"
  by (auto simp: then_act_def)

lemma touches_syscall:
  assumes "\<And>k s. keeps F s (partial k s)" and "touches F body"
  shows "touches F (syscall partial body)"
  unfolding touches_def
proof
  fix s
  have "keeps F s (snd (body (advance s)))"
    using assms(2) by (auto simp: touches_def intro: keeps_trans [OF keeps_advance])
  moreover have "keeps F s (partial k (advance s))" for k
    using assms(1) by (rule keeps_trans [OF keeps_advance])
  ultimately show "keeps F s (snd (syscall partial body s))"
    by (auto simp: syscall_def Let_def split: fault.splits option.splits)
qed

lemma keeps_put [simp]: "keeps {name} s (put_file name b s)"
  by (simp add: keeps_def put_file_def)

lemma touches_write: "touches {name} (fs_write name body)"
  unfolding fs_write_def by (rule touches_syscall) (auto simp: touches_def)

lemma touches_read: "touches F (fs_read name)"
  unfolding fs_read_def
  by (rule touches_syscall) (auto simp: touches_def split: option.splits node.splits)

lemma touches_unlink: "touches {name} (fs_unlink name)"
  unfolding fs_unlink_def
  by (rule touches_syscall) (auto simp: touches_def keeps_def split: option.splits node.splits)

lemma touches_listdir: "touches F fs_listdir"
  unfolding fs_listdir_def by (rule touches_syscall) (auto simp: touches_def)

lemma touches_fsync_file: "touches F (fsync_file name)"
  unfolding fsync_file_def
  by (rule touches_syscall) (auto simp: touches_def split: option.splits node.splits)

lemma touches_fsync_dir: "touches F fsync_dir"
proof -
  have "touches F (syscall nothing_partial
      (\<lambda>s. if dir_exists s then (Inr (), s) else (Inl os_error, s)))"
    by (rule touches_syscall) (auto simp: touches_def)
  then show ?thesis by (auto simp: touches_def fsync_dir_def)
qed

lemma touches_replace: "touches {src, dst} (os_replace src dst)"
  unfolding os_replace_def
  by (rule touches_syscall) (auto simp: touches_def keeps_def split: option.splits node.splits)

lemma touches_atomic_replace: "touches {tmp, final} (atomic_replace_file tmp final)"
  unfolding atomic_replace_file_def
  by (intro touches_then touches_fsync_file touches_replace touches_fsync_dir)

lemma touches_draws [simp]: "touches F (tmp_name f)" "touches F uuid4_hex" "touches F time_time"
  by (auto simp: touches_def tmp_name_def uuid4_hex_def time_time_def)

lemma touches_ret [simp]: "touches F (ret x)" "touches F (raise e)"
  by (auto simp: touches_def ret_def raise_def)

lemma touches_catch:
  assumes "touches F m" and "touches F h"
  shows "touches F (catch_OSError m h)"
  unfolding touches_def
proof
  fix s
  obtain r s1 where m: "m s = (r, s1)" by fastforce
  with assms show "keeps F s (snd (catch_OSError m h s))"
    by (auto simp: catch_OSError_def touches_def split: sum.splits intro: keeps_trans touches_keeps)
qed

section \<open>Outcomes of the primitives\<close>

lemma syscall_cases:
  assumes "syscall partial body s = (r, s')"
  obtains (runs) "body (advance s) = (r, s')"
  | (raises) e n where "r = Inl e" "e \<in> {os_error, killed}"
      "s' = (case n of None \<Rightarrow> advance s | Some k \<Rightarrow> partial k (advance s))"
  using assms by (auto simp: syscall_def Let_def split: fault.splits)

lemma fs_write_outcome:
  assumes "fs_write name body s = (Inr u, s')"
  shows "file_at s' name = Some (RegFile body)"
  using assms unfolding fs_write_def
  by (cases rule: syscall_cases) (auto simp: put_file_def split: if_splits)

lemma os_replace_outcome:
  assumes "os_replace src dst s = (r, s')" and "file_at s src = Some (RegFile b)" and "src \<noteq> dst"
  shows "r = Inr () \<and> file_at s' dst = Some (RegFile b) \<or> (\<exists>e. r = Inl e) \<and> file_at s' dst = file_at s dst"
  using assms(1) unfolding os_replace_def
  by (cases rule: syscall_cases) (use assms(2,3) in \<open>auto split: if_splits option.splits\<close>)

text \<open>
  The replacement is all or nothing: whatever call fails or is the last one, the target holds
  its old content or the whole new content, and after a normal return the new one.
\<close>

lemma atomic_replace_outcome:
  assumes "atomic_replace_file tmp final s = (r, s')" and "file_at s tmp = Some (RegFile b)"
    and "tmp \<noteq> final"
  shows "file_at s' final = Some (RegFile b) \<or> (\<exists>e. r = Inl e) \<and> file_at s' final = file_at s final"
proof -
  obtain r1 s1 where f: "fsync_file tmp s = (r1, s1)" by fastforce
  have s1: "file_at s1 = file_at s" using touchesD(1) [OF touches_fsync_file f, of _ "{}"] by auto
  show ?thesis
  proof (cases r1)
    case (Inl e)
    with assms(1) f s1 show ?thesis
      by (auto simp: atomic_replace_file_def then_act_def bind_act_def)
  next
    case (Inr u)
    obtain r2 s2 where q: "os_replace tmp final s1 = (r2, s2)" by fastforce
    have o: "r2 = Inr () \<and> file_at s2 final = Some (RegFile b) \<or> (\<exists>e. r2 = Inl e) \<and> file_at s2 final = file_at s final"
      using os_replace_outcome [OF q] assms(2,3) s1 by auto
    obtain r3 s3 where d: "fsync_dir s2 = (r3, s3)" by fastforce
    have s3: "file_at s3 = file_at s2" using touchesD(1) [OF touches_fsync_dir d, of _ "{}"] by auto
    from assms(1) f Inr q d o s3 show ?thesis
      by (auto simp: atomic_replace_file_def then_act_def bind_act_def split: sum.splits)
  qed
qed

section \<open>Runs without faults\<close>

definition fault_free :: "os \<Rightarrow> bool" where
  "fault_free s \<longleftrightarrow> (\<forall>n. fault_at s n = NoFault)"

lemma syscall_fault_free: "fault_free s \<Longrightarrow> syscall partial body s = body (advance s)"
  by (simp add: syscall_def fault_free_def)

lemma fault_free_simps [simp]:
  "fault_free (advance s) = fault_free s" "fault_free (put_file n b s) = fault_free s"
  "fault_free (s\<lparr>files := f\<rparr>) = fault_free s"
  by (simp_all add: fault_free_def)

lemma fault_free_touches: "touches F m \<Longrightarrow> m s = (r, s') \<Longrightarrow> fault_free s' = fault_free s"
  by (simp add: fault_free_def touchesD(3))

lemma atomic_replace_succeeds:
  assumes "fault_free s" and "file_at s tmp = Some (RegFile b)" and "writable final s"
    and "tmp \<noteq> final"
  shows "fst (atomic_replace_file tmp final s) = Inr ()"
  using assms
  by (auto simp: atomic_replace_file_def then_act_def bind_act_def fsync_file_def os_replace_def
      fsync_dir_def syscall_fault_free writable_def)

lemma fs_write_succeeds:
  "fault_free s \<Longrightarrow> writable name s \<Longrightarrow>
   fs_write name body s = (Inr (), put_file name body (advance s))"
  by (simp add: fs_write_def syscall_fault_free writable_def)

end
