(* ===== verification/Json.thy ===== *)
theory Json
  imports Text_Codec
begin

text \<open>
  What the stores use of Python's \<open>json\<close> module: \<open>json.dumps(v, sort_keys=True,
  separators=(",", ":"))\<close> with \<open>ensure_ascii\<close> on (manifest) or off (JSONL records), and
  \<open>json.loads\<close>. A JSON float is the text \<open>float.__repr__\<close> gives it; \<open>pf\<close>, the parameter of
  the reader, is \<open>repr(float(lexeme))\<close> (the module's own \<open>parse_float\<close> hook). A parsed object
  is a dictionary with string keys in order of first appearance, the last value winning.

  The central lemmas: the writer's output is read back as the value with its objects
  sorted by key (\<open>loads_dumps\<close>), and writing that again gives the same text
  (\<open>dumps_jnorm\<close>).
\<close>

datatype json =
    JNull | JBool bool | JInt int | JFloat string | JStr string
  | JList "json list" | JObj "(string \<times> json) list"

abbreviation dquote :: char where "dquote \<equiv> CHR 0x22"
abbreviation bslash :: char where "bslash \<equiv> CHR 0x5C"

section \<open>Writing\<close>

definition u_escape :: "nat \<Rightarrow> string" where
  "u_escape n = bslash # CHR ''u'' # hex4 n"

definition esc_char :: "char \<Rightarrow> string" where
  \<comment> \<open>\<open>ESCAPE_DCT\<close> of \<open>json.encoder\<close>\<close>
  "esc_char c =
     (let n = of_char c :: nat in
      if c = dquote then [bslash, dquote]
      else if c = bslash then [bslash, bslash]
      else if n = 10 then [bslash, CHR ''n'']
      else if n = 13 then [bslash, CHR ''r'']
      else if n = 9 then [bslash, CHR ''t'']
      else if n = 12 then [bslash, CHR ''f'']
      else if n = 8 then [bslash, CHR ''b'']
      else if n < 32 then u_escape n
      else [c])"

definition esc_cp :: "nat \<Rightarrow> string" where
  \<comment> \<open>\<open>py_encode_basestring_ascii\<close>, one code point\<close>
  "esc_cp cp =
     (if cp < 127 then esc_char (byte cp)
      else if cp < 65536 then u_escape cp
      else u_escape (55296 + (cp - 65536) div 1024) @ u_escape (56320 + (cp - 65536) mod 1024))"

function escape_ascii :: "string \<Rightarrow> string" where
  "escape_ascii s = (case utf8_next s of None \<Rightarrow> [] | Some (cp, r) \<Rightarrow> esc_cp cp @ escape_ascii r)"
  by pat_completeness auto
termination
  by (relation "measure length") (auto simp: utf8_next_length)

declare escape_ascii.simps [simp del]

definition py_quote :: "bool \<Rightarrow> string \<Rightarrow> string" where
  "py_quote ascii s =
     dquote # (if ascii then escape_ascii s else concat (map esc_char s)) @ [dquote]"

fun join_commas :: "string list \<Rightarrow> string" where
  "join_commas [] = []"
| "join_commas [x] = x"
| "join_commas (x # y # ys) = x @ CHR '','' # join_commas (y # ys)"

fun dumps :: "bool \<Rightarrow> json \<Rightarrow> string" where
  "dumps ascii JNull = ''null''"
| "dumps ascii (JBool b) = (if b then ''true'' else ''false'')"
| "dumps ascii (JInt i) = int_repr i"
| "dumps ascii (JFloat t) = t"
| "dumps ascii (JStr s) = py_quote ascii s"
| "dumps ascii (JList vs) = CHR ''['' # join_commas (map (dumps ascii) vs) @ '']''"
| "dumps ascii (JObj kvs) =
     CHR ''{'' # join_commas (map (\<lambda>(k, t). py_quote ascii k @ CHR '':'' # t)
       (sort_key fst (map (\<lambda>(k, v). (k, dumps ascii v)) kvs))) @ ''}''"

fun jnorm :: "json \<Rightarrow> json" where
  \<comment> \<open>the value with every object in key order\<close>
  "jnorm (JList vs) = JList (map jnorm vs)"
| "jnorm (JObj kvs) = JObj (sort_key fst (map (\<lambda>(k, v). (k, jnorm v)) kvs))"
| "jnorm v = v"

section \<open>Reading\<close>

definition is_ws :: "char \<Rightarrow> bool" where
  "is_ws c \<longleftrightarrow> c = CHR '' '' \<or> c = CHR 0x09 \<or> c = CHR 0x0A \<or> c = CHR 0x0D"

abbreviation skip_ws :: "string \<Rightarrow> string" where
  "skip_ws s \<equiv> dropWhile is_ws s"

definition simple_escape :: "char \<Rightarrow> char option" where
  \<comment> \<open>\<open>BACKSLASH\<close> of \<open>json.decoder\<close>\<close>
  "simple_escape c =
     (if c = dquote then Some dquote else if c = bslash then Some bslash
      else if c = CHR ''/'' then Some (CHR ''/'')
      else if c = CHR ''b'' then Some (CHR 0x08) else if c = CHR ''f'' then Some (CHR 0x0C)
      else if c = CHR ''n'' then Some (CHR 0x0A) else if c = CHR ''r'' then Some (CHR 0x0D)
      else if c = CHR ''t'' then Some (CHR 0x09) else None)"

definition decode_u :: "string \<Rightarrow> (string \<times> string) option" where
  \<comment> \<open>what follows \<open>\\u\<close>: one escape, or a high surrogate with the low one after it\<close>
  "decode_u s =
     (case hex4_val (take 4 s) of
        None \<Rightarrow> None
      | Some u \<Rightarrow>
          let r = drop 4 s in
          if 55296 \<le> u \<and> u < 56320 \<and> take 2 r = [bslash, CHR ''u''] then
            (case hex4_val (take 4 (drop 2 r)) of
               None \<Rightarrow> None
             | Some w \<Rightarrow>
                 if 56320 \<le> w \<and> w < 57344
                 then Some (utf8_enc (65536 + (u - 55296) * 1024 + (w - 56320)), drop 6 r)
                 else Some (utf8_enc u, r))
          else Some (utf8_enc u, r))"

function (sequential) scan_string :: "string \<Rightarrow> (string \<times> string) option" where
  \<comment> \<open>\<open>scanstring\<close> after the opening quote: the text and what follows the closing quote\<close>
  "scan_string [] = None"
| "scan_string (c # cs) =
     (if c = dquote then Some ([], cs)
      else if c = bslash then
        (case cs of
           [] \<Rightarrow> None
         | e # ds \<Rightarrow>
             if e = CHR ''u'' then
               (case decode_u ds of
                  None \<Rightarrow> None
                | Some (out, r) \<Rightarrow> map_option (\<lambda>(t, q). (out @ t, q)) (scan_string r))
             else
               (case simple_escape e of
                  None \<Rightarrow> None
                | Some x \<Rightarrow> map_option (\<lambda>(t, q). (x # t, q)) (scan_string ds)))
      else if (of_char c :: nat) < 32 then None
      else map_option (\<lambda>(t, q). (c # t, q)) (scan_string cs))"
  by pat_completeness auto

lemma decode_u_length: "decode_u s = Some (out, r) \<Longrightarrow> length r \<le> length s"
  by (auto simp: decode_u_def Let_def split: option.splits if_splits)

termination scan_string
  by (relation "measure length") (auto dest: decode_u_length)

definition scan_frac :: "string \<Rightarrow> string \<times> string" where
  \<comment> \<open>\<open>(\.[0-9]+)?\<close>\<close>
  "scan_frac s =
     (case s of
        c # r \<Rightarrow>
          if c = CHR ''.'' \<and> takeWhile is_digit r \<noteq> []
          then (c # takeWhile is_digit r, dropWhile is_digit r) else ([], s)
      | [] \<Rightarrow> ([], s))"

definition scan_exp :: "string \<Rightarrow> string \<times> string" where
  \<comment> \<open>\<open>([eE][-+]?[0-9]+)?\<close>\<close>
  "scan_exp s =
     (case s of
        c # r \<Rightarrow>
          if c = CHR ''e'' \<or> c = CHR ''E'' then
            (let sg = (case r of d # _ \<Rightarrow> if d = CHR ''-'' \<or> d = CHR ''+'' then [d] else [] | [] \<Rightarrow> []);
                 q = drop (length sg) r
             in if takeWhile is_digit q \<noteq> []
                then (c # sg @ takeWhile is_digit q, dropWhile is_digit q) else ([], s))
          else ([], s)
      | [] \<Rightarrow> ([], s))"

definition scan_nat :: "string \<Rightarrow> (string \<times> string) option" where
  \<comment> \<open>\<open>0|[1-9][0-9]*\<close>\<close>
  "scan_nat s =
     (case s of
        [] \<Rightarrow> None
      | c # r \<Rightarrow>
          if c = CHR ''0'' then Some ([c], r)
          else if is_digit c then Some (takeWhile is_digit s, dropWhile is_digit s)
          else None)"

definition scan_sign :: "string \<Rightarrow> string \<times> string" where
  "scan_sign s = (case s of c # r \<Rightarrow> if c = CHR ''-'' then ([c], r) else ([], s) | [] \<Rightarrow> ([], s))"

definition scan_number :: "(string \<Rightarrow> string) \<Rightarrow> string \<Rightarrow> (json \<times> string) option" where
  \<comment> \<open>\<open>NUMBER_RE\<close> of \<open>json.scanner\<close>: an int, or a float when a fraction or exponent is there\<close>
  "scan_number pf s =
     (case scan_sign s of (sg, s1) \<Rightarrow>
        case scan_nat s1 of
           None \<Rightarrow> None
         | Some (ds, r) \<Rightarrow>
             let (fr, r1) = scan_frac r; (ex, r2) = scan_exp r1
             in if fr = [] \<and> ex = []
                then Some (JInt (if sg = [] then int (digits_val ds) else - int (digits_val ds)), r)
                else Some (JFloat (pf (sg @ ds @ fr @ ex)), r2))"

definition literals :: "(string \<times> json) list" where
  "literals =
     [(''null'', JNull), (''true'', JBool True), (''false'', JBool False),
      (''NaN'', JFloat ''NaN''), (''Infinity'', JFloat ''Infinity''),
      (''-Infinity'', JFloat ''-Infinity'')]"

definition scan_atom :: "(string \<Rightarrow> string) \<Rightarrow> string \<Rightarrow> (json \<times> string) option" where
  \<comment> \<open>\<open>scan_once\<close> on what is no string, object or array; no literal is a prefix of a number\<close>
  "scan_atom pf s =
     (case find (\<lambda>(w, v). prefix w s) literals of
        Some (w, v) \<Rightarrow> Some (v, drop (length w) s)
      | None \<Rightarrow> scan_number pf s)"

fun scan_value :: "(string \<Rightarrow> string) \<Rightarrow> nat \<Rightarrow> string \<Rightarrow> (json \<times> string) option"
and scan_elems :: "(string \<Rightarrow> string) \<Rightarrow> nat \<Rightarrow> json list \<Rightarrow> string \<Rightarrow> (json \<times> string) option"
and scan_members ::
  "(string \<Rightarrow> string) \<Rightarrow> nat \<Rightarrow> (string, json) dict \<Rightarrow> string \<Rightarrow> (json \<times> string) option"
where
  "scan_value pf 0 s = None"
| "scan_value pf (Suc n) s =
     (case s of
        [] \<Rightarrow> None
      | c # cs \<Rightarrow>
          if c = dquote then map_option (\<lambda>(t, r). (JStr t, r)) (scan_string cs)
          else if c = CHR ''{'' then
            (case skip_ws cs of
               [] \<Rightarrow> None
             | d # ds \<Rightarrow> if d = CHR ''}'' then Some (JObj [], ds) else scan_members pf n [] (d # ds))
          else if c = CHR ''['' then
            (case skip_ws cs of
               [] \<Rightarrow> None
             | d # ds \<Rightarrow> if d = CHR '']'' then Some (JList [], ds) else scan_elems pf n [] (d # ds))
          else scan_atom pf s)"
| "scan_elems pf 0 acc s = None"
| "scan_elems pf (Suc n) acc s =
     (case scan_value pf n s of
        None \<Rightarrow> None
      | Some (v, r) \<Rightarrow>
          (case skip_ws r of
             [] \<Rightarrow> None
           | d # ds \<Rightarrow>
               if d = CHR '','' then scan_elems pf n (acc @ [v]) (skip_ws ds)
               else if d = CHR '']'' then Some (JList (acc @ [v]), ds)
               else None))"
| "scan_members pf 0 acc s = None"
| "scan_members pf (Suc n) acc s =
     (case s of
        [] \<Rightarrow> None
      | c # cs \<Rightarrow>
          if c \<noteq> dquote then None
          else (case scan_string cs of
             None \<Rightarrow> None
           | Some (k, r) \<Rightarrow>
               (case skip_ws r of
                  [] \<Rightarrow> None
                | d # ds \<Rightarrow>
                    if d \<noteq> CHR '':'' then None
                    else (case scan_value pf n (skip_ws ds) of
                       None \<Rightarrow> None
                     | Some (v, r') \<Rightarrow>
                         (case skip_ws r' of
                            [] \<Rightarrow> None
                          | e # es \<Rightarrow>
                              if e = CHR '','' then scan_members pf n (dict_set k v acc) (skip_ws es)
                              else if e = CHR ''}'' then Some (JObj (dict_set k v acc), es)
                              else None)))))"

definition loads :: "(string \<Rightarrow> string) \<Rightarrow> string \<Rightarrow> json option" where
  \<comment> \<open>\<open>json.loads(s)\<close>; None where it raises ValueError\<close>
  "loads pf s =
     (case scan_value pf (2 * length s + 2) (skip_ws s) of
        None \<Rightarrow> None
      | Some (v, r) \<Rightarrow> if skip_ws r = [] then Some v else None)"

section \<open>Scanning what was written: numbers and atoms\<close>

definition delim :: "string \<Rightarrow> bool" where
  \<comment> \<open>nothing here continues a number\<close>
  "delim s \<longleftrightarrow>
     (case s of [] \<Rightarrow> True
      | c # _ \<Rightarrow> \<not> is_digit c \<and> c \<notin> {CHR ''.'', CHR ''e'', CHR ''E'', CHR ''-'', CHR ''+''})"

lemma delim_simps [simp]:
  "delim []" "delim (CHR '','' # s)" "delim (CHR '']'' # s)" "delim (CHR ''}'' # s)"
  by (simp_all add: delim_def is_digit_def)

lemma while_digit_append:
  assumes "delim rest"
  shows "takeWhile is_digit (r @ rest) = takeWhile is_digit r"
    and "dropWhile is_digit (r @ rest) = dropWhile is_digit r @ rest"
  using assms by (induction r) (auto simp: delim_def split: list.splits)

lemma scan_nat_append:
  "scan_nat t = Some (ds, r) \<Longrightarrow> delim rest \<Longrightarrow> scan_nat (t @ rest) = Some (ds, r @ rest)"
  by (auto simp: scan_nat_def while_digit_append split: list.splits if_splits)

lemma scan_frac_append:
  "scan_frac r = (fr, r1) \<Longrightarrow> delim rest \<Longrightarrow> scan_frac (r @ rest) = (fr, r1 @ rest)"
  by (cases r) (auto simp: scan_frac_def while_digit_append delim_def split: list.splits if_splits)

lemma scan_exp_append:
  assumes "scan_exp r = (ex, r1)" and "delim rest"
  shows "scan_exp (r @ rest) = (ex, r1 @ rest)"
proof (cases r)
  case Nil
  with assms show ?thesis by (auto simp: scan_exp_def delim_def split: list.splits)
next
  case (Cons c q)
  show ?thesis
  proof (cases q)
    case Nil
    with Cons assms show ?thesis
      by (auto simp: scan_exp_def delim_def Let_def split: list.splits if_splits)
  next
    case (Cons d q')
    with \<open>r = c # q\<close> assms show ?thesis
      by (auto simp: scan_exp_def Let_def while_digit_append while_digit_append [of _ "d # q'", simplified]
          split: if_splits)
  qed
qed

lemma scan_nat_hd: "scan_nat t = Some (ds, r) \<Longrightarrow> \<exists>c q. t = c # q \<and> is_digit c"
  by (auto simp: scan_nat_def is_digit_def split: list.splits if_splits)

lemma scan_number_append:
  assumes "scan_number pf t = Some (v, [])" and "delim rest"
  shows "scan_number pf (t @ rest) = Some (v, rest)"
proof -
  obtain sg t1 where sg: "scan_sign t = (sg, t1)" by fastforce
  obtain ds r where sn: "scan_nat t1 = Some (ds, r)"
    using assms(1) sg by (auto simp: scan_number_def split: option.splits)
  obtain fr r1 where fr: "scan_frac r = (fr, r1)" by fastforce
  obtain ex r2 where ex: "scan_exp r1 = (ex, r2)" by fastforce
  have sg': "scan_sign (t @ rest) = (sg, t1 @ rest)"
    using sg scan_nat_hd [OF sn] by (auto simp: scan_sign_def split: list.splits if_splits)
  note app = sg' scan_nat_append [OF sn assms(2)] scan_frac_append [OF fr assms(2)]
    scan_exp_append [OF ex assms(2)]
  from assms(1) sg sn fr ex show ?thesis
    unfolding scan_number_def app by (auto simp: app split: if_splits)
qed

lemma scan_number_hd:
  assumes "scan_number pf t = Some x"
  obtains c q where "t = c # q" "is_digit c" | c q where "t = CHR ''-'' # c # q" "is_digit c"
proof -
  obtain sg t1 where sg: "scan_sign t = (sg, t1)" by fastforce
  obtain ds r where sn: "scan_nat t1 = Some (ds, r)"
    using assms sg by (auto simp: scan_number_def split: option.splits)
  from scan_nat_hd [OF this] sg show thesis
    using that by (auto simp: scan_sign_def split: list.splits if_splits)
qed

lemma scan_number_not_literal:
  assumes "scan_number pf t = Some x"
  shows "find (\<lambda>(w, v). prefix w (t @ rest)) literals = None"
proof -
  have nd: "\<not> is_digit CHR ''n''" "\<not> is_digit CHR ''t''" "\<not> is_digit CHR ''f''"
    "\<not> is_digit CHR ''N''" "\<not> is_digit CHR ''I''" "\<not> is_digit CHR ''-''"
    by (simp_all add: is_digit_def)
  from assms show ?thesis
  proof (cases rule: scan_number_hd)
    case (1 c q)
    with nd have "c \<noteq> CHR ''n''" "c \<noteq> CHR ''t''" "c \<noteq> CHR ''f''" "c \<noteq> CHR ''N''"
      "c \<noteq> CHR ''I''" "c \<noteq> CHR ''-''" by blast+
    with 1 show ?thesis by (simp add: literals_def)
  next
    case (2 c q)
    with nd have "c \<noteq> CHR ''I''" by blast
    with 2 show ?thesis by (simp add: literals_def)
  qed
qed

lemma takeWhile_digits [simp]: "takeWhile is_digit (nat_repr n) = nat_repr n"
  and dropWhile_digits [simp]: "dropWhile is_digit (nat_repr n) = []"
  using nat_repr_digits [of n] by (simp_all add: takeWhile_eq_all_conv)

lemma scan_nat_repr: "scan_nat (nat_repr n) = Some (nat_repr n, [])"
proof (cases "n = 0")
  case True
  then show ?thesis
    by (simp add: nat_repr.simps [of 0] scan_nat_def digit_char_def is_digit_def)
next
  case False
  then have "hd (nat_repr n) \<noteq> CHR ''0''" by (simp add: nat_repr_hd_nonzero)
  moreover obtain c cs where c: "nat_repr n = c # cs" by (cases "nat_repr n") auto
  moreover have "is_digit c" using nat_repr_digits [of n] c by simp
  ultimately show ?thesis
    using takeWhile_digits [of n] dropWhile_digits [of n] by (simp add: scan_nat_def)
qed

lemma scan_number_int: "scan_number pf (int_repr i) = Some (JInt i, [])"
proof -
  have "scan_sign (nat_repr n) = ([], nat_repr n)" for n
    using nat_repr_digits [of n] by (auto simp: scan_sign_def is_digit_def split: list.splits)
  moreover have "scan_sign (CHR ''-'' # s) = (''-'', s)" for s by (simp add: scan_sign_def)
  ultimately show ?thesis
    by (simp add: scan_number_def int_repr_def scan_nat_repr scan_frac_def scan_exp_def)
qed

definition float_ok :: "(string \<Rightarrow> string) \<Rightarrow> string \<Rightarrow> bool" where
  \<comment> \<open>the text of a float: a constant, or a number its own reading reproduces\<close>
  "float_ok pf t \<longleftrightarrow>
     t \<in> {''NaN'', ''Infinity'', ''-Infinity''} \<or> scan_number pf t = Some (JFloat t, [])"

lemma scan_atom_int: "delim rest \<Longrightarrow> scan_atom pf (int_repr i @ rest) = Some (JInt i, rest)"
  by (simp add: scan_atom_def scan_number_not_literal [OF scan_number_int]
      scan_number_append [OF scan_number_int])

lemma scan_atom_float:
  assumes "float_ok pf t" and "delim rest"
  shows "scan_atom pf (t @ rest) = Some (JFloat t, rest)"
proof (cases "t \<in> {''NaN'', ''Infinity'', ''-Infinity''}")
  case True
  then show ?thesis by (auto simp: scan_atom_def literals_def)
next
  case False
  with assms have "scan_number pf t = Some (JFloat t, [])" by (auto simp: float_ok_def)
  with assms(2) show ?thesis
    by (simp add: scan_atom_def scan_number_not_literal scan_number_append)
qed

section \<open>Scanning what was written: strings\<close>

lemma decode_u_hex4:
  assumes "n < 65536" and "\<not> is_surrogate n"
  shows "decode_u (hex4 n @ s) = Some (utf8_enc n, s)"
  using assms by (auto simp: decode_u_def hex4_val_hex4 is_surrogate_def)

lemma decode_u_pair:
  assumes "a < 1024" and "b < 1024"
  shows "decode_u (hex4 (55296 + a) @ bslash # CHR ''u'' # hex4 (56320 + b) @ s)
    = Some (utf8_enc (65536 + a * 1024 + b), s)"
  using assms by (simp add: decode_u_def hex4_val_hex4)

lemma scan_u_escape:
  "decode_u (r @ s) = Some (out, s) \<Longrightarrow>
   scan_string (bslash # CHR ''u'' # r @ s) = map_option (\<lambda>(t, q). (out @ t, q)) (scan_string s)"
  by simp

lemma scan_esc_char:
  "scan_string (esc_char c @ s) = map_option (\<lambda>(t, q). (c # t, q)) (scan_string s)"
proof -
  let ?n = "of_char c :: nat"
  consider "c = dquote" | "c = bslash" | "?n \<in> {8, 9, 10, 12, 13}"
    | "c \<noteq> dquote" "c \<noteq> bslash" "?n < 32" "?n \<notin> {8, 9, 10, 12, 13}"
    | "c \<noteq> dquote" "c \<noteq> bslash" "32 \<le> ?n"
    by fastforce
  then show ?thesis
  proof cases
    case 3
    then have "?n = of_char (CHR 0x08) \<or> ?n = of_char (CHR 0x09) \<or> ?n = of_char (CHR 0x0A)
        \<or> ?n = of_char (CHR 0x0C) \<or> ?n = of_char (CHR 0x0D)" by simp
    then have "c \<in> {CHR 0x08, CHR 0x09, CHR 0x0A, CHR 0x0C, CHR 0x0D}"
      by (simp only: of_char_eq_iff) blast
    then show ?thesis by (auto simp: esc_char_def simple_escape_def)
  next
    case 4
    then have "esc_char c = bslash # CHR ''u'' # hex4 ?n" by (simp add: esc_char_def u_escape_def)
    moreover have "decode_u (hex4 ?n @ s) = Some ([c], s)"
      using 4 decode_u_hex4 [of ?n s] by (simp add: is_surrogate_def utf8_enc_def char_byte_of)
    ultimately show ?thesis using scan_u_escape [of "hex4 ?n" s "[c]"] by simp
  next
    case 5
    then show ?thesis by (simp add: esc_char_def)
  qed (simp_all add: esc_char_def simple_escape_def)
qed

lemma scan_esc_cp:
  assumes "cp < 1114112" and "\<not> is_surrogate cp"
  shows "scan_string (esc_cp cp @ s) = map_option (\<lambda>(t, q). (utf8_enc cp @ t, q)) (scan_string s)"
proof -
  consider "cp < 127" | "127 \<le> cp" "cp < 65536" | "65536 \<le> cp" by linarith
  then show ?thesis
  proof cases
    case 1
    then show ?thesis using scan_esc_char [of "byte cp" s] by (simp add: esc_cp_def utf8_enc_def)
  next
    case 2
    then show ?thesis
      using scan_u_escape [OF decode_u_hex4 [of cp s]] assms(2) by (simp add: esc_cp_def u_escape_def)
  next
    case 3
    let ?a = "(cp - 65536) div 1024" and ?b = "(cp - 65536) mod 1024"
    have "?a < 1024" and "?b < 1024" using assms(1) by simp_all
    from decode_u_pair [OF this, of s]
    have "decode_u ((hex4 (55296 + ?a) @ bslash # CHR ''u'' # hex4 (56320 + ?b)) @ s)
        = Some (utf8_enc (65536 + ?a * 1024 + ?b), s)" by simp
    moreover have "65536 + ?a * 1024 + ?b = cp" using 3 by simp
    ultimately have "decode_u ((hex4 (55296 + ?a) @ bslash # CHR ''u'' # hex4 (56320 + ?b)) @ s)
        = Some (utf8_enc cp, s)" by (simp only:)
    from scan_u_escape [OF this] 3 show ?thesis by (simp add: esc_cp_def u_escape_def)
  qed
qed

lemma scan_escape_ascii:
  "utf8_ok t \<Longrightarrow>
   scan_string (escape_ascii t @ s) = map_option (\<lambda>(u, q). (t @ u, q)) (scan_string s)"
proof (induction t rule: utf8_ok.induct)
  case (1 t)
  show ?case
  proof (cases "utf8_next t")
    case None
    with 1(2) have "t = []" by (simp add: utf8_ok.simps [of t])
    moreover have "escape_ascii t = []" by (simp add: escape_ascii.simps [of t] None)
    ultimately show ?thesis by (simp add: option.map_ident case_prod_unfold)
  next
    case (Some a)
    obtain cp r where a: "a = (cp, r)" by (cases a)
    have t: "t = utf8_enc cp @ r" "cp < 1114112" using utf8_next_enc [of t cp r] Some a by auto
    have "t \<noteq> []" using Some by (auto simp: utf8_next_def)
    with 1(2) Some a have ok: "\<not> is_surrogate cp" "utf8_ok r" by (simp_all add: utf8_ok.simps [of t])
    have "scan_string (escape_ascii r @ s) = map_option (\<lambda>(u, q). (r @ u, q)) (scan_string s)"
      using 1(1) [OF Some a [symmetric] ok(2)] .
    then have "scan_string (esc_cp cp @ escape_ascii r @ s)
        = map_option (\<lambda>(u, q). (utf8_enc cp @ r @ u, q)) (scan_string s)"
      using scan_esc_cp [OF t(2) ok(1), of "escape_ascii r @ s"]
      by (simp add: option.map_comp comp_def case_prod_unfold)
    moreover have "escape_ascii t = esc_cp cp @ escape_ascii r"
      by (simp add: escape_ascii.simps [of t] Some a)
    ultimately show ?thesis using t(1) by simp
  qed
qed

lemma scan_escape:
  "scan_string (concat (map esc_char t) @ s) = map_option (\<lambda>(u, q). (t @ u, q)) (scan_string s)"
  by (induction t)
    (simp_all add: scan_esc_char option.map_comp comp_def case_prod_unfold option.map_ident)

lemma scan_quote:
  assumes "ascii \<Longrightarrow> utf8_ok t"
  shows "\<exists>q. py_quote ascii t = dquote # q \<and> scan_string (q @ rest) = Some (t, rest)"
  using assms by (cases ascii) (simp_all add: py_quote_def scan_escape_ascii scan_escape)

section \<open>Reading back what was written\<close>

fun json_ok :: "(string \<Rightarrow> string) \<Rightarrow> bool \<Rightarrow> json \<Rightarrow> bool" where
  \<comment> \<open>values the writer accepts: floats in their own text, distinct keys and, where the writer
    escapes code points, text without lone surrogates\<close>
  "json_ok pf ascii (JFloat t) = float_ok pf t"
| "json_ok pf ascii (JStr s) = (ascii \<longrightarrow> utf8_ok s)"
| "json_ok pf ascii (JList vs) = (\<forall>v\<in>set vs. json_ok pf ascii v)"
| "json_ok pf ascii (JObj kvs) =
     (dict_ok kvs \<and> (\<forall>(k, v)\<in>set kvs. (ascii \<longrightarrow> utf8_ok k) \<and> json_ok pf ascii v))"
| "json_ok pf ascii _ = True"

definition atom_hd :: "char \<Rightarrow> bool" where
  "atom_hd c \<longleftrightarrow> is_digit c \<or> c \<in> {CHR ''-'', CHR ''n'', CHR ''t'', CHR ''f'', CHR ''N'', CHR ''I''}"

definition value_hd :: "char \<Rightarrow> bool" where
  "value_hd c \<longleftrightarrow> atom_hd c \<or> c \<in> {dquote, CHR ''{'', CHR ''[''}"

lemma value_hd_facts:
  "value_hd c \<Longrightarrow> \<not> is_ws c" "value_hd c \<Longrightarrow> c \<noteq> CHR '']''" "value_hd c \<Longrightarrow> c \<noteq> CHR ''}''"
  by (auto simp: value_hd_def atom_hd_def is_ws_def is_digit_def)

lemma atom_hd_facts: "atom_hd c \<Longrightarrow> c \<noteq> dquote \<and> c \<noteq> CHR ''{'' \<and> c \<noteq> CHR ''[''"
  by (auto simp: atom_hd_def is_digit_def)

lemma scan_number_atom_hd: "scan_number pf t = Some x \<Longrightarrow> \<exists>c q. t = c # q \<and> atom_hd c"
  by (erule scan_number_hd) (auto simp: atom_hd_def)

lemma float_atom_hd: "float_ok pf t \<Longrightarrow> \<exists>c q. t = c # q \<and> atom_hd c"
  by (auto simp: float_ok_def atom_hd_def dest: scan_number_atom_hd)

lemma int_atom_hd: "\<exists>c q. int_repr i = c # q \<and> atom_hd c"
  by (rule scan_number_atom_hd) (rule scan_number_int)

lemma dumps_hd: "json_ok pf ascii v \<Longrightarrow> \<exists>c q. dumps ascii v = c # q \<and> value_hd c"
  using int_atom_hd float_atom_hd
  by (cases v) (fastforce simp: value_hd_def atom_hd_def py_quote_def)+

lemma scan_value_atom:
  "scan_atom pf (t @ rest) = Some (v, rest) \<Longrightarrow> \<exists>c q. t = c # q \<and> atom_hd c \<Longrightarrow>
   scan_value pf (Suc n) (t @ rest) = Some (v, rest)"
  by (auto dest!: atom_hd_facts)

lemma punct_not_ws [simp]:
  "\<not> is_ws (CHR '','')" "\<not> is_ws (CHR '']'')" "\<not> is_ws (CHR ''}'')" "\<not> is_ws (CHR '':'')"
  by (simp_all add: is_ws_def)

definition reads_back :: "(string \<Rightarrow> string) \<Rightarrow> bool \<Rightarrow> json \<Rightarrow> bool" where
  "reads_back pf ascii v \<longleftrightarrow>
     (\<forall>n rest. 2 * length (dumps ascii v) \<le> n \<longrightarrow> delim rest \<longrightarrow>
       scan_value pf n (dumps ascii v @ rest) = Some (jnorm v, rest))"

lemma scan_elems_dumps:
  assumes "vs \<noteq> []" and "\<forall>v\<in>set vs. json_ok pf ascii v \<and> reads_back pf ascii v"
    and "2 * length (join_commas (map (dumps ascii) vs)) + 2 \<le> n"
  shows "scan_elems pf n acc (join_commas (map (dumps ascii) vs) @ CHR '']'' # rest)
    = Some (JList (acc @ map jnorm vs), rest)"
  using assms
proof (induction vs arbitrary: acc n rule: induct_list012)
  case (2 v)
  then obtain m where "n = Suc m" by (cases n) auto
  with 2 show ?case by (simp add: reads_back_def)
next
  case (3 v w vs)
  then obtain m where m: "n = Suc m" by (cases n) auto
  obtain c q where hd: "join_commas (map (dumps ascii) (w # vs)) = c # q" "value_hd c"
    using dumps_hd [of pf ascii w] 3(4) by (cases vs) auto
  have "scan_elems pf m (acc @ [jnorm v]) (join_commas (map (dumps ascii) (w # vs)) @ CHR '']'' # rest)
      = Some (JList ((acc @ [jnorm v]) @ map jnorm (w # vs)), rest)"
    using 3(4,5) m by (intro "3.IH"(2)) auto
  then show ?case
    using 3(4,5) m hd by (simp add: reads_back_def value_hd_facts)
qed simp

lemma scan_members_dumps:
  assumes "kvs \<noteq> []" and "dict_ok (acc @ kvs)"
    and "\<forall>(k, v)\<in>set kvs. (ascii \<longrightarrow> utf8_ok k) \<and> json_ok pf ascii v \<and> reads_back pf ascii v"
    and "2 * length (join_commas (map (\<lambda>(k, v). py_quote ascii k @ CHR '':'' # dumps ascii v) kvs)) + 2 \<le> n"
  shows "scan_members pf n acc
      (join_commas (map (\<lambda>(k, v). py_quote ascii k @ CHR '':'' # dumps ascii v) kvs) @ CHR ''}'' # rest)
    = Some (JObj (acc @ map (\<lambda>(k, v). (k, jnorm v)) kvs), rest)"
  using assms
proof (induction kvs arbitrary: acc n rule: induct_list012)
  case (2 kv)
  obtain k v where kv: "kv = (k, v)" by (cases kv)
  from 2 obtain m where m: "n = Suc m" by (cases n) auto
  obtain q where q: "py_quote ascii k = dquote # q"
    "\<And>rest. scan_string (q @ rest) = Some (k, rest)"
    using scan_quote [of ascii k] 2 kv by (fastforce simp: py_quote_def)
  obtain c r where "dumps ascii v = c # r" "value_hd c"
    using dumps_hd [of pf ascii v] 2 kv by auto
  moreover have "scan_value pf m (dumps ascii v @ CHR ''}'' # rest) = Some (jnorm v, CHR ''}'' # rest)"
    using 2 kv m by (auto simp: reads_back_def)
  moreover have "dict_set k (jnorm v) acc = acc @ [(k, jnorm v)]"
    using 2 kv by (intro dict_set_append) auto
  ultimately show ?case using kv m q by (simp add: value_hd_facts)
next
  case (3 kv kw kvs)
  obtain k v where kv: "kv = (k, v)" by (cases kv)
  from 3 obtain m where m: "n = Suc m" by (cases n) auto
  obtain q where q: "py_quote ascii k = dquote # q"
    "\<And>rest. scan_string (q @ rest) = Some (k, rest)"
    using scan_quote [of ascii k] 3(5) kv by (fastforce simp: py_quote_def)
  obtain c r where cr: "dumps ascii v = c # r" "value_hd c"
    using dumps_hd [of pf ascii v] 3(5) kv by auto
  let ?js = "join_commas (map (\<lambda>(k, v). py_quote ascii k @ CHR '':'' # dumps ascii v) (kw # kvs))"
  obtain q' where hd: "?js = dquote # q'"
    by (cases kw; cases kvs) (auto simp: py_quote_def)
  have sv: "scan_value pf m (dumps ascii v @ CHR '','' # ?js @ CHR ''}'' # rest)
      = Some (jnorm v, CHR '','' # ?js @ CHR ''}'' # rest)"
    using 3(5,6) kv m by (auto simp: reads_back_def)
  have st: "dict_set k (jnorm v) acc = acc @ [(k, jnorm v)]"
    using 3(4) kv by (intro dict_set_append) auto
  have "scan_members pf m (acc @ [(k, jnorm v)]) (?js @ CHR ''}'' # rest)
      = Some (JObj ((acc @ [(k, jnorm v)]) @ map (\<lambda>(k, v). (k, jnorm v)) (kw # kvs)), rest)"
    using 3(4,5,6) kv m by (intro "3.IH"(2)) auto
  then show ?case
    using kv m q cr st hd sv by (simp add: value_hd_facts is_ws_def [of dquote])
qed simp

lemma reads_backI:
  assumes "\<And>m rest. 2 * length (dumps ascii v) \<le> Suc m \<Longrightarrow> delim rest \<Longrightarrow>
      scan_value pf (Suc m) (dumps ascii v @ rest) = Some (jnorm v, rest)"
    and "dumps ascii v \<noteq> []"
  shows "reads_back pf ascii v"
  unfolding reads_back_def
proof (intro allI impI)
  fix n rest
  assume "2 * length (dumps ascii v) \<le> n" "delim rest"
  with assms show "scan_value pf n (dumps ascii v @ rest) = Some (jnorm v, rest)"
    by (cases n) auto
qed

lemma scan_atom_literal:
  "delim rest \<Longrightarrow> scan_atom pf (''null'' @ rest) = Some (JNull, rest)"
  "delim rest \<Longrightarrow> scan_atom pf (''true'' @ rest) = Some (JBool True, rest)"
  "delim rest \<Longrightarrow> scan_atom pf (''false'' @ rest) = Some (JBool False, rest)"
  by (simp_all add: scan_atom_def literals_def)

lemma join_commas_hd:
  "ts \<noteq> [] \<Longrightarrow> \<forall>t\<in>set ts. \<exists>c q. t = c # q \<and> P c \<Longrightarrow> \<exists>c q. join_commas ts = c # q \<and> P c"
  by (induction ts rule: join_commas.induct) auto

lemma dumps_obj:
  "dumps ascii (JObj kvs) =
     CHR ''{'' # join_commas (map (\<lambda>(k, v). py_quote ascii k @ CHR '':'' # dumps ascii v)
       (sort_key fst kvs)) @ ''}''"
  by (simp only: dumps.simps sort_key_map_values) (simp add: comp_def case_prod_unfold)

lemma reads_back_list:
  assumes "\<forall>v\<in>set vs. json_ok pf ascii v \<and> reads_back pf ascii v"
  shows "reads_back pf ascii (JList vs)"
proof (rule reads_backI)
  fix m rest
  assume m: "2 * length (dumps ascii (JList vs)) \<le> Suc m" and "delim rest"
  show "scan_value pf (Suc m) (dumps ascii (JList vs) @ rest) = Some (jnorm (JList vs), rest)"
  proof (cases "vs = []")
    case False
    then obtain c q where hd: "join_commas (map (dumps ascii) vs) = c # q" "value_hd c"
      using join_commas_hd [of "map (dumps ascii) vs" value_hd] assms dumps_hd by fastforce
    with scan_elems_dumps [OF False assms, of m "[]" rest] m show ?thesis
      by (simp add: value_hd_facts)
  qed simp
qed simp

lemma reads_back_obj:
  assumes "dict_ok kvs"
    and "\<forall>(k, v)\<in>set kvs. (ascii \<longrightarrow> utf8_ok k) \<and> json_ok pf ascii v \<and> reads_back pf ascii v"
  shows "reads_back pf ascii (JObj kvs)"
proof (rule reads_backI)
  fix m rest
  let ?s = "sort_key fst kvs"
  let ?js = "join_commas (map (\<lambda>(k, v). py_quote ascii k @ CHR '':'' # dumps ascii v) ?s)"
  assume m: "2 * length (dumps ascii (JObj kvs)) \<le> Suc m" and "delim rest"
  have d: "dumps ascii (JObj kvs) = CHR ''{'' # ?js @ ''}''"
    by (rule dumps_obj)
  show "scan_value pf (Suc m) (dumps ascii (JObj kvs) @ rest) = Some (jnorm (JObj kvs), rest)"
  proof (cases "kvs = []")
    case False
    then have ne: "?s \<noteq> []" by (metis set_empty set_sort)
    then have "\<exists>c q. ?js = c # q \<and> c = dquote"
      by (intro join_commas_hd) (auto simp: py_quote_def)
    then obtain q where hd: "?js = dquote # q" by blast
    have "scan_members pf m [] (?js @ CHR ''}'' # rest)
        = Some (JObj ([] @ map (\<lambda>(k, v). (k, jnorm v)) ?s), rest)"
      using assms m ne unfolding d by (intro scan_members_dumps) (auto simp: dict_ok_sort_key)
    with hd show ?thesis unfolding d by (simp add: sort_key_map_values is_ws_def [of dquote])
  qed simp
qed simp

lemma scan_value_dumps: "json_ok pf ascii v \<Longrightarrow> reads_back pf ascii v"
proof (induction v rule: json.induct)
  case (JFloat t)
  then show ?case
    using float_atom_hd [of pf t]
    by (intro reads_backI) (simp_all only: dumps.simps jnorm.simps json_ok.simps scan_value_atom scan_atom_float, auto)
next
  case (JInt i)
  show ?case
    using int_atom_hd [of i]
    by (intro reads_backI) (simp_all only: dumps.simps jnorm.simps scan_value_atom scan_atom_int, auto)
next
  case (JList vs)
  then show ?case by (intro reads_back_list) auto
next
  case (JObj kvs)
  then show ?case by (intro reads_back_obj) (auto simp: snds.simps)
next
  case (JStr s)
  then show ?case
    using scan_quote [of ascii s] by (intro reads_backI) (fastforce simp: py_quote_def)+
next
  case (JBool b)
  have "\<exists>c q. dumps ascii (JBool b) = c # q \<and> atom_hd c" by (simp add: atom_hd_def)
  moreover have "delim rest \<Longrightarrow> scan_atom pf (dumps ascii (JBool b) @ rest) = Some (JBool b, rest)" for rest
    by (cases b) (simp_all only: dumps.simps if_True if_False scan_atom_literal)
  ultimately show ?case
    by (intro reads_backI) (simp_all only: jnorm.simps scan_value_atom, simp)
next
  case JNull
  have "\<exists>c q. dumps ascii JNull = c # q \<and> atom_hd c" by (simp add: atom_hd_def)
  then show ?case
    by (intro reads_backI) (simp_all only: jnorm.simps dumps.simps scan_value_atom scan_atom_literal, simp)
qed

lemma loads_dumps:
  assumes "json_ok pf ascii v"
  shows "loads pf (dumps ascii v) = Some (jnorm v)"
proof -
  obtain c q where "dumps ascii v = c # q" "value_hd c" using dumps_hd [OF assms] by blast
  then have ws: "skip_ws (dumps ascii v) = dumps ascii v" by (simp add: value_hd_facts)
  have sv: "scan_value pf (2 * length (dumps ascii v) + 2) (dumps ascii v) = Some (jnorm v, [])"
    using scan_value_dumps [OF assms] unfolding reads_back_def
    by (metis append_Nil2 delim_simps(1) le_add1)
  show ?thesis
    by (simp only: loads_def ws sv option.case prod.case dropWhile.simps simp_thms if_True)
qed

lemma dumps_jnorm: "dumps ascii (jnorm v) = dumps ascii v"
proof (induction v rule: json.induct)
  case (JObj kvs)
  have idem: "sort_key fst (sort_key fst kvs) = sort_key fst kvs"
    by (simp add: sort_key_id_if_sorted)
  have "map (\<lambda>(k, v). py_quote ascii k @ CHR '':'' # dumps ascii v)
        (map (\<lambda>(k, v). (k, jnorm v)) (sort_key fst kvs))
      = map (\<lambda>(k, v). py_quote ascii k @ CHR '':'' # dumps ascii v) (sort_key fst kvs)"
    using JObj by (auto simp: snds.simps)
  then show ?case by (simp only: dumps_obj jnorm.simps sort_key_map_values idem)
qed (simp_all add: comp_def cong: map_cong)

section \<open>The scanner's fuel\<close>

text \<open>
  Every call but the first of an element consumes a character, so twice the length of the text
  is enough fuel (\<open>scan_fuel\<close>): beyond it the result does not depend on the fuel, and
  \<^const>\<open>loads\<close> never fails for want of it (\<open>loads_fuel\<close>).
\<close>

lemma skip_ws_length: "length (skip_ws s) \<le> length s"
  by (rule length_dropWhile_le)

lemma scan_string_length: "scan_string s = Some (t, r) \<Longrightarrow> length r < length s"
proof (induction s arbitrary: t rule: scan_string.induct)
  case (2 c cs)
  then show ?case
    by (fastforce split: if_splits list.splits option.splits dest: decode_u_length)
qed simp

lemma scan_nat_length: "scan_nat s = Some (ds, r) \<Longrightarrow> length r < length s"
  by (auto simp: scan_nat_def less_Suc_eq_le length_dropWhile_le split: list.splits if_splits)

lemma scan_frac_length: "scan_frac s = (fr, r) \<Longrightarrow> length r \<le> length s"
  by (auto simp: scan_frac_def le_SucI length_dropWhile_le split: list.splits if_splits)

lemma scan_exp_length: "scan_exp s = (ex, r) \<Longrightarrow> length r \<le> length s"
  by (auto simp: scan_exp_def Let_def split: list.splits if_splits)
    (meson le_SucI length_dropWhile_le le_trans)+

lemma scan_atom_length:
  assumes "scan_atom pf s = Some (v, r)"
  shows "length r < length s"
proof (cases "find (\<lambda>(w, v). prefix w s) literals")
  case None
  obtain sg s1 where sg: "scan_sign s = (sg, s1)" by fastforce
  then have "length s1 \<le> length s" by (auto simp: scan_sign_def split: list.splits if_splits)
  with assms None sg show ?thesis
    by (auto simp: scan_atom_def scan_number_def split: option.splits prod.splits if_splits
        dest!: scan_nat_length scan_frac_length scan_exp_length)
next
  case (Some a)
  then have "a \<in> set literals" and "prefix (fst a) s" by (auto simp: find_Some_iff in_set_conv_nth)
  moreover obtain w u where "a = (w, u)" by (cases a)
  moreover from calculation have "w \<noteq> []" by (auto simp: literals_def)
  ultimately have "r = drop (length w) s" and "0 < length w" and "length w \<le> length s"
    using assms Some by (auto simp: scan_atom_def prefix_length_le)
  then show ?thesis by (metis diff_less length_drop order_less_le_trans)
qed

lemma skip_ws_Cons: "skip_ws r = d # ds \<Longrightarrow> length ds < length r"
  using skip_ws_length [of r] by simp

lemma scan_length:
  "scan_value pf n s = Some (v, r) \<Longrightarrow> length r < length s"
  "scan_elems pf n acc s = Some (v, r) \<Longrightarrow> length r < length s"
  "scan_members pf n accm s = Some (v, r) \<Longrightarrow> length r < length s"
proof (induction pf n s and pf n acc s and pf n accm s arbitrary: v r and v r and v r
    rule: scan_value_scan_elems_scan_members.induct)
  case (2 pf n s)
  from 2(3) obtain c cs where s: "s = c # cs" by (cases s) auto
  consider "c = dquote" | "c = CHR ''{''" | "c = CHR ''[''"
    | "c \<noteq> dquote" "c \<noteq> CHR ''{''" "c \<noteq> CHR ''[''" by blast
  then show ?case
  proof cases
    case 1
    with 2(3) s show ?thesis by (auto dest: scan_string_length)
  next
    case 2
    with "2.prems" s obtain d ds where d: "skip_ws cs = d # ds" by (auto split: list.splits)
    with "2.prems" "2.IH"(1) 2 s skip_ws_Cons [OF d] show ?thesis
      by (cases "d = CHR ''}''") fastforce+
  next
    case 3
    with "2.prems" s obtain d ds where d: "skip_ws cs = d # ds" by (auto split: list.splits)
    with "2.prems" "2.IH"(2) 3 s skip_ws_Cons [OF d] show ?thesis
      by (cases "d = CHR '']''") fastforce+
  next
    case 4
    with 2(3) s show ?thesis by (auto dest: scan_atom_length)
  qed
next
  case (4 pf n acc s)
  from 4(3) obtain w q where w: "scan_value pf n s = Some (w, q)" by (auto split: option.splits)
  with 4(1) have q: "length q < length s" by blast
  from 4(3) w obtain d ds where d: "skip_ws q = d # ds" by (auto split: list.splits)
  then have ds: "length ds < length q" by (rule skip_ws_Cons)
  show ?case
  proof (cases "d = CHR '',''")
    case True
    with 4(2) [OF w _ d] 4(3) w d have "length r < length (skip_ws ds)" by auto
    with ds q skip_ws_length [of ds] show ?thesis by linarith
  next
    case False
    with 4(3) w d ds q show ?thesis by (auto split: if_splits)
  qed
next
  case (6 pf n acc s)
  from 6(3) obtain cs k q where s: "s = dquote # cs" "scan_string cs = Some (k, q)"
    by (auto split: list.splits if_splits option.splits)
  then have q: "length q < length cs" by (auto dest: scan_string_length)
  from 6(3) s obtain d ds where d: "skip_ws q = d # ds" "d = CHR '':''"
    by (auto split: list.splits if_splits)
  from 6(3) s d obtain w p where w: "scan_value pf n (skip_ws ds) = Some (w, p)"
    by (auto split: option.splits)
  then have p: "length p < length (skip_ws ds)" using 6(1) s d by fastforce
  from 6(3) s d w obtain e es where e: "skip_ws p = e # es" by (auto split: list.splits)
  have es: "length es < length s"
    using s q skip_ws_Cons [OF d(1)] p skip_ws_length [of ds] skip_ws_Cons [OF e] by simp
  show ?case
  proof (cases "e = CHR '',''")
    case True
    with 6(2) [OF s(1) _ s(2) _ d(1) _ w _ e] 6(3) s d w e have "length r < length (skip_ws es)" by auto
    with es skip_ws_length [of es] show ?thesis by linarith
  next
    case False
    with 6(3) s d w e es show ?thesis by (auto split: if_splits)
  qed
qed simp_all


lemma scan_fuel:
  "2 * length s < n \<Longrightarrow> scan_value pf (Suc n) s = scan_value pf n s"
  "2 * length s + 1 < n \<Longrightarrow> scan_elems pf (Suc n) acc s = scan_elems pf n acc s"
  "2 * length s + 1 < n \<Longrightarrow> scan_members pf (Suc n) accm s = scan_members pf n accm s"
proof (induction pf n s and pf n acc s and pf n accm s
    rule: scan_value_scan_elems_scan_members.induct)
  case (2 pf n s)
  note [simp del] = scan_value.simps(2) scan_elems.simps(2) scan_members.simps(2)
  have lt: "2 * length (d # ds) + 1 < n" if "s = c # cs" "skip_ws cs = d # ds" for c cs d ds
    using 2(3) that skip_ws_Cons [OF that(2)] by simp
  have m: "scan_members pf (Suc n) [] (d # ds) = scan_members pf n [] (d # ds)"
    if "s = CHR ''{'' # cs" "skip_ws cs = d # ds" "d \<noteq> CHR ''}''" for cs d ds
    using "2.IH"(1) that lt by simp
  have e: "scan_elems pf (Suc n) [] (d # ds) = scan_elems pf n [] (d # ds)"
    if "s = CHR ''['' # cs" "skip_ws cs = d # ds" "d \<noteq> CHR '']''" for cs d ds
    using "2.IH"(2) that lt by simp
  show ?case
    unfolding scan_value.simps(2) [of pf n] scan_value.simps(2) [of pf "Suc n"]
    by (intro list.case_cong if_cong refl) (auto simp: m e)
next
  case (4 pf n acc s)
  note [simp del] = scan_value.simps(2) scan_elems.simps(2) scan_members.simps(2)
  have v: "scan_value pf (Suc n) s = scan_value pf n s" using 4 by simp
  have m: "scan_elems pf (Suc n) (acc @ [w]) (skip_ws ds) = scan_elems pf n (acc @ [w]) (skip_ws ds)"
    if "scan_value pf n s = Some (w, q)" "skip_ws q = CHR '','' # ds" for w q ds
  proof -
    have "2 * length (skip_ws ds) + 1 < n"
      using 4(3) scan_length(1) [OF that(1)] skip_ws_Cons [OF that(2)] skip_ws_length [of ds] by simp
    with "4.IH"(2) that show ?thesis by simp
  qed
  show ?case
    unfolding scan_elems.simps(2) [of pf n acc s] scan_elems.simps(2) [of pf "Suc n" acc s] v
    by (intro option.case_cong prod.case_cong list.case_cong if_cong refl) (auto simp: m)
next
  case (6 pf n acc s)
  note [simp del] = scan_value.simps(2) scan_elems.simps(2) scan_members.simps(2)
  have lt: "2 * length (skip_ws ds) + 2 < n"
    if "s = dquote # cs" "scan_string cs = Some (k, q)" "skip_ws q = d # ds" for cs k q d ds
    using 6(3) that scan_string_length [OF that(2)] skip_ws_Cons [OF that(3)] skip_ws_length [of ds]
    by simp
  have v: "scan_value pf (Suc n) (skip_ws ds) = scan_value pf n (skip_ws ds)"
    if "s = dquote # cs" "scan_string cs = Some (k, q)" "skip_ws q = CHR '':'' # ds" for cs k q ds
    using 6(1) that lt [OF that] by simp
  have m: "scan_members pf (Suc n) (dict_set k w acc) (skip_ws es)
      = scan_members pf n (dict_set k w acc) (skip_ws es)"
    if "s = dquote # cs" "scan_string cs = Some (k, q)" "skip_ws q = CHR '':'' # ds"
      "scan_value pf n (skip_ws ds) = Some (w, p)" "skip_ws p = CHR '','' # es" for cs k q ds w p es
  proof -
    have "2 * length (skip_ws es) + 1 < n"
      using lt [OF that(1-3)] scan_length(1) [OF that(4)] skip_ws_Cons [OF that(5)] skip_ws_length [of es]
      by simp
    with 6(2) that show ?thesis by simp
  qed
  show ?case
    unfolding scan_members.simps(2) [of pf n acc s] scan_members.simps(2) [of pf "Suc n" acc s]
    by (intro option.case_cong prod.case_cong list.case_cong if_cong refl) (auto simp: v m)
qed simp_all

lemma loads_fuel:
  assumes "2 * length s < n"
  shows "scan_value pf n (skip_ws s) = scan_value pf (2 * length s + 2) (skip_ws s)"
proof -
  have base: "2 * length (skip_ws s) < 2 * length s + 1" using skip_ws_length [of s] by simp
  have "scan_value pf (2 * length s + 1 + k) (skip_ws s) = scan_value pf (2 * length s + 1) (skip_ws s)" for k
    using base by (induction k) (simp_all add: scan_fuel del: scan_value.simps)
  from this [of "n - (2 * length s + 1)"] this [of 1] assms show ?thesis by simp
qed

section \<open>The characters of a rendering\<close>

text \<open>
  No rendering contains a control character, a line feed in particular, and the manifest's is
  ASCII, so that it decodes as UTF-8.
\<close>

definition printable :: "bool \<Rightarrow> char \<Rightarrow> bool" where
  "printable ascii c \<longleftrightarrow> (let n = of_char c :: nat in 32 \<le> n \<and> (ascii \<longrightarrow> n < 128))"

abbreviation all_printable :: "bool \<Rightarrow> string \<Rightarrow> bool" where
  "all_printable ascii s \<equiv> \<forall>c\<in>set s. printable ascii c"

lemma printable_literals [simp]:
  "printable ascii (CHR ''-'')" "printable ascii (CHR ''.'')" "printable ascii (CHR ''e'')"
  "printable ascii (CHR ''E'')" "printable ascii (CHR ''+'')" "printable ascii (CHR '':'')"
  "printable ascii (CHR '','')" "printable ascii (CHR ''['')" "printable ascii (CHR '']'')"
  "printable ascii (CHR ''{'')" "printable ascii (CHR ''}'')" "printable ascii bslash"
  "printable ascii dquote" "printable ascii (CHR ''u'')" "printable ascii (CHR ''0'')"
  "printable ascii (CHR ''N'')" "printable ascii (CHR ''a'')" "printable ascii (CHR ''I'')"
  "printable ascii (CHR ''n'')" "printable ascii (CHR ''f'')" "printable ascii (CHR ''i'')"
  "printable ascii (CHR ''t'')" "printable ascii (CHR ''y'')" "printable ascii (CHR ''r'')"
  "printable ascii (CHR ''b'')" "printable ascii (CHR ''l'')" "printable ascii (CHR ''s'')"
  by (simp_all add: printable_def)

lemma utf8_ok_printable: "all_printable True s \<Longrightarrow> utf8_ok s"
  by (induction s) (simp_all add: utf8_ok.simps utf8_next_def is_surrogate_def printable_def Let_def)

lemma printable_digit: "is_digit c \<Longrightarrow> printable ascii c"
  by (auto simp: is_digit_def printable_def Let_def)

lemma printable_hex: "n < 16 \<Longrightarrow> printable ascii (hex_digit n)"
  by (auto simp: printable_def hex_digit_def Let_def)

lemma printable_hex4: "all_printable ascii (hex4 n)"
  by (simp add: hex4_def printable_hex)

lemma printable_nat: "all_printable ascii (nat_repr n)"
  using nat_repr_digits printable_digit by blast

lemma printable_int: "all_printable ascii (int_repr i)"
  using printable_nat by (auto simp: int_repr_def printable_def)

lemma printable_takeWhile: "all_printable ascii (takeWhile is_digit s)"
  using printable_digit by (auto dest: set_takeWhileD)

lemma printable_append_digits:
  "all_printable ascii (dropWhile is_digit s) \<Longrightarrow> all_printable ascii s"
  using printable_takeWhile [of s ascii] by (metis UnE set_append takeWhile_dropWhile_id)

lemma printable_scan_nat: "scan_nat s = Some (ds, r) \<Longrightarrow> all_printable ascii r \<Longrightarrow> all_printable ascii s"
proof -
  assume n: "scan_nat s = Some (ds, r)" and r: "all_printable ascii r"
  then obtain c q where s: "s = c # q" by (cases s) (auto simp: scan_nat_def)
  from n s consider "c = CHR ''0''" "r = q" | "r = dropWhile is_digit s"
    by (auto simp: scan_nat_def split: if_splits)
  then show "all_printable ascii s"
  proof cases
    case 1
    then show ?thesis using r s by simp
  next
    case 2
    then show ?thesis using r printable_append_digits by blast
  qed
qed

lemma printable_scan_frac: "scan_frac s = (fr, r) \<Longrightarrow> all_printable ascii r \<Longrightarrow> all_printable ascii s"
  using printable_append_digits [of "tl s" ascii]
  by (cases s) (auto simp: scan_frac_def split: if_splits)

lemma printable_scan_exp:
  assumes "scan_exp s = (ex, r)" and "all_printable ascii r"
  shows "all_printable ascii s"
proof (cases s)
  case (Cons c q)
  define sg where "sg = (case q of d # _ \<Rightarrow> if d = CHR ''-'' \<or> d = CHR ''+'' then [d] else [] | [] \<Rightarrow> [])"
  have q: "all_printable ascii (drop (length sg) q) \<Longrightarrow> all_printable ascii q"
    by (cases q) (auto simp: sg_def split: if_splits)
  have d: "all_printable ascii (dropWhile is_digit (drop (length sg) q)) \<Longrightarrow> all_printable ascii q"
    using printable_append_digits [of "drop (length sg) q" ascii] q by blast
  have c: "c = CHR ''e'' \<or> c = CHR ''E'' \<Longrightarrow> printable ascii c" by auto
  show ?thesis
    using assms Cons c d by (auto simp: scan_exp_def sg_def [symmetric] Let_def split: if_splits)
qed (simp add: printable_def)

lemma printable_scan_number:
  assumes "scan_number pf s = Some (v, r)" and "all_printable ascii r"
  shows "all_printable ascii s"
proof -
  obtain sg s1 where sg: "scan_sign s = (sg, s1)" by fastforce
  obtain ds r1 where ds: "scan_nat s1 = Some (ds, r1)"
    using assms(1) sg by (auto simp: scan_number_def split: option.splits)
  obtain fr r2 ex r3 where fr: "scan_frac r1 = (fr, r2)" "scan_exp r2 = (ex, r3)" by fastforce
  have r: "r = (if fr = [] \<and> ex = [] then r1 else r3)"
    using assms(1) sg ds fr by (cases "fr = []"; cases "ex = []") (simp_all add: scan_number_def)
  have "r2 = r1" if "fr = []"
    using fr(1) that by (cases r1) (simp_all add: scan_frac_def split: if_splits)
  moreover have "r3 = r2" if "ex = []"
    using fr(2) that by (cases r2) (simp_all add: scan_exp_def Let_def split: if_splits)
  ultimately have "all_printable ascii r3" using assms(2) r by (auto split: if_splits)
  then have "all_printable ascii s1"
    by (intro printable_scan_nat [OF ds] printable_scan_frac [OF fr(1)] printable_scan_exp [OF fr(2)])
  then show ?thesis using sg by (cases s) (auto simp: scan_sign_def split: if_splits)
qed

lemma printable_float: "float_ok pf t \<Longrightarrow> all_printable ascii t"
proof -
  assume "float_ok pf t"
  then consider "t = ''NaN''" | "t = ''Infinity''" | "t = ''-Infinity''"
    | "scan_number pf t = Some (JFloat t, [])"
    unfolding float_ok_def by blast
  then show ?thesis
  proof cases
    case 4
    then show ?thesis by (rule printable_scan_number) simp
  qed simp_all
qed

lemma printable_esc_char: "of_char c < (127 :: nat) \<or> \<not> ascii \<Longrightarrow> all_printable ascii (esc_char c)"
proof -
  assume "of_char c < (127 :: nat) \<or> \<not> ascii"
  then have "\<not> of_char c < (32 :: nat) \<Longrightarrow> printable ascii c" by (auto simp: printable_def Let_def)
  then show ?thesis unfolding esc_char_def Let_def by (simp add: u_escape_def printable_hex4)
qed

lemma printable_escape_ascii: "all_printable True (escape_ascii s)"
proof (induction s rule: escape_ascii.induct)
  case (1 s)
  have "all_printable True (esc_cp cp)" for cp
  proof (cases "cp < 127")
    case True
    then have "of_char (byte cp) < (127 :: nat)" by (simp add: byte_def)
    with True show ?thesis using printable_esc_char [of "byte cp" True] by (simp add: esc_cp_def)
  next
    case False
    then show ?thesis by (simp add: esc_cp_def u_escape_def printable_hex4 ball_Un)
  qed
  with 1 show ?case by (subst escape_ascii.simps) (auto split: option.split dest: sym)
qed

lemma printable_quote: "all_printable ascii (py_quote ascii s)"
  using printable_escape_ascii printable_esc_char [where ascii = False]
  by (cases ascii) (auto simp: py_quote_def)

lemma printable_join: "(\<forall>s\<in>set ss. all_printable ascii s) \<Longrightarrow> all_printable ascii (join_commas ss)"
  by (induction ss rule: join_commas.induct) auto

lemma dumps_printable: "json_ok pf ascii v \<Longrightarrow> all_printable ascii (dumps ascii v)"
proof (induction v rule: json.induct)
  case (JList vs)
  then show ?case using printable_join [of "map (dumps ascii) vs" ascii] by auto
next
  case (JObj kvs)
  have "all_printable ascii (py_quote ascii k @ CHR '':'' # dumps ascii v)" if "(k, v) \<in> set kvs" for k v
    using that JObj printable_quote [of ascii k] by (fastforce simp: snds.simps)
  then have "all_printable ascii (join_commas (map (\<lambda>(k, v). py_quote ascii k @ CHR '':'' # dumps ascii v) (sort_key fst kvs)))"
    by (intro printable_join) auto
  then show ?case by (simp only: dumps_obj) auto
qed (simp_all add: printable_int printable_float printable_quote)

end
