(* ===== verification/Manifest_Store.thy ===== *)
theory Manifest_Store
  imports Os_Files Json Model
begin

text \<open>
  \<open>AtomicManifestStore\<close> (\<open>src/resumable_batch/stores/base.py\<close>): the manifest as the source of
  truth, the binding of every payload file to its manifest entry, and the public operations
  \<open>has\<close>, \<open>load\<close>, \<open>commit\<close>, \<open>load_all\<close>, \<open>iter_results\<close> and \<open>cleanup\<close>. The methods a
  concrete store overrides are the record \<open>hooks\<close>; the same record carries the functions of
  the standard library whose values the store only compares: SHA-256, the text of a parsed
  float and the text \<open>str\<close> gives a list or a dict.
\<close>

type_synonym meta = "(string, string) dict"
type_synonym entry = "(string, json) dict"

record 'r hooks =
  suffix :: string
  canonical_bytes :: "'r \<Rightarrow> string result"
  record_count :: "'r \<Rightarrow> int"
  write_body :: "'r \<Rightarrow> meta \<Rightarrow> string \<times> unit result"
  read_body :: "string \<Rightarrow> ('r \<times> meta) option"
  validate_structure :: "'r \<Rightarrow> meta \<Rightarrow> bool result"
  validate_commit :: "'r \<Rightarrow> unit result"
  commit_extra_meta :: "'r \<Rightarrow> meta result"
  sha256_hex :: "string \<Rightarrow> string"
  float_repr :: "string \<Rightarrow> string"
  container_str :: "json \<Rightarrow> string"

record store =
  fingerprint :: string
  entries :: "(string, entry) dict"

section \<open>Keys and paths\<close>

definition key_char :: "char \<Rightarrow> bool" where
  \<comment> \<open>\<open>[A-Za-z0-9]\<close>\<close>
  "key_char c \<longleftrightarrow>
     (let n = of_char c :: nat in
      (48 \<le> n \<and> n \<le> 57) \<or> (65 \<le> n \<and> n \<le> 90) \<or> (97 \<le> n \<and> n \<le> 122))"

definition is_safe_key :: "string \<Rightarrow> bool" where
  "is_safe_key k \<longleftrightarrow>
     k \<notin> {''.'', ''..''} \<and> CHR ''/'' \<notin> set k \<and> bslash \<notin> set k \<and>
     (case k of [] \<Rightarrow> False
      | c # cs \<Rightarrow> key_char c \<and>
          list_all (\<lambda>d. key_char d \<or> d \<in> {CHR ''.'', CHR ''_'', CHR ''-''}) cs)"

definition unsafe_key :: "string \<Rightarrow> exn" where
  "unsafe_key k = Exn PyValueError (''unsafe content_key '' @ k)"

definition path_for :: "'r hooks \<Rightarrow> string \<Rightarrow> string result" where
  "path_for h k =
     (if is_safe_key k then Inr (k @ suffix h) else Inl (unsafe_key k))"

section \<open>Reading entries\<close>

definition entry_get :: "entry \<Rightarrow> string \<Rightarrow> json option" where
  \<comment> \<open>\<open>entry.get(field)\<close>: a JSON null is Python's None, as a missing field is\<close>
  "entry_get e f = (case dict_get e f of Some JNull \<Rightarrow> None | x \<Rightarrow> x)"

fun py_str :: "(json \<Rightarrow> string) \<Rightarrow> json option \<Rightarrow> string" where
  \<comment> \<open>\<open>str(x)\<close>\<close>
  "py_str cs None = ''None''"
| "py_str cs (Some JNull) = ''None''"
| "py_str cs (Some (JBool b)) = (if b then ''True'' else ''False'')"
| "py_str cs (Some (JInt i)) = int_repr i"
| "py_str cs (Some (JFloat t)) = t"
| "py_str cs (Some (JStr s)) = s"
| "py_str cs (Some v) = cs v"

definition required_fields :: "string list" where
  "required_fields = [''payload_hash'', ''generation_id'', ''result_digest'']"

definition is_str :: "json option \<Rightarrow> bool" where
  "is_str x = (case x of Some (JStr _) \<Rightarrow> True | _ \<Rightarrow> False)"

definition entry_well_formed :: "string \<times> json \<Rightarrow> bool" where
  "entry_well_formed kv =
     (is_safe_key (fst kv) \<and>
      (case snd kv of
         JObj e \<Rightarrow> list_all (\<lambda>f. is_str (dict_get e f)) required_fields
       | _ \<Rightarrow> False))"

definition entries_well_formed :: "(string \<times> json) list \<Rightarrow> bool" where
  "entries_well_formed kvs = list_all entry_well_formed kvs"

definition obj_fields :: "json \<Rightarrow> entry" where
  "obj_fields v = (case v of JObj e \<Rightarrow> e | _ \<Rightarrow> [])"

definition equals_int :: "json option \<Rightarrow> int \<Rightarrow> bool" where
  \<comment> \<open>\<open>x == i\<close>: an equal float is equal too\<close>
  "equals_int x i =
     (case x of Some (JInt j) \<Rightarrow> i = j | Some (JFloat t) \<Rightarrow> t = int_repr i @ ''.0'' | _ \<Rightarrow> False)"

section \<open>Manifest lifecycle\<close>

definition manifest_doc :: "store \<Rightarrow> json" where
  "manifest_doc st =
     JObj [(''schema_version'', JInt SCHEMA_VERSION),
           (''fingerprint'', JStr (fingerprint st)),
           (''entries'', JObj (map (\<lambda>(k, e). (k, JObj e)) (entries st)))]"

definition write_manifest :: "store \<Rightarrow> unit act" where
  "write_manifest st =
     bind_act (tmp_name MANIFEST_NAME) (\<lambda>tmp.
       then_act (fs_write tmp (dumps True (manifest_doc st)))
         (atomic_replace_file tmp MANIFEST_NAME))"

fun unlink_each :: "string list \<Rightarrow> unit act" where
  "unlink_each [] = ret ()"
| "unlink_each (n # ns) = then_act (catch_OSError (fs_unlink n) (ret ())) (unlink_each ns)"

definition wipe_tree :: "unit act" where
  \<comment> \<open>an error of \<open>iterdir\<close> is raised, one of \<open>unlink\<close> is ignored\<close>
  "wipe_tree = bind_act fs_listdir (\<lambda>ns. unlink_each (map fst (filter (\<lambda>(n, x). x \<noteq> SubDir) ns)))"

definition is_tmp_name :: "string \<Rightarrow> bool" where
  \<comment> \<open>the glob \<open>*.tmp.*\<close>, where case matters\<close>
  "is_tmp_name n = sublist ''.tmp.'' n"

definition sweep_orphan_tmps :: "unit act" where
  "sweep_orphan_tmps s = unlink_each (filter is_tmp_name (map fst (files s))) s"

definition parse_manifest :: "'r hooks \<Rightarrow> string \<Rightarrow> string \<Rightarrow> (string, entry) dict option" where
  \<comment> \<open>the entries of a manifest text that is valid for the fingerprint\<close>
  "parse_manifest h fp txt =
     (if \<not> utf8_ok txt then None
      else case loads (float_repr h) txt of
        Some (JObj raw) \<Rightarrow>
          if entry_get raw ''fingerprint'' \<noteq> Some (JStr fp)
             \<or> \<not> equals_int (entry_get raw ''schema_version'') SCHEMA_VERSION then None
          else (case entry_get raw ''entries'' of
                  Some (JObj es) \<Rightarrow>
                    if entries_well_formed es then Some (map (\<lambda>(k, v). (k, obj_fields v)) es) else None
                | _ \<Rightarrow> None)
      | _ \<Rightarrow> None)"

definition read_manifest :: "'r hooks \<Rightarrow> string \<Rightarrow> (string, entry) dict option act" where
  "read_manifest h fp s =
     (case file_at s MANIFEST_NAME of
        None \<Rightarrow> (Inr None, s)
      | Some _ \<Rightarrow>
          catch_OSError (bind_act (fs_read MANIFEST_NAME) (\<lambda>t. ret (parse_manifest h fp t))) (ret None) s)"

definition load_or_invalidate_manifest :: "'r hooks \<Rightarrow> string \<Rightarrow> store act" where
  "load_or_invalidate_manifest h fp =
     bind_act (read_manifest h fp) (\<lambda>m.
       case m of
         Some es \<Rightarrow> ret \<lparr>fingerprint = fp, entries = es\<rparr>
       | None \<Rightarrow>
           then_act wipe_tree
             (then_act (write_manifest \<lparr>fingerprint = fp, entries = []\<rparr>)
               (ret \<lparr>fingerprint = fp, entries = []\<rparr>)))"

definition mkdir :: "unit act" where
  "mkdir = syscall nothing_partial (\<lambda>s. (Inr (), s\<lparr>dir_exists := True\<rparr>))"

definition open_store :: "'r hooks \<Rightarrow> bool option \<Rightarrow> string \<Rightarrow> store act" where
  \<comment> \<open>\<open>__init__\<close>; the lock is absent, or present and held or not\<close>
  "open_store h lock fp =
     (if lock \<noteq> Some True then raise (Exn PyRuntimeError ''AtomicManifestStore requires a HELD run()-scope lock'')
      else if fp = [] then raise (Exn PyValueError ''store requires a non-empty fingerprint'')
      else then_act mkdir
        (bind_act (load_or_invalidate_manifest h fp) (\<lambda>st. then_act sweep_orphan_tmps (ret st))))"

section \<open>Verification of a payload\<close>

datatype status = Ok | Miss

definition digest_info :: "'r hooks \<Rightarrow> 'r \<Rightarrow> (string \<times> int \<times> int) result" where
  "digest_info h r =
     (case canonical_bytes h r of
        Inl e \<Rightarrow> Inl e
      | Inr body \<Rightarrow> Inr (sha256_hex h body, int (length body), record_count h r))"

definition collision :: "string \<Rightarrow> exn" where
  "collision k = Exn ContentKeyCollisionError (''content_key '' @ k)"

definition check :: "'r hooks \<Rightarrow> string \<Rightarrow> string \<Rightarrow> string \<Rightarrow> 'r \<Rightarrow> meta \<Rightarrow> entry \<Rightarrow> status result" where
  "check h fp ck expected r m e =
     (case dict_get m ''payload_hash'' of
        None \<Rightarrow> Inr Miss
      | Some stored \<Rightarrow>
          if stored \<noteq> expected then Inl (collision ck)
          else if dict_get m ''content_key'' \<noteq> Some ck then Inr Miss
          else if dict_get m ''fingerprint'' \<noteq> Some fp then Inr Miss
          else if dict_get m ''schema_version'' \<noteq> Some (int_repr SCHEMA_VERSION) then Inr Miss
          else (case validate_structure h r m of
                  Inl x \<Rightarrow> Inl x
                | Inr False \<Rightarrow> Inr Miss
                | Inr True \<Rightarrow>
                    (case digest_info h r of
                       Inl x \<Rightarrow> Inl x
                     | Inr (digest, byte_len, count) \<Rightarrow>
                         if dict_get m ''result_digest'' \<noteq> Some digest then Inr Miss
                         else if dict_get m ''byte_len'' \<noteq> Some (int_repr byte_len) then Inr Miss
                         else if dict_get m ''record_count'' \<noteq> Some (int_repr count) then Inr Miss
                         else if map_option JStr (dict_get m ''generation_id'') \<noteq> entry_get e ''generation_id''
                           then Inr Miss
                         else if map_option JStr (dict_get m ''result_digest'') \<noteq> entry_get e ''result_digest''
                           then Inr Miss
                         else if py_str (container_str h) (entry_get e ''byte_len'') \<noteq> int_repr byte_len then Inr Miss
                         else if py_str (container_str h) (entry_get e ''record_count'') \<noteq> int_repr count then Inr Miss
                         else Inr Ok)))"

definition read_file :: "'r hooks \<Rightarrow> string \<Rightarrow> ('r \<times> meta) option act" where
  \<comment> \<open>\<open>_read_file\<close>: None when the file is missing, unreadable or corrupt\<close>
  "read_file h path = catch_OSError (bind_act (fs_read path) (\<lambda>b. ret (read_body h b))) (ret None)"

section \<open>The public operations\<close>

definition cached_keys :: "store \<Rightarrow> string set" where
  "cached_keys st = dict_keys (entries st)"

definition has :: "'r hooks \<Rightarrow> store \<Rightarrow> string \<Rightarrow> string \<Rightarrow> bool act" where
  "has h st ck expected s =
     (case dict_get (entries st) ck of
        None \<Rightarrow> (Inr False, s)
      | Some e \<Rightarrow>
          if entry_get e ''payload_hash'' \<noteq> Some (JStr expected) then (Inl (collision ck), s)
          else (case path_for h ck of
            Inl x \<Rightarrow> (Inl x, s)
          | Inr path \<Rightarrow>
              if file_at s path = None then (Inr False, s)
              else bind_act (read_file h path) (\<lambda>rd.
                case rd of
                  None \<Rightarrow> ret False
                | Some (r, m) \<Rightarrow>
                    (case check h (fingerprint st) ck expected r m e of
                       Inl x \<Rightarrow> raise x
                     | Inr v \<Rightarrow> ret (v = Ok))) s))"

definition uncommitted :: "string \<Rightarrow> exn" where
  "uncommitted k = Exn PyRuntimeError (''load() on uncommitted key '' @ k)"

definition unreadable :: "string \<Rightarrow> exn" where
  "unreadable k = Exn PyRuntimeError (''checkpoint unreadable '' @ k)"

definition stale :: "string \<Rightarrow> exn" where
  "stale k = Exn PyRuntimeError (''checkpoint failed identity validation '' @ k)"

definition load :: "'r hooks \<Rightarrow> store \<Rightarrow> string \<Rightarrow> string \<Rightarrow> 'r act" where
  "load h st ck expected =
     (case dict_get (entries st) ck of
        None \<Rightarrow> raise (uncommitted ck)
      | Some e \<Rightarrow>
          if entry_get e ''payload_hash'' \<noteq> Some (JStr expected) then raise (collision ck)
          else (case path_for h ck of
            Inl x \<Rightarrow> raise x
          | Inr path \<Rightarrow>
              bind_act (read_file h path) (\<lambda>rd.
                case rd of
                  None \<Rightarrow> raise (unreadable ck)
                | Some (r, m) \<Rightarrow>
                    (case check h (fingerprint st) ck expected r m e of
                       Inl x \<Rightarrow> raise x
                     | Inr Ok \<Rightarrow> ret r
                     | Inr Miss \<Rightarrow>
                         raise (stale ck)))))"

definition commit_meta :: "store \<Rightarrow> string \<Rightarrow> string \<Rightarrow> string \<Rightarrow> int \<Rightarrow> int \<Rightarrow> string \<Rightarrow> meta \<Rightarrow> meta" where
  "commit_meta st ck ph digest byte_len count gen extra =
     dict_update
       [(''content_key'', ck), (''payload_hash'', ph), (''fingerprint'', fingerprint st),
        (''schema_version'', int_repr SCHEMA_VERSION), (''result_digest'', digest),
        (''byte_len'', int_repr byte_len), (''record_count'', int_repr count),
        (''generation_id'', gen)] extra"

definition commit_entry :: "string \<Rightarrow> string \<Rightarrow> int \<Rightarrow> int \<Rightarrow> string \<Rightarrow> string \<Rightarrow> meta \<Rightarrow> entry" where
  "commit_entry ph digest byte_len count gen now extra =
     dict_update
       [(''payload_hash'', JStr ph), (''schema_version'', JInt SCHEMA_VERSION),
        (''result_digest'', JStr digest), (''byte_len'', JInt byte_len),
        (''record_count'', JInt count), (''generation_id'', JStr gen),
        (''committed_at'', JFloat now)] (map (\<lambda>(k, v). (k, JStr v)) extra)"

definition lift_result :: "'a result \<Rightarrow> 'a act" where
  "lift_result r s = (r, s)"

definition write_file :: "'r hooks \<Rightarrow> string \<Rightarrow> 'r \<Rightarrow> meta \<Rightarrow> unit act" where
  \<comment> \<open>\<open>_write_file\<close>: the bytes the writer put in the file, then what it raised, if it did\<close>
  "write_file h tmp r m =
     then_act (fs_write tmp (fst (write_body h r m))) (lift_result (snd (write_body h r m)))"

definition write_payload :: "'r hooks \<Rightarrow> store \<Rightarrow> string \<Rightarrow> string \<Rightarrow> 'r \<Rightarrow> entry act" where
  \<comment> \<open>\<open>commit\<close> up to the manifest: validate, digest, write and replace the payload file; the
    entry that will vouch for it\<close>
  "write_payload h st ck ph r =
     then_act (lift_result (validate_commit h r))
     (bind_act (lift_result (digest_info h r)) (\<lambda>(digest, byte_len, count).
      bind_act uuid4_hex (\<lambda>gen.
      bind_act (lift_result (commit_extra_meta h r)) (\<lambda>extra.
      bind_act (lift_result (path_for h ck)) (\<lambda>final.
      bind_act (tmp_name final) (\<lambda>tmp.
      then_act (write_file h tmp r (commit_meta st ck ph digest byte_len count gen extra))
      (then_act (atomic_replace_file tmp final)
      (bind_act time_time (\<lambda>now.
        ret (commit_entry ph digest byte_len count gen now extra))))))))))"

definition publish :: "store \<Rightarrow> string \<Rightarrow> entry \<Rightarrow> os \<Rightarrow> unit result \<times> store \<times> os" where
  \<comment> \<open>the manifest commit, with the rollback of the entry when it raises\<close>
  "publish st ck e s =
     (let prior = dict_get (entries st) ck;
          st' = st\<lparr>entries := dict_set ck e (entries st)\<rparr>
      in case write_manifest st' s of
           (Inr u, s') \<Rightarrow> (Inr (), st', s')
         | (Inl x, s') \<Rightarrow>
             (Inl x,
              if is_Exception x then
                (case prior of
                   None \<Rightarrow> st'\<lparr>entries := dict_pop ck (entries st')\<rparr>
                 | Some p \<Rightarrow> st'\<lparr>entries := dict_set ck p (entries st')\<rparr>)
              else st',
              s'))"

definition commit :: "'r hooks \<Rightarrow> store \<Rightarrow> string \<Rightarrow> string \<Rightarrow> 'r \<Rightarrow> os \<Rightarrow> unit result \<times> store \<times> os" where
  "commit h st ck ph r s =
     (case write_payload h st ck ph r s of
        (Inl x, s') \<Rightarrow> (Inl x, st, s')
      | (Inr e, s') \<Rightarrow> publish st ck e s')"

datatype key_arg = KeyMap "(string, string) dict" | KeySet "string list"

definition pairs :: "store \<Rightarrow> key_arg \<Rightarrow> (string \<times> string) list" where
  \<comment> \<open>\<open>_pairs\<close>: sorted (key, hash) pairs; a set of keys takes the manifest's hashes\<close>
  "pairs st arg =
     (case arg of
        KeyMap d \<Rightarrow> sort d
      | KeySet ks \<Rightarrow>
          sort (map (\<lambda>k. (k, case dict_get (entries st) k of
                               None \<Rightarrow> []
                             | Some e \<Rightarrow> (case dict_get e ''payload_hash'' of Some (JStr x) \<Rightarrow> x | _ \<Rightarrow> []))) ks))"

fun load_each :: "'r hooks \<Rightarrow> store \<Rightarrow> (string \<times> string) list \<Rightarrow> 'r list act" where
  "load_each h st [] = ret []"
| "load_each h st ((k, x) # ks) =
     bind_act (load h st k x) (\<lambda>r. bind_act (load_each h st ks) (\<lambda>rs. ret (r # rs)))"

definition load_all :: "'r hooks \<Rightarrow> store \<Rightarrow> key_arg \<Rightarrow> 'r list act" where
  "load_all h st arg = load_each h st (pairs st arg)"

definition iter_results :: "'r hooks \<Rightarrow> store \<Rightarrow> key_arg \<Rightarrow> 'r act list" where
  \<comment> \<open>the generator: one load per pair, performed as the consumer asks for it\<close>
  "iter_results h st arg = map (\<lambda>(k, x). load h st k x) (pairs st arg)"

fun remove_each :: "string list \<Rightarrow> unit act" where
  "remove_each [] = ret ()"
| "remove_each (n # ns) =
     then_act
       (catch_OSError
         (syscall nothing_partial (\<lambda>s. (Inr (), s\<lparr>files := dict_pop n (files s)\<rparr>))) (ret ()))
       (remove_each ns)"

definition cleanup :: "unit act" where
  \<comment> \<open>\<open>shutil.rmtree(cache_dir, ignore_errors=True)\<close>\<close>
  "cleanup s =
     then_act (remove_each (map fst (files s)))
       (catch_OSError
         (syscall nothing_partial
           (\<lambda>s. if files s = [] then (Inr (), s\<lparr>dir_exists := False\<rparr>) else (Inl os_error, s)))
         (ret ())) s"

end
