(* ===== verification/Store_View.thy ===== *)
theory Store_View
  imports Manifest_Store
begin

text \<open>
  What a committed result is, as a function of the files: \<open>vouched h st s k\<close> is the payload
  hash and the result the store would serve for a key, if the manifest entry, the payload file
  and the file's own metadata agree. The public reads are related to it on every branch.
\<close>

definition payload_of :: "'r hooks \<Rightarrow> os \<Rightarrow> string \<Rightarrow> ('r \<times> meta) option" where
  "payload_of h s k =
     (if is_safe_key k then
        (case file_at s (k @ suffix h) of Some (RegFile b) \<Rightarrow> read_body h b | _ \<Rightarrow> None)
      else None)"

definition checked :: "'r hooks \<Rightarrow> string \<Rightarrow> string \<Rightarrow> entry option \<Rightarrow> ('r \<times> meta) option \<Rightarrow> (string \<times> 'r) option" where
  "checked h fp k eo po =
     (case (eo, po) of
        (Some e, Some (r, m)) \<Rightarrow>
          (case entry_get e ''payload_hash'' of
             Some (JStr x) \<Rightarrow> if check h fp k x r m e = Inr Ok then Some (x, r) else None
           | _ \<Rightarrow> None)
      | _ \<Rightarrow> None)"

definition vouched :: "'r hooks \<Rightarrow> store \<Rightarrow> os \<Rightarrow> string \<Rightarrow> (string \<times> 'r) option" where
  "vouched h st s k = checked h (fingerprint st) k (dict_get (entries st) k) (payload_of h s k)"

section \<open>The check\<close>

lemma check_Ok:
  "check h fp ck x r m e = Inr Ok \<longleftrightarrow>
     (\<exists>digest n c. digest_info h r = Inr (digest, n, c) \<and> validate_structure h r m = Inr True \<and>
        dict_get m ''payload_hash'' = Some x \<and> dict_get m ''content_key'' = Some ck \<and>
        dict_get m ''fingerprint'' = Some fp \<and>
        dict_get m ''schema_version'' = Some (int_repr SCHEMA_VERSION) \<and>
        dict_get m ''result_digest'' = Some digest \<and> dict_get m ''byte_len'' = Some (int_repr n) \<and>
        dict_get m ''record_count'' = Some (int_repr c) \<and>
        map_option JStr (dict_get m ''generation_id'') = entry_get e ''generation_id'' \<and>
        entry_get e ''result_digest'' = Some (JStr digest) \<and>
        py_str (container_str h) (entry_get e ''byte_len'') = int_repr n \<and>
        py_str (container_str h) (entry_get e ''record_count'') = int_repr c)"
  by (auto simp: check_def split: option.splits sum.splits bool.splits)

lemma check_collision:
  "check h fp ck x r m e = Inl c \<Longrightarrow>
     (\<exists>y. dict_get m ''payload_hash'' = Some y \<and> y \<noteq> x \<and> c = collision ck) \<or>
     validate_structure h r m = Inl c \<or> canonical_bytes h r = Inl c"
  by (auto simp: check_def digest_info_def split: option.splits sum.splits bool.splits if_splits)

lemma checked_Some:
  "checked h fp k eo po = Some (x, r) \<longleftrightarrow>
     (\<exists>e m. eo = Some e \<and> po = Some (r, m) \<and> entry_get e ''payload_hash'' = Some (JStr x) \<and>
        check h fp k x r m e = Inr Ok)"
  by (auto simp: checked_def split: option.splits prod.splits json.splits if_splits)

lemma vouched_Some:
  "vouched h st s k = Some (x, r) \<longleftrightarrow>
     (\<exists>e m. dict_get (entries st) k = Some e \<and> payload_of h s k = Some (r, m) \<and>
        entry_get e ''payload_hash'' = Some (JStr x) \<and> check h (fingerprint st) k x r m e = Inr Ok)"
  by (simp add: vouched_def checked_Some)

lemma path_for_safe: "path_for h k = Inr p \<longleftrightarrow> is_safe_key k \<and> p = k @ suffix h"
  by (auto simp: path_for_def)

lemma payload_of_keeps:
  "keeps F s s' \<Longrightarrow> k @ suffix h \<notin> F \<Longrightarrow> payload_of h s' k = payload_of h s k"
  by (simp add: payload_of_def keepsD(1))

section \<open>Reading leaves the files alone\<close>

lemma touches_read_file: "touches F (read_file h p)"
  unfolding read_file_def by (intro touches_catch touches_bind touches_read touches_ret)

lemma read_file_outcome:
  assumes "read_file h p s = (r, s')"
  shows "r = Inl killed \<or> r = Inr None \<or>
         (\<exists>b. file_at s p = Some (RegFile b) \<and> r = Inr (read_body h b))"
proof -
  obtain q s1 where q: "fs_read p s = (q, s1)" by fastforce
  have "q = Inl killed \<or> q = Inl os_error \<or> (\<exists>b. file_at s p = Some (RegFile b) \<and> q = Inr b)"
    using q unfolding fs_read_def
    by (cases rule: syscall_cases) (auto split: option.splits node.splits)
  with assms q show ?thesis
    by (auto simp: read_file_def bind_act_def catch_OSError_def ret_def)
qed

lemma read_file_succeeds:
  "fault_free s \<Longrightarrow> file_at s p = Some (RegFile b) \<Longrightarrow> read_file h p s = (Inr (read_body h b), advance s)"
  by (simp add: read_file_def fs_read_def syscall_fault_free bind_act_def catch_OSError_def ret_def)

lemma touches_if: "touches F m \<Longrightarrow> touches F n \<Longrightarrow> touches F (if b then m else n)"
  by simp

lemma touches_has: "touches F (has h st k x)"
proof -
  have "touches F (bind_act (read_file h p) (\<lambda>rd. case rd of None \<Rightarrow> ret False
      | Some (r, m) \<Rightarrow> (case check h (fingerprint st) k x r m e of Inl x \<Rightarrow> raise x | Inr v \<Rightarrow> ret (v = Ok))))"
    for p e
    by (intro touches_bind touches_read_file) (auto split: option.split sum.split)
  then show ?thesis
    by (auto simp: touches_def has_def split: option.split sum.split)
qed

lemma touches_load: "touches F (load h st k x)"
proof -
  have "touches F (bind_act (read_file h p) (\<lambda>rd. case rd of None \<Rightarrow> raise c
      | Some (r, m) \<Rightarrow> (case check h (fingerprint st) k x r m e of Inl x \<Rightarrow> raise x
          | Inr Ok \<Rightarrow> ret r | Inr Miss \<Rightarrow> raise d)))"
    for p e c d
    by (intro touches_bind touches_read_file) (auto split: option.split sum.split status.split)
  then show ?thesis
    by (auto simp: load_def split: option.split sum.split)
qed

section \<open>A hit is a vouched result\<close>

lemma has_outcome:
  assumes "has h st k x s = (Inr b, s')"
  shows "b \<Longrightarrow> \<exists>r. vouched h st s k = Some (x, r)"
proof -
  assume b
  then obtain e where e: "dict_get (entries st) k = Some e" "entry_get e ''payload_hash'' = Some (JStr x)"
      and p: "is_safe_key k"
      and rd: "bind_act (read_file h (k @ suffix h)) (\<lambda>rd. case rd of None \<Rightarrow> ret False
        | Some (r, m) \<Rightarrow> (case check h (fingerprint st) k x r m e of Inl x \<Rightarrow> raise x | Inr v \<Rightarrow> ret (v = Ok))) s
        = (Inr True, s')"
    using assms by (auto simp: has_def path_for_def split: option.splits sum.splits if_splits)
  from rd obtain q s1 where q: "read_file h (k @ suffix h) s = (Inr q, s1)"
      and q2: "(case q of None \<Rightarrow> ret False
        | Some (r, m) \<Rightarrow> (case check h (fingerprint st) k x r m e of Inl x \<Rightarrow> raise x | Inr v \<Rightarrow> ret (v = Ok))) s1
        = (Inr True, s')"
    by (auto simp: bind_act_Inr)
  from q2 obtain r m where rm: "q = Some (r, m)" "check h (fingerprint st) k x r m e = Inr Ok"
    by (auto simp: ret_def raise_def split: option.splits sum.splits)
  from read_file_outcome [OF q] rm(1)
  have "payload_of h s k = Some (r, m)" by (auto simp: payload_of_def p)
  with e rm show ?thesis by (auto simp: vouched_Some)
qed

lemma load_outcome:
  assumes "load h st k x s = (Inr r, s')"
  shows "vouched h st s k = Some (x, r)"
proof -
  from assms obtain e where e: "dict_get (entries st) k = Some e" "entry_get e ''payload_hash'' = Some (JStr x)"
      and p: "is_safe_key k"
    by (auto simp: load_def path_for_def raise_def split: option.splits sum.splits if_splits)
  from assms e p obtain q s1 where q: "read_file h (k @ suffix h) s = (Inr q, s1)"
      and q2: "(case q of None \<Rightarrow> raise (unreadable k)
        | Some (r, m) \<Rightarrow> (case check h (fingerprint st) k x r m e of Inl x \<Rightarrow> raise x | Inr Ok \<Rightarrow> ret r
           | Inr Miss \<Rightarrow> raise (stale k))) s1
        = (Inr r, s')"
    by (auto simp: load_def path_for_def bind_act_Inr)
  from q2 obtain m where rm: "q = Some (r, m)" "check h (fingerprint st) k x r m e = Inr Ok"
    by (auto simp: ret_def raise_def split: option.splits sum.splits status.splits)
  from read_file_outcome [OF q] rm(1)
  have "payload_of h s k = Some (r, m)" by (auto simp: payload_of_def p)
  with e rm show ?thesis by (auto simp: vouched_Some)
qed

section \<open>A vouched result is a hit\<close>

lemma payload_of_Some:
  "payload_of h s k = Some p \<longleftrightarrow>
     (\<exists>b. is_safe_key k \<and> file_at s (k @ suffix h) = Some (RegFile b) \<and> read_body h b = Some p)"
  by (auto simp: payload_of_def split: option.splits node.splits)

lemma has_hit:
  assumes "fault_free s" and "vouched h st s k = Some (x, r)"
  shows "has h st k x s = (Inr True, advance s)"
  using assms
  by (auto simp: vouched_Some payload_of_Some has_def path_for_def bind_act_def read_file_succeeds ret_def)

lemma load_hit:
  assumes "fault_free s" and "vouched h st s k = Some (x, r)"
  shows "load h st k x s = (Inr r, advance s)"
  using assms
  by (auto simp: vouched_Some payload_of_Some load_def path_for_def bind_act_def read_file_succeeds ret_def)

lemma has_collision:
  "dict_get (entries st) k = Some e \<Longrightarrow> entry_get e ''payload_hash'' = Some (JStr y) \<Longrightarrow> y \<noteq> x \<Longrightarrow>
   has h st k x s = (Inl (collision k), s) \<and> load h st k x s = (Inl (collision k), s)"
  by (simp add: has_def load_def raise_def)

end
