(* ===== verification/Store_Commit.thy ===== *)
theory Store_Commit
  imports Store_View
begin

text \<open>
  \<open>commit\<close> step by step: what every system call of it can leave behind, whichever one fails or
  is the last before the process dies, and what the store serves afterwards.
\<close>

section \<open>Temporary names\<close>

definition world_ok :: "os \<Rightarrow> bool" where
  \<comment> \<open>\<open>os.urandom(4)\<close> returns bytes; the text of a time is a float's\<close>
  "world_ok s \<longleftrightarrow> (\<forall>n. urandom_at s n \<noteq> [])"

definition is_hex :: "char \<Rightarrow> bool" where
  "is_hex c \<longleftrightarrow> hex_val c \<noteq> None"

lemma world_ok_touches: "touches F m \<Longrightarrow> m s = (r, s') \<Longrightarrow> world_ok s' = world_ok s"
  by (simp add: world_ok_def touchesD(6))

lemma bytes_hex_not_Nil: "bs \<noteq> [] \<Longrightarrow> bytes_hex bs \<noteq> []"
  by (cases bs) (auto simp: bytes_hex_def)

lemma world_ok_advance [simp]: "world_ok (advance s) = world_ok s"
  by (simp add: world_ok_def)

lemma tmp_name_last:
  assumes "world_ok s"
  obtains t where "tmp_name f s = (Inr t, advance s)" and "t \<noteq> []" and "is_hex (last t)"
proof -
  let ?b = "bytes_hex (urandom_at s (tick s))"
  let ?t = "f @ ''.tmp.'' @ nat_repr (pid s) @ ''.'' @ ?b"
  have b: "?b \<noteq> []" using bytes_hex_not_Nil assms by (simp add: world_ok_def)
  then have "is_hex (last ?b)" using bytes_hex_chars last_in_set unfolding is_hex_def by blast
  with b have "is_hex (last ?t)" "?t \<noteq> []" by simp_all
  then show ?thesis using that [of ?t] by (simp add: tmp_name_def)
qed

definition suffix_ok :: "'r hooks \<Rightarrow> bool" where
  \<comment> \<open>no payload file has the name of the manifest or of a temporary file\<close>
  "suffix_ok h \<longleftrightarrow> suffix h \<noteq> [] \<and> \<not> is_hex (last (suffix h)) \<and> (\<forall>k. k @ suffix h \<noteq> MANIFEST_NAME)"

lemma tmp_not_payload: "suffix_ok h \<Longrightarrow> t \<noteq> [] \<Longrightarrow> is_hex (last t) \<Longrightarrow> t \<noteq> k @ suffix h"
  by (auto simp: suffix_ok_def)

lemma tmp_not_manifest: "is_hex (last t) \<Longrightarrow> t \<noteq> MANIFEST_NAME"
  by (auto simp: MANIFEST_NAME_def is_hex_def hex_val_def Let_def)

section \<open>Replacing a file through a temporary one\<close>

text \<open>
  Both files a commit writes go through the same protocol: write the temporary file, fsync it,
  rename it, fsync the directory.
\<close>

definition via_tmp :: "string \<Rightarrow> unit act \<Rightarrow> string \<Rightarrow> unit act" where
  "via_tmp tmp w final = then_act w (atomic_replace_file tmp final)"

lemma touches_via_tmp: "touches {tmp} w \<Longrightarrow> touches {tmp, final} (via_tmp tmp w final)"
  unfolding via_tmp_def
  by (intro touches_then touches_atomic_replace) (auto intro: touches_mono)

lemma via_tmp_outcome:
  assumes "via_tmp tmp w final s = (r, s')" and "touches {tmp} w" and "tmp \<noteq> final"
    and "\<And>s1. w s = (Inr (), s1) \<Longrightarrow> file_at s1 tmp = Some (RegFile b)"
  shows "(\<exists>s1. w s = (Inr (), s1)) \<and> file_at s' final = Some (RegFile b) \<or>
         (\<exists>e. r = Inl e) \<and> file_at s' final = file_at s final"
proof -
  obtain r1 s1 where w: "w s = (r1, s1)" by fastforce
  have final: "file_at s1 final = file_at s final" using touchesD(1) [OF assms(2) w] assms(3) by auto
  show ?thesis
  proof (cases r1)
    case (Inl e)
    with assms(1) w final show ?thesis by (auto simp: via_tmp_def then_act_def bind_act_def)
  next
    case (Inr u)
    then have "file_at s1 tmp = Some (RegFile b)" using assms(4) w by simp
    moreover have "atomic_replace_file tmp final s1 = (r, s')"
      using assms(1) w Inr by (simp add: via_tmp_def then_act_def bind_act_def)
    ultimately show ?thesis using atomic_replace_outcome [of tmp final s1 r s' b] assms(3) final w Inr by auto
  qed
qed

lemma touches_lift [simp]: "touches F (lift_result r)"
  by (auto simp: touches_def lift_result_def)

lemma touches_write_file: "touches {tmp} (write_file h tmp r m)"
  unfolding write_file_def by (intro touches_then touches_write touches_lift)

lemma write_file_outcome:
  assumes "write_file h tmp r m s = (Inr (), s')"
  shows "snd (write_body h r m) = Inr () \<and> file_at s' tmp = Some (RegFile (fst (write_body h r m)))"
  using assms
  by (auto simp: write_file_def then_act_def bind_act_Inr lift_result_def dest: fs_write_outcome)

section \<open>The manifest file\<close>

lemma write_manifest_outcome:
  assumes "write_manifest st s = (r, s')" and "world_ok s"
  obtains tmp where "keeps {tmp, MANIFEST_NAME} s s'" and "tmp \<noteq> []" and "is_hex (last tmp)"
    and "file_at s' MANIFEST_NAME = Some (RegFile (dumps True (manifest_doc st))) \<or>
         (\<exists>e. r = Inl e) \<and> file_at s' MANIFEST_NAME = file_at s MANIFEST_NAME"
proof -
  obtain t where t: "tmp_name MANIFEST_NAME s = (Inr t, advance s)" "t \<noteq> []" "is_hex (last t)"
    using tmp_name_last [OF assms(2)] by blast
  let ?w = "fs_write t (dumps True (manifest_doc st))"
  have v: "via_tmp t ?w MANIFEST_NAME (advance s) = (r, s')"
    using assms(1) t by (simp add: write_manifest_def via_tmp_def bind_act_def)
  have "keeps {t, MANIFEST_NAME} (advance s) s'"
    using v touches_keeps [OF touches_via_tmp [OF touches_write]] by blast
  then have k: "keeps {t, MANIFEST_NAME} s s'" using keeps_trans keeps_advance by blast
  have "file_at s' MANIFEST_NAME = Some (RegFile (dumps True (manifest_doc st))) \<or>
         (\<exists>e. r = Inl e) \<and> file_at s' MANIFEST_NAME = file_at s MANIFEST_NAME"
    using via_tmp_outcome [OF v touches_write tmp_not_manifest [OF t(3)], of "dumps True (manifest_doc st)"]
      fs_write_outcome by fastforce
  with k t show ?thesis using that by blast
qed

section \<open>The payload file\<close>

definition payload_new :: "'r hooks \<Rightarrow> os \<Rightarrow> store \<Rightarrow> string \<Rightarrow> string \<Rightarrow> 'r \<Rightarrow> entry \<Rightarrow> string \<Rightarrow> bool" where
  \<comment> \<open>\<open>body\<close> is the payload file a commit writes, and \<open>e\<close> the entry that binds it\<close>
  "payload_new h s st k ph r e body \<longleftrightarrow>
     (\<exists>digest n c gen extra now.
        gen \<in> range (uuid4_at s) \<and> now \<in> range (time_at s) \<and> is_safe_key k \<and> validate_commit h r = Inr () \<and> digest_info h r = Inr (digest, n, c) \<and>
        commit_extra_meta h r = Inr extra \<and> e = commit_entry ph digest n c gen now extra \<and>
        write_body h r (commit_meta st k ph digest n c gen extra) = (body, Inr ()))"

lemma run_step [simp]:
  "bind_act (lift_result (Inl e)) f s = (Inl e, s)" "bind_act (lift_result (Inr x)) f s = f x s"
  "then_act (lift_result (Inl e)) m s = (Inl e, s)" "then_act (lift_result (Inr u)) m s = m s"
  by (simp_all add: bind_act_def then_act_def lift_result_def)

lemma then_assoc: "then_act m (then_act n p) s = then_act (then_act m n) p s"
  by (simp add: then_act_def bind_act_def split: prod.split sum.split)

lemma run_uuid4: "bind_act uuid4_hex f s = f (uuid4_at s (tick s)) (advance s)"
  by (simp add: bind_act_def uuid4_hex_def)

lemma write_payload_early:
  assumes "\<not> (\<exists>digest n c extra. validate_commit h r = Inr () \<and> digest_info h r = Inr (digest, n, c) \<and>
        commit_extra_meta h r = Inr extra \<and> is_safe_key k)"
  shows "\<exists>e s1. write_payload h st k ph r s = (Inl e, s1) \<and> s1 \<in> {s, advance s}"
proof (cases "validate_commit h r")
  case (Inr u)
  show ?thesis
  proof (cases "digest_info h r")
    case di: (Inr d)
    show ?thesis
    proof (cases "commit_extra_meta h r")
      case (Inr x)
      with \<open>validate_commit h r = Inr u\<close> di assms have "\<not> is_safe_key k" by (cases d) auto
      with \<open>validate_commit h r = Inr u\<close> di Inr show ?thesis
        by (cases d) (simp add: write_payload_def run_uuid4 path_for_def)
    qed (use Inr di in \<open>cases d, simp add: write_payload_def run_uuid4\<close>)
  qed (use Inr in \<open>simp add: write_payload_def\<close>)
qed (simp add: write_payload_def)

lemma write_payload_outcome:
  assumes "write_payload h st k ph r s = (res, s')" and "world_ok s" and "suffix_ok h"
  obtains tmp where "keeps {tmp, k @ suffix h} s s'" and "tmp \<noteq> []" and "is_hex (last tmp)"
    and "(\<exists>e body. payload_new h s st k ph r e body \<and> file_at s' (k @ suffix h) = Some (RegFile body) \<and>
            (\<forall>x. res = Inr x \<longrightarrow> x = e)) \<or>
         (\<exists>e. res = Inl e) \<and> file_at s' (k @ suffix h) = file_at s (k @ suffix h)"
proof -
  have hex: "''0'' \<noteq> [] \<and> is_hex (last ''0'')" by (simp add: is_hex_def hex_val_def Let_def)
  show ?thesis
  proof (cases "\<exists>digest n c extra. validate_commit h r = Inr () \<and> digest_info h r = Inr (digest, n, c) \<and>
        commit_extra_meta h r = Inr extra \<and> is_safe_key k")
    case False
    have "\<exists>e. res = Inl e" "keeps {''0'', k @ suffix h} s s'" "file_at s' (k @ suffix h) = file_at s (k @ suffix h)"
      using assms(1) write_payload_early [OF False, of st ph s] by auto
    with hex that show ?thesis by blast
  next
    case True
    then obtain digest n c extra where ok: "validate_commit h r = Inr ()" "digest_info h r = Inr (digest, n, c)"
        "commit_extra_meta h r = Inr extra" "is_safe_key k" by blast
    define gen where "gen = uuid4_at s (tick s)"
    define m where "m = commit_meta st k ph digest n c gen extra"
    obtain t where t: "tmp_name (k @ suffix h) (advance s) = (Inr t, advance (advance s))" "t \<noteq> []" "is_hex (last t)"
      using tmp_name_last [of "advance s" "k @ suffix h"] assms(2) by auto
    let ?w = "write_file h t r m"
    obtain r1 s1 where v: "via_tmp t ?w (k @ suffix h) (advance (advance s)) = (r1, s1)" by fastforce
    define rest where "rest = bind_act time_time (\<lambda>now. ret (commit_entry ph digest n c gen now extra))"
    have "write_payload h st k ph r s =
        then_act ?w (then_act (atomic_replace_file t (k @ suffix h)) rest) (advance (advance s))"
      using ok t by (simp add: write_payload_def run_uuid4 path_for_def m_def gen_def rest_def
          bind_act_def [of "tmp_name (k @ suffix h)"])
    then have "write_payload h st k ph r s = then_act (via_tmp t ?w (k @ suffix h)) rest (advance (advance s))"
      by (simp add: then_assoc via_tmp_def)
    then have run: "(res, s') = (case r1 of Inl e \<Rightarrow> (Inl e, s1)
        | Inr u \<Rightarrow> (Inr (commit_entry ph digest n c gen (time_at s1 (tick s1)) extra), advance s1))"
      using assms(1) v by (simp add: then_act_def bind_act_def rest_def time_time_def ret_def split: sum.split)
    have k0: "keeps {t, k @ suffix h} (advance (advance s)) s1"
      by (rule touches_keeps [OF touches_via_tmp [OF touches_write_file] v])
    moreover have "keeps {t, k @ suffix h} s1 s'" and final: "file_at s' = file_at s1"
      using run by (auto split: sum.splits)
    ultimately have k: "keeps {t, k @ suffix h} s s'" using keeps_trans keeps_advance by blast
    from via_tmp_outcome [OF v touches_write_file tmp_not_payload [OF assms(3) t(2,3)], of "fst (write_body h r m)"]
    consider s2 where "?w (advance (advance s)) = (Inr (), s2)"
        "file_at s1 (k @ suffix h) = Some (RegFile (fst (write_body h r m)))"
      | "\<exists>e. r1 = Inl e" "file_at s1 (k @ suffix h) = file_at s (k @ suffix h)"
      using write_file_outcome by fastforce
    then show ?thesis
    proof cases
      case 1
      define e where "e = commit_entry ph digest n c gen (time_at s1 (tick s1)) extra"
      have "time_at s1 = time_at s"
        using keepsD(9) [OF k0] by simp
      then have "gen \<in> range (uuid4_at s)" "time_at s1 (tick s1) \<in> range (time_at s)"
        by (auto simp: gen_def)
      then have "payload_new h s st k ph r e (fst (write_body h r m))"
        using ok write_file_outcome [OF 1(1)] unfolding payload_new_def e_def m_def
        by (metis prod.collapse)
      moreover have "\<forall>x. res = Inr x \<longrightarrow> x = e" using run by (auto simp: e_def split: sum.splits)
      ultimately show ?thesis using that [OF k t(2,3)] 1(2) final by auto
    next
      case 2
      then show ?thesis using that [OF k t(2,3)] run final by auto
    qed
  qed
qed

end
