(* ===== verification/Store_Durable.thy ===== *)
theory Store_Durable
  imports Store_Commit
begin

text \<open>
  The store across process lifetimes. \<open>durable h fp s k\<close> is what a process that opens the
  directory \<open>s\<close> finds for a key. The locale \<open>store_codec\<close> states the contract of a concrete
  store, with \<open>served\<close> for what becomes of a result that is written and read back; inside it, a
  commit interrupted anywhere leaves every other key as it was, and its own key as it was, absent,
  or holding what is served of the new result. \<open>payload_codec\<close> adds the results that are served
  in full. Opening the directory serves exactly
  what is durable, or wipes what is not valid for the fingerprint.
\<close>

section \<open>What the disk holds\<close>

definition disk_entries :: "'r hooks \<Rightarrow> string \<Rightarrow> os \<Rightarrow> (string, entry) dict option" where
  "disk_entries h fp s =
     (case file_at s MANIFEST_NAME of Some (RegFile t) \<Rightarrow> parse_manifest h fp t | _ \<Rightarrow> None)"

definition durable :: "'r hooks \<Rightarrow> string \<Rightarrow> os \<Rightarrow> string \<Rightarrow> (string \<times> 'r) option" where
  \<comment> \<open>the result a process that opens the directory finds for a key\<close>
  "durable h fp s k =
     (case disk_entries h fp s of
        None \<Rightarrow> None
      | Some es \<Rightarrow> checked h fp k (dict_get es k) (payload_of h s k))"

definition norm_entries :: "(string, entry) dict \<Rightarrow> (string, entry) dict" where
  \<comment> \<open>what the sorted keys of the manifest make of the entries\<close>
  "norm_entries es = sort_key fst (map (\<lambda>(k, e). (k, sort_key fst e)) es)"

fun scalar :: "json \<Rightarrow> bool" where
  "scalar (JList vs) = False"
| "scalar (JObj kvs) = False"
| "scalar v = True"

definition entry_ok :: "'r hooks \<Rightarrow> string \<Rightarrow> entry \<Rightarrow> bool" where
  "entry_ok h k e \<longleftrightarrow>
     is_safe_key k \<and> json_ok (float_repr h) True (JObj e) \<and> (\<forall>(f, v)\<in>set e. scalar v) \<and>
     (\<forall>f\<in>set required_fields. is_str (dict_get e f))"

definition manifest_ok :: "'r hooks \<Rightarrow> store \<Rightarrow> bool" where
  "manifest_ok h st \<longleftrightarrow>
     utf8_ok (fingerprint st) \<and> dict_ok (entries st) \<and> (\<forall>(k, e)\<in>set (entries st). entry_ok h k e)"

definition synced :: "'r hooks \<Rightarrow> store \<Rightarrow> os \<Rightarrow> bool" where
  "synced h st s \<longleftrightarrow> disk_entries h (fingerprint st) s = Some (norm_entries (entries st))"

section \<open>The manifest file round-trips\<close>

lemma safe_key_utf8: "is_safe_key k \<Longrightarrow> utf8_ok k"
proof (rule utf8_ok_printable, rule ballI)
  fix c assume k: "is_safe_key k" "c \<in> set k"
  then have "key_char c \<or> c \<in> {CHR ''.'', CHR ''_'', CHR ''-''}"
    by (auto simp: is_safe_key_def list_all_iff split: list.splits)
  then show "printable True c" by (auto simp: key_char_def printable_def Let_def)
qed

lemma jnorm_scalar: "scalar v \<Longrightarrow> jnorm v = v"
  by (cases v) auto

lemma jnorm_entry: "(\<forall>(f, v)\<in>set e. scalar v) \<Longrightarrow> jnorm (JObj e) = JObj (sort_key fst e)"
proof -
  assume "\<forall>(f, v)\<in>set e. scalar v"
  then have "map (\<lambda>(k, v). (k, jnorm v)) e = e"
    by (auto intro!: map_idI simp: jnorm_scalar)
  then show ?thesis by simp
qed

lemma jnorm_entries:
  "(\<forall>(k, e)\<in>set es. \<forall>(f, v)\<in>set e. scalar v) \<Longrightarrow>
   jnorm (JObj (map (\<lambda>(k, e). (k, JObj e)) es)) = JObj (map (\<lambda>(k, e). (k, JObj e)) (norm_entries es))"
proof -
  assume "\<forall>(k, e)\<in>set es. \<forall>(f, v)\<in>set e. scalar v"
  then have "map (\<lambda>(k, v). (k, jnorm v)) (map (\<lambda>(k, e). (k, JObj e)) es)
      = map (\<lambda>(k, e). (k, JObj e)) (map (\<lambda>(k, e). (k, sort_key fst e)) es)"
    by (auto simp del: jnorm.simps simp: jnorm_entry)
  then show ?thesis by (simp only: jnorm.simps norm_entries_def sort_key_map_values)
qed

lemma jnorm_doc:
  "(\<forall>(k, e)\<in>set (entries st). \<forall>(f, v)\<in>set e. scalar v) \<Longrightarrow>
   jnorm (manifest_doc st) =
     JObj [(''entries'', JObj (map (\<lambda>(k, e). (k, JObj e)) (norm_entries (entries st)))),
           (''fingerprint'', JStr (fingerprint st)), (''schema_version'', JInt SCHEMA_VERSION)]"
proof -
  assume "\<forall>(k, e)\<in>set (entries st). \<forall>(f, v)\<in>set e. scalar v"
  from jnorm_entries [OF this] show ?thesis unfolding manifest_doc_def
    by (subst jnorm.simps) (simp add: less_eq_char_def less_char_def del: jnorm.simps(2))
qed

lemma manifest_ok_scalar:
  "manifest_ok h st \<Longrightarrow> \<forall>(k, e)\<in>set (entries st). \<forall>(f, v)\<in>set e. scalar v"
  by (auto simp: manifest_ok_def entry_ok_def)

lemma map_values_keys: "map fst (map (\<lambda>(k, v). (k, f v)) d) = map fst d"
  by (induction d) auto

lemma manifest_doc_ok: "manifest_ok h st \<Longrightarrow> json_ok (float_repr h) True (manifest_doc st)"
proof -
  assume ok: "manifest_ok h st"
  then have "\<forall>(k, v)\<in>set (map (\<lambda>(k, e). (k, JObj e)) (entries st)). utf8_ok k \<and> json_ok (float_repr h) True v"
    using safe_key_utf8 by (fastforce simp: manifest_ok_def entry_ok_def simp del: json_ok.simps)
  moreover have "dict_ok (map (\<lambda>(k, e). (k, JObj e)) (entries st))"
    using ok by (simp only: map_values_keys manifest_ok_def)
  ultimately have "json_ok (float_repr h) True (JObj (map (\<lambda>(k, e). (k, JObj e)) (entries st)))"
    by (simp only: json_ok.simps) auto
  moreover have "utf8_ok ''schema_version''" "utf8_ok ''fingerprint''" "utf8_ok ''entries''"
    by (simp_all add: utf8_ok_printable printable_def)
  ultimately show ?thesis
    using ok unfolding manifest_doc_def manifest_ok_def
    by (subst json_ok.simps) (simp del: json_ok.simps(4))
qed

lemma norm_entries_get:
  assumes "dict_ok es"
  shows "dict_get (norm_entries es) k = map_option (sort_key fst) (dict_get es k)"
proof -
  have "dict_ok (map (\<lambda>(k, e). (k, sort_key fst e)) es)" using assms by (simp only: map_values_keys)
  then show ?thesis unfolding norm_entries_def
    by (simp add: dict_get_sort_key map_of_map)
qed

lemma norm_entries_in: "(k, e) \<in> set (norm_entries es) \<Longrightarrow> \<exists>e0. (k, e0) \<in> set es \<and> e = sort_key fst e0"
  by (auto simp: norm_entries_def)

lemma norm_entries_keys: "dict_keys (norm_entries es) = dict_keys es"
  by (force simp: norm_entries_def)

lemma norm_entries_idem: "norm_entries (norm_entries es) = norm_entries es"
proof -
  have "map (\<lambda>(k, e). (k, sort_key fst e)) (norm_entries es) = norm_entries es"
    by (intro map_idI) (auto dest!: norm_entries_in simp: sort_key_id_if_sorted)
  then show ?thesis unfolding norm_entries_def [of "norm_entries es"]
    by (simp add: norm_entries_def sort_key_id_if_sorted)
qed

lemma entry_get_sort: "dict_ok e \<Longrightarrow> entry_get (sort_key fst e) = entry_get e"
  by (simp add: entry_get_def fun_eq_iff dict_get_sort_key)

lemma entry_ok_dict: "entry_ok h k e \<Longrightarrow> dict_ok e"
  by (simp add: entry_ok_def)

lemma entry_ok_norm: "entry_ok h k e \<Longrightarrow> entry_ok h k (sort_key fst e)"
  by (auto simp: entry_ok_def dict_get_sort_key dict_ok_sort_key)

lemma entry_ok_well_formed: "entry_ok h k e \<Longrightarrow> entry_well_formed (k, JObj e)"
  by (simp add: entry_ok_def entry_well_formed_def list_all_iff)

lemma manifest_ok_norm:
  assumes "manifest_ok h st"
  shows "manifest_ok h (st\<lparr>entries := norm_entries (entries st)\<rparr>)"
proof -
  have "dict_ok (map (\<lambda>(k, e). (k, sort_key fst e)) (entries st))"
    using assms by (simp only: map_values_keys manifest_ok_def)
  then have "dict_ok (norm_entries (entries st))" unfolding norm_entries_def by (rule dict_ok_sort_key)
  with assms show ?thesis
    by (auto simp: manifest_ok_def dest!: norm_entries_in intro: entry_ok_norm)
qed

lemma parse_manifest_doc:
  assumes "manifest_ok h st"
  shows "parse_manifest h (fingerprint st) (dumps True (manifest_doc st)) = Some (norm_entries (entries st))"
proof -
  let ?t = "dumps True (manifest_doc st)" and ?es = "map (\<lambda>(k, e). (k, JObj e)) (norm_entries (entries st))"
  have ok: "json_ok (float_repr h) True (manifest_doc st)" by (rule manifest_doc_ok) fact
  have "utf8_ok ?t" by (intro utf8_ok_printable dumps_printable) (rule ok)
  moreover have "loads (float_repr h) ?t = Some (jnorm (manifest_doc st))" using ok by (rule loads_dumps)
  moreover have "entries_well_formed ?es"
    using manifest_ok_norm [OF assms] entry_ok_well_formed
    by (fastforce simp: entries_well_formed_def list_all_iff manifest_ok_def)
  moreover have "map (\<lambda>(k, v). (k, obj_fields v)) ?es = norm_entries (entries st)"
    by (auto simp: obj_fields_def comp_def case_prod_unfold)
  ultimately show ?thesis
    unfolding parse_manifest_def jnorm_doc [OF manifest_ok_scalar [OF assms]]
    by (simp add: entry_get_def equals_int_def)
qed

section \<open>The check depends on an entry through its fields\<close>

lemma check_cong: "entry_get e = entry_get e' \<Longrightarrow> check h fp k x r m e = check h fp k x r m e'"
  unfolding check_def by (simp only:)

lemma checked_cong:
  "rel_option (\<lambda>e e'. entry_get e = entry_get e') eo eo' \<Longrightarrow> checked h fp k eo po = checked h fp k eo' po"
  by (auto simp: checked_def option_rel_Some1 cong: check_cong split: option.split json.split)

lemma manifest_ok_entry: "manifest_ok h st \<Longrightarrow> dict_get (entries st) k = Some e \<Longrightarrow> entry_ok h k e"
  by (auto simp: manifest_ok_def dest: dict_get_in)

lemma checked_norm:
  assumes "manifest_ok h st"
  shows "checked h fp k (dict_get (norm_entries (entries st)) k) po = checked h fp k (dict_get (entries st) k) po"
proof (rule checked_cong)
  show "rel_option (\<lambda>e e'. entry_get e = entry_get e')
     (dict_get (norm_entries (entries st)) k) (dict_get (entries st) k)"
    using assms
    by (cases "dict_get (entries st) k")
      (auto simp: norm_entries_get manifest_ok_def intro!: entry_get_sort
        intro: entry_ok_dict manifest_ok_entry [OF assms])
qed

lemma synced_durable:
  "manifest_ok h st \<Longrightarrow> synced h st s \<Longrightarrow> durable h (fingerprint st) s k = vouched h st s k"
  by (simp add: durable_def synced_def vouched_def checked_norm)

lemma disk_entries_written:
  "manifest_ok h st \<Longrightarrow> file_at s MANIFEST_NAME = Some (RegFile (dumps True (manifest_doc st))) \<Longrightarrow>
   synced h st s"
  by (simp add: disk_entries_def synced_def parse_manifest_doc)

lemma disk_entries_keeps:
  "file_at s' MANIFEST_NAME = file_at s MANIFEST_NAME \<Longrightarrow> disk_entries h fp s' = disk_entries h fp s"
  by (simp add: disk_entries_def)


section \<open>The contract of a concrete store\<close>

definition reserved_fields :: "string set" where
  "reserved_fields =
     {''content_key'', ''payload_hash'', ''fingerprint'', ''schema_version'', ''result_digest'',
      ''byte_len'', ''record_count'', ''generation_id'', ''committed_at''}"

definition clock_ok :: "'r hooks \<Rightarrow> os \<Rightarrow> bool" where
  \<comment> \<open>\<open>uuid4().hex\<close> and \<open>hexdigest()\<close> are text, and a time is written as a float is\<close>
  "clock_ok h s \<longleftrightarrow>
     world_ok s \<and> (\<forall>n. utf8_ok (uuid4_at s n) \<and> float_ok (float_repr h) (time_at s n)) \<and>
     (\<forall>b. utf8_ok (sha256_hex h b))"

definition carries :: "meta \<Rightarrow> meta \<Rightarrow> bool" where
  "carries m' m \<longleftrightarrow> (\<forall>f v. dict_get m f = Some v \<longrightarrow> dict_get m' f = Some v)"

lemma manifest_ok_insert:
  assumes "manifest_ok h st" and "entry_ok h k e"
  shows "manifest_ok h (st\<lparr>entries := dict_set k e (entries st)\<rparr>)"
  using assms by (auto simp: manifest_ok_def dest!: dict_set_values)

lemma durable_cong:
  "disk_entries h fp s' = disk_entries h fp s \<Longrightarrow> payload_of h s' k = payload_of h s k \<Longrightarrow>
   durable h fp s' k = durable h fp s k"
  unfolding durable_def by (simp only:)

lemma payload_of_file:
  "is_safe_key k \<Longrightarrow> file_at s (k @ suffix h) = Some (RegFile body) \<Longrightarrow> payload_of h s k = read_body h body"
  by (simp add: payload_of_def)

lemma payload_of_same:
  "file_at s' (k @ suffix h) = file_at s (k @ suffix h) \<Longrightarrow> payload_of h s' k = payload_of h s k"
  by (simp add: payload_of_def)

lemma carriesD: "carries m' m \<Longrightarrow> dict_get m f = Some v \<Longrightarrow> dict_get m' f = Some v"
  by (simp add: carries_def)

definition seen :: "('r \<Rightarrow> 'r option) \<Rightarrow> string \<Rightarrow> 'r \<Rightarrow> (string \<times> 'r) option" where
  \<comment> \<open>what a reader finds of a result that was committed under a hash\<close>
  "seen served ph r = map_option (Pair ph) (served r)"

locale store_codec =
  fixes h :: "'r hooks" and clean :: "'r \<Rightarrow> bool" and served :: "'r \<Rightarrow> 'r option"
  assumes suffix: "suffix_ok h"
    and extra: "commit_extra_meta h r = Inr ex \<Longrightarrow>
      dict_ok ex \<and> dict_keys ex \<inter> reserved_fields = {} \<and> (\<forall>(f, v)\<in>set ex. utf8_ok f \<and> utf8_ok v)"
    and reads_back: "clean r \<Longrightarrow> validate_commit h r = Inr () \<Longrightarrow> digest_info h r = Inr d \<Longrightarrow>
      commit_extra_meta h r = Inr ex \<Longrightarrow> dict_ok m \<Longrightarrow> carries m ex \<Longrightarrow> write_body h r m = (body, Inr ()) \<Longrightarrow>
      \<exists>r2 m'. read_body h body = Some (r2, m') \<and> carries m' m \<and>
        served r = (if validate_structure h r2 m' = Inr True \<and> digest_info h r2 = Inr d then Some r2 else None)"
begin

lemma commit_meta_get:
  assumes "commit_extra_meta h r = Inr ex"
  shows "dict_ok (commit_meta st k ph digest n c gen ex)"
    and "carries (commit_meta st k ph digest n c gen ex) ex"
    and "dict_get (commit_meta st k ph digest n c gen ex) ''content_key'' = Some k"
    and "dict_get (commit_meta st k ph digest n c gen ex) ''payload_hash'' = Some ph"
    and "dict_get (commit_meta st k ph digest n c gen ex) ''fingerprint'' = Some (fingerprint st)"
    and "dict_get (commit_meta st k ph digest n c gen ex) ''schema_version'' = Some (int_repr SCHEMA_VERSION)"
    and "dict_get (commit_meta st k ph digest n c gen ex) ''result_digest'' = Some digest"
    and "dict_get (commit_meta st k ph digest n c gen ex) ''byte_len'' = Some (int_repr n)"
    and "dict_get (commit_meta st k ph digest n c gen ex) ''record_count'' = Some (int_repr c)"
    and "dict_get (commit_meta st k ph digest n c gen ex) ''generation_id'' = Some gen"
proof -
  have ex: "dict_ok ex" "\<And>f. f \<in> reserved_fields \<Longrightarrow> f \<notin> dict_keys ex" using extra [OF assms] by auto
  show "dict_ok (commit_meta st k ph digest n c gen ex)"
    unfolding commit_meta_def by (rule dict_ok_update) simp
  show "carries (commit_meta st k ph digest n c gen ex) ex"
    unfolding commit_meta_def carries_def by (simp add: dict_get_update [OF ex(1)])
  note get = dict_get_update_other [OF ex(2)]
  show "dict_get (commit_meta st k ph digest n c gen ex) ''content_key'' = Some k"
    "dict_get (commit_meta st k ph digest n c gen ex) ''payload_hash'' = Some ph"
    "dict_get (commit_meta st k ph digest n c gen ex) ''fingerprint'' = Some (fingerprint st)"
    "dict_get (commit_meta st k ph digest n c gen ex) ''schema_version'' = Some (int_repr SCHEMA_VERSION)"
    "dict_get (commit_meta st k ph digest n c gen ex) ''result_digest'' = Some digest"
    "dict_get (commit_meta st k ph digest n c gen ex) ''byte_len'' = Some (int_repr n)"
    "dict_get (commit_meta st k ph digest n c gen ex) ''record_count'' = Some (int_repr c)"
    "dict_get (commit_meta st k ph digest n c gen ex) ''generation_id'' = Some gen"
    by (simp_all add: commit_meta_def get reserved_fields_def)
qed

lemma commit_entry_get:
  assumes "commit_extra_meta h r = Inr ex"
  shows "entry_get (commit_entry ph digest n c gen now ex) ''payload_hash'' = Some (JStr ph)"
    and "entry_get (commit_entry ph digest n c gen now ex) ''result_digest'' = Some (JStr digest)"
    and "entry_get (commit_entry ph digest n c gen now ex) ''byte_len'' = Some (JInt n)"
    and "entry_get (commit_entry ph digest n c gen now ex) ''record_count'' = Some (JInt c)"
    and "entry_get (commit_entry ph digest n c gen now ex) ''generation_id'' = Some (JStr gen)"
proof -
  have ex: "f \<notin> dict_keys (map (\<lambda>(k, v). (k, JStr v)) ex)" if "f \<in> reserved_fields" for f
    using extra [OF assms] that by force
  note get = dict_get_update_other [OF ex]
  show "entry_get (commit_entry ph digest n c gen now ex) ''payload_hash'' = Some (JStr ph)"
    "entry_get (commit_entry ph digest n c gen now ex) ''result_digest'' = Some (JStr digest)"
    "entry_get (commit_entry ph digest n c gen now ex) ''byte_len'' = Some (JInt n)"
    "entry_get (commit_entry ph digest n c gen now ex) ''record_count'' = Some (JInt c)"
    "entry_get (commit_entry ph digest n c gen now ex) ''generation_id'' = Some (JStr gen)"
    by (simp_all add: commit_entry_def entry_get_def get reserved_fields_def)
qed

lemma payload_new_reads_back:
  assumes "payload_new h s st k ph r e body" and "clean r"
  obtains digest n c gen ex now r2 m' where "digest_info h r = Inr (digest, n, c)"
    and "commit_extra_meta h r = Inr ex" and "e = commit_entry ph digest n c gen now ex"
    and "is_safe_key k" and "read_body h body = Some (r2, m')"
    and "carries m' (commit_meta st k ph digest n c gen ex)"
    and "served r = (if validate_structure h r2 m' = Inr True \<and> digest_info h r2 = Inr (digest, n, c) then Some r2 else None)"
proof -
  from assms(1) obtain digest n c gen ex now where p: "is_safe_key k" "validate_commit h r = Inr ()"
      "digest_info h r = Inr (digest, n, c)" "commit_extra_meta h r = Inr ex"
      "e = commit_entry ph digest n c gen now ex"
      "write_body h r (commit_meta st k ph digest n c gen ex) = (body, Inr ())"
    unfolding payload_new_def by blast
  from reads_back [OF assms(2) p(2,3,4) commit_meta_get(1,2) [OF p(4)] p(6)] p(1,3,4,5) that show ?thesis by blast
qed

lemma checked_body:
  assumes "checked h fp k eo (Some (r2, m')) = Some (x, r3)" and "commit_extra_meta h r = Inr ex"
    and "carries m' (commit_meta st j ph digest n c gen ex)"
  shows "x = ph \<and> r3 = r2 \<and> validate_structure h r2 m' = Inr True \<and> digest_info h r2 = Inr (digest, n, c)"
proof -
  note get = commit_meta_get(3-) [OF assms(2), of st j ph digest n c gen, THEN carriesD [OF assms(3)]]
  from assms(1) show ?thesis by (auto simp: checked_Some check_Ok get int_repr_inj)
qed

lemma fresh_payload:
  assumes "payload_new h s st k ph r e body" and "clean r"
  shows "checked h (fingerprint st) k (Some e) (read_body h body) = seen served ph r"
proof -
  obtain digest n c gen ex now r2 m' where p: "digest_info h r = Inr (digest, n, c)"
      "commit_extra_meta h r = Inr ex" "e = commit_entry ph digest n c gen now ex" "is_safe_key k"
      "read_body h body = Some (r2, m')" "carries m' (commit_meta st k ph digest n c gen ex)"
      "served r = (if validate_structure h r2 m' = Inr True \<and> digest_info h r2 = Inr (digest, n, c) then Some r2 else None)"
    by (rule payload_new_reads_back [OF assms])
  note get = commit_meta_get(3-) [OF p(2), THEN carriesD [OF p(6)]] commit_entry_get [OF p(2)]
  show ?thesis
  proof (cases "validate_structure h r2 m' = Inr True \<and> digest_info h r2 = Inr (digest, n, c)")
    case True
    then have "check h (fingerprint st) k ph r2 m' e = Inr Ok" unfolding check_Ok p(3) by (simp add: get)
    with True p show ?thesis by (simp add: checked_Some seen_def commit_entry_get [OF p(2)])
  next
    case False
    then have "checked h (fingerprint st) k (Some e) (Some (r2, m')) = None"
      using checked_body [OF _ p(2,6)] by (metis not_None_eq surj_pair)
    with False p(5,7) show ?thesis by (simp add: seen_def)
  qed
qed

lemma torn_payload:
  assumes "payload_new h s st k ph r e body" and "clean r"
  shows "checked h fp k eo (read_body h body) \<in> {None, seen served ph r}"
proof (cases "checked h fp k eo (read_body h body)")
  case (Some xr)
  obtain x r3 where xr: "xr = (x, r3)" by fastforce
  obtain digest n c gen ex now r2 m' where p: "commit_extra_meta h r = Inr ex" "read_body h body = Some (r2, m')"
      "carries m' (commit_meta st k ph digest n c gen ex)"
      "served r = (if validate_structure h r2 m' = Inr True \<and> digest_info h r2 = Inr (digest, n, c) then Some r2 else None)"
    by (rule payload_new_reads_back [OF assms])
  from checked_body [OF Some [unfolded xr p(2)] p(1,3)] p(4) Some xr show ?thesis by (simp add: seen_def)
qed simp

lemma commit_entry_ok:
  assumes "payload_new h s st k ph r e body" and "utf8_ok ph" and "clock_ok h s"
  shows "entry_ok h k e"
proof -
  from assms(1) obtain digest n c gen ex now where p: "is_safe_key k" "commit_extra_meta h r = Inr ex"
      "gen \<in> range (uuid4_at s)" "now \<in> range (time_at s)"
      "digest_info h r = Inr (digest, n, c)"
      "e = commit_entry ph digest n c gen now ex"
    unfolding payload_new_def by blast
  let ?base = "[(''payload_hash'', JStr ph), (''schema_version'', JInt SCHEMA_VERSION),
        (''result_digest'', JStr digest), (''byte_len'', JInt n),
        (''record_count'', JInt c), (''generation_id'', JStr gen), (''committed_at'', JFloat now)]"
  let ?ok = "\<lambda>f v. utf8_ok f \<and> json_ok (float_repr h) True v \<and> scalar v"
  have gen: "utf8_ok gen" "float_ok (float_repr h) now" "utf8_ok digest"
    using assms(3) p(3-5) by (auto simp: clock_ok_def digest_info_def split: sum.splits)
  then have base: "\<forall>(f, v)\<in>set ?base. ?ok f v"
    using assms(2) by (simp add: utf8_ok_printable printable_def)
  have "\<forall>(f, v)\<in>set (dict_update d (map (\<lambda>(k, v). (k, JStr v)) x)). ?ok f v"
    if "\<forall>(f, v)\<in>set d. ?ok f v" and "\<forall>(f, v)\<in>set x. utf8_ok f \<and> utf8_ok v" for d x
    using that
  proof (induction x arbitrary: d)
    case (Cons a x)
    obtain f v where a: "a = (f, v)" by fastforce
    have "\<forall>(f, v)\<in>set (dict_set f (JStr v) d). ?ok f v"
      using Cons(2,3) a by (auto dest!: dict_set_values)
    with Cons a show ?case by simp
  qed simp
  from this [OF base] have "\<forall>(f, v)\<in>set e. ?ok f v"
    using extra [OF p(2)] unfolding p(6) commit_entry_def by blast
  moreover have "dict_ok e" unfolding p(6) commit_entry_def by (rule dict_ok_update) simp
  moreover have "is_str (dict_get e f)" if "f \<in> set required_fields" for f
    using that commit_entry_get(1,2,5) [OF p(2), of ph digest n c gen now] p(6)
    by (auto simp: required_fields_def is_str_def entry_get_def split: option.splits json.splits)
  ultimately show ?thesis using p(1) by (auto simp: entry_ok_def)
qed

lemma not_manifest: "k @ suffix h \<noteq> MANIFEST_NAME"
  using suffix by (simp add: suffix_ok_def)

lemma payload_written:
  assumes "write_payload h st k ph r s = (res, s')" and "clock_ok h s"
  shows "file_at s' MANIFEST_NAME = file_at s MANIFEST_NAME"
    and "j \<noteq> k \<Longrightarrow> payload_of h s' j = payload_of h s j"
    and "payload_of h s' k = payload_of h s k \<or>
         (\<exists>e body. payload_new h s st k ph r e body \<and> payload_of h s' k = read_body h body)"
    and "res = Inr e \<Longrightarrow>
         \<exists>body. payload_new h s st k ph r e body \<and> payload_of h s' k = read_body h body"
    and "clock_ok h s'"
proof -
  have w: "world_ok s" using assms(2) by (simp add: clock_ok_def)
  from write_payload_outcome [OF assms(1) w suffix]
  obtain t where t: "keeps {t, k @ suffix h} s s'" "t \<noteq> []" "is_hex (last t)"
    and o: "(\<exists>e body. payload_new h s st k ph r e body \<and> file_at s' (k @ suffix h) = Some (RegFile body) \<and>
              (\<forall>x. res = Inr x \<longrightarrow> x = e)) \<or>
           (\<exists>e. res = Inl e) \<and> file_at s' (k @ suffix h) = file_at s (k @ suffix h)" .
  have safe: "payload_new h s st k ph r e body \<Longrightarrow> is_safe_key k" for e body
    by (auto simp: payload_new_def)
  show "file_at s' MANIFEST_NAME = file_at s MANIFEST_NAME"
    by (rule keepsD(1) [OF t(1)]) (use tmp_not_manifest [OF t(3)] not_manifest [of k] in auto)
  show "j \<noteq> k \<Longrightarrow> payload_of h s' j = payload_of h s j"
    by (rule payload_of_keeps [OF t(1)]) (use tmp_not_payload [OF suffix t(2,3), of j] in auto)
  show "payload_of h s' k = payload_of h s k \<or>
         (\<exists>e body. payload_new h s st k ph r e body \<and> payload_of h s' k = read_body h body)"
    using o payload_of_file [OF safe] payload_of_same by metis
  show "res = Inr e \<Longrightarrow>
         \<exists>body. payload_new h s st k ph r e body \<and> payload_of h s' k = read_body h body"
    using o payload_of_file [OF safe] by blast
  show "clock_ok h s'"
    using assms(2) keepsD(5,6,9) [OF t(1)] by (simp add: clock_ok_def world_ok_def)
qed

lemma manifest_written:
  assumes "write_manifest st s = (res, s')" and "clock_ok h s"
  shows "payload_of h s' j = payload_of h s j"
    and "file_at s' MANIFEST_NAME = Some (RegFile (dumps True (manifest_doc st))) \<or>
         (\<exists>x. res = Inl x) \<and> file_at s' MANIFEST_NAME = file_at s MANIFEST_NAME"
    and "clock_ok h s'"
proof -
  have w: "world_ok s" using assms(2) by (simp add: clock_ok_def)
  from write_manifest_outcome [OF assms(1) w]
  obtain t where t: "keeps {t, MANIFEST_NAME} s s'" "t \<noteq> []" "is_hex (last t)"
    and o: "file_at s' MANIFEST_NAME = Some (RegFile (dumps True (manifest_doc st))) \<or>
         (\<exists>x. res = Inl x) \<and> file_at s' MANIFEST_NAME = file_at s MANIFEST_NAME" .
  show "payload_of h s' j = payload_of h s j"
    by (rule payload_of_keeps [OF t(1)])
      (use tmp_not_payload [OF suffix t(2,3), of j] not_manifest [of j] in auto)
  show "file_at s' MANIFEST_NAME = Some (RegFile (dumps True (manifest_doc st))) \<or>
         (\<exists>x. res = Inl x) \<and> file_at s' MANIFEST_NAME = file_at s MANIFEST_NAME" by (rule o)
  show "clock_ok h s'"
    using assms(2) keepsD(5,6,9) [OF t(1)] by (simp add: clock_ok_def world_ok_def)
qed

lemma publish_durable:
  assumes "publish st k e s = (res, st', s')" and "manifest_ok h st" and "entry_ok h k e" and "clock_ok h s"
  defines "st1 \<equiv> st\<lparr>entries := dict_set k e (entries st)\<rparr>" and "fp \<equiv> fingerprint st"
  shows "synced h st1 s' \<and>
           (\<forall>j. durable h fp s' j = checked h fp j (dict_get (entries st1) j) (payload_of h s j)) \<or>
         (\<exists>x. res = Inl x) \<and> (\<forall>j. durable h fp s' j = durable h fp s j)"
    and "res = Inr () \<Longrightarrow> st' = st1" and "manifest_ok h st1" and "clock_ok h s'"
proof -
  obtain r2 s2 where m: "write_manifest st1 s = (r2, s2)" by fastforce
  have s2: "s' = s2" "res = r2" "r2 = Inr () \<Longrightarrow> st' = st1"
    using assms(1) m by (auto simp: publish_def st1_def [symmetric] Let_def split: sum.splits)
  note mw = manifest_written [OF m assms(4)]
  show ok1: "manifest_ok h st1" unfolding st1_def by (rule manifest_ok_insert [OF assms(2,3)])
  show "res = Inr () \<Longrightarrow> st' = st1" "clock_ok h s'" using s2 mw(3) by simp_all
  have fp1: "fingerprint st1 = fp" by (simp add: st1_def fp_def)
  show "synced h st1 s' \<and>
           (\<forall>j. durable h fp s' j = checked h fp j (dict_get (entries st1) j) (payload_of h s j)) \<or>
         (\<exists>x. res = Inl x) \<and> (\<forall>j. durable h fp s' j = durable h fp s j)"
  proof (cases "file_at s2 MANIFEST_NAME = Some (RegFile (dumps True (manifest_doc st1)))")
    case True
    then have sy: "synced h st1 s2" by (rule disk_entries_written [OF ok1])
    have "durable h fp s2 j = checked h fp j (dict_get (entries st1) j) (payload_of h s j)" for j
      using synced_durable [OF ok1 sy, of j] mw(1) fp1 by (simp add: vouched_def)
    with sy s2 show ?thesis by simp
  next
    case False
    with mw(2) have f: "\<exists>x. r2 = Inl x" "file_at s2 MANIFEST_NAME = file_at s MANIFEST_NAME" by auto
    have "durable h fp s2 j = durable h fp s j" for j
      by (rule durable_cong [OF disk_entries_keeps [OF f(2)] mw(1)])
    with f(1) s2 show ?thesis by simp
  qed
qed

lemma write_payload_any:
  assumes w: "write_payload h st k ph r s = (q, s')" and env: "clock_ok h s" "clean r"
  shows "disk_entries h fp s' = disk_entries h fp s"
    and "durable h fp s' k \<in> {durable h fp s k, None, seen served ph r}" and "j \<noteq> k \<Longrightarrow> durable h fp s' j = durable h fp s j"
    and "vouched h st2 s' k \<in> {vouched h st2 s k, None, seen served ph r}" and "j \<noteq> k \<Longrightarrow> vouched h st2 s' j = vouched h st2 s j"
proof -
  note pw = payload_written [OF w env(1)]
  show d: "disk_entries h fp s' = disk_entries h fp s" by (rule disk_entries_keeps [OF pw(1)])
  have c: "checked h f k eo (payload_of h s' k) \<in> {checked h f k eo (payload_of h s k), None, seen served ph r}" for f eo
    using pw(3)
  proof
    assume "\<exists>e body. payload_new h s st k ph r e body \<and> payload_of h s' k = read_body h body"
    then obtain e body where b: "payload_new h s st k ph r e body" "payload_of h s' k = read_body h body" by blast
    from torn_payload [OF b(1) env(2), of f eo] b(2) show ?thesis by simp
  qed simp
  then show "vouched h st2 s' k \<in> {vouched h st2 s k, None, seen served ph r}" by (simp add: vouched_def)
  from c [of fp] show "durable h fp s' k \<in> {durable h fp s k, None, seen served ph r}"
    unfolding durable_def d by (cases "disk_entries h fp s") simp_all
  show "j \<noteq> k \<Longrightarrow> durable h fp s' j = durable h fp s j" by (rule durable_cong [OF d pw(2)])
  show "j \<noteq> k \<Longrightarrow> vouched h st2 s' j = vouched h st2 s j" using pw(2) [of j] by (simp add: vouched_def)
qed

text \<open>Memory and manifest need not agree here: an earlier commit may have raised after its replace.\<close>

lemma commit_outcome:
  assumes c: "commit h st k ph r s = (res, st', s')" and ok: "manifest_ok h st"
    and env: "clock_ok h s" "clean r" "utf8_ok ph"
  defines "fp \<equiv> fingerprint st"
  shows "j \<noteq> k \<Longrightarrow> durable h fp s' j \<in> {durable h fp s j, vouched h st s j}"
    and "durable h fp s' k \<in> {durable h fp s k, None, seen served ph r}"
    and "res = Inr () \<Longrightarrow> durable h fp s' k = seen served ph r \<and> (\<forall>j. j \<noteq> k \<longrightarrow> durable h fp s' j = vouched h st s j)"
    and "res = Inr () \<Longrightarrow> manifest_ok h st' \<and> synced h st' s' \<and> fingerprint st' = fp"
    and "clock_ok h s'"
proof -
  obtain r1 s1 where w: "write_payload h st k ph r s = (r1, s1)" by fastforce
  note pw = payload_written [OF w env(1)] and pd = write_payload_any [OF w env(1,2)]
  have "(j \<noteq> k \<longrightarrow> durable h fp s' j \<in> {durable h fp s j, vouched h st s j}) \<and>
    durable h fp s' k \<in> {durable h fp s k, None, seen served ph r} \<and>
    (res = Inr () \<longrightarrow> (durable h fp s' k = seen served ph r \<and> (\<forall>j. j \<noteq> k \<longrightarrow> durable h fp s' j = vouched h st s j)) \<and>
       manifest_ok h st' \<and> synced h st' s' \<and> fingerprint st' = fp) \<and> clock_ok h s'"
  proof (cases r1)
    case (Inl x)
    with c w have "s' = s1" "res = Inl x" by (simp_all add: commit_def)
    with pd(2,3) pw(5) show ?thesis by simp
  next
    case (Inr e)
    from pw(4) [OF Inr] obtain body where b: "payload_new h s st k ph r e body"
        "payload_of h s1 k = read_body h body" by blast
    have "publish st k e s1 = (res, st', s')" using c w Inr by (simp add: commit_def)
    note pu = publish_durable [OF this ok commit_entry_ok [OF b(1) env(3,1)] pw(5), folded fp_def]
    let ?st1 = "st\<lparr>entries := dict_set k e (entries st)\<rparr>"
    have "checked h fp j (dict_get (entries ?st1) j) (payload_of h s1 j) =
        (if j = k then seen served ph r else vouched h st s j)" for j
      using fresh_payload [OF b(1) env(2)] b(2) pw(2) by (simp add: fp_def vouched_def)
    with pu pd(2) [of fp] pd(3) [of _ fp] show ?thesis by (auto simp: fp_def)
  qed
  then show "j \<noteq> k \<Longrightarrow> durable h fp s' j \<in> {durable h fp s j, vouched h st s j}"
    "durable h fp s' k \<in> {durable h fp s k, None, seen served ph r}"
    "res = Inr () \<Longrightarrow> durable h fp s' k = seen served ph r \<and> (\<forall>j. j \<noteq> k \<longrightarrow> durable h fp s' j = vouched h st s j)"
    "res = Inr () \<Longrightarrow> manifest_ok h st' \<and> synced h st' s' \<and> fingerprint st' = fp"
    "clock_ok h s'" by blast+
qed

lemma commit_synced:
  assumes "commit h st k ph r s = (res, st', s')" and "manifest_ok h st" and "synced h st s"
    and "clock_ok h s" and "clean r" and "utf8_ok ph" and "j \<noteq> k"
  shows "durable h (fingerprint st) s' j = durable h (fingerprint st) s j"
  using commit_outcome(1) [OF assms(1,2,4-7)] synced_durable [OF assms(2,3), of j] by simp

end

text \<open>The results that are served in full: what a run needs of those its workers return.\<close>

locale payload_codec = store_codec h clean served
  for h :: "'r hooks" and clean :: "'r \<Rightarrow> bool" and served :: "'r \<Rightarrow> 'r option" +
  fixes accepts :: "'r \<Rightarrow> bool" and norm :: "'r \<Rightarrow> 'r"
  assumes accepted: "accepts r \<Longrightarrow> clean r \<and> served r = Some (norm r)"
begin

lemma commit_durable:
  assumes c: "commit h st k ph r s = (res, st', s')" and ok: "manifest_ok h st" "synced h st s"
    and env: "clock_ok h s" "accepts r" "utf8_ok ph"
  defines "fp \<equiv> fingerprint st"
  shows "j \<noteq> k \<Longrightarrow> durable h fp s' j = durable h fp s j"
    and "durable h fp s' k \<in> {durable h fp s k, None, Some (ph, norm r)}"
    and "res = Inr () \<Longrightarrow> durable h fp s' k = Some (ph, norm r)"
    and "res = Inr () \<Longrightarrow> manifest_ok h st' \<and> synced h st' s' \<and> fingerprint st' = fp"
    and "clock_ok h s'"
proof -
  have r: "clean r" "seen served ph r = Some (ph, norm r)" using accepted [OF env(2)] by (simp_all add: seen_def)
  note o = commit_outcome [OF c ok(1) env(1) r(1) env(3), folded fp_def, unfolded r(2)]
  show "j \<noteq> k \<Longrightarrow> durable h fp s' j = durable h fp s j"
    using commit_synced [OF c ok env(1) r(1) env(3)] by (simp add: fp_def)
  show "durable h fp s' k \<in> {durable h fp s k, None, Some (ph, norm r)}" by (rule o(2))
  show "res = Inr () \<Longrightarrow> durable h fp s' k = Some (ph, norm r)"
    and "res = Inr () \<Longrightarrow> manifest_ok h st' \<and> synced h st' s' \<and> fingerprint st' = fp" and "clock_ok h s'"
    using o(3,4,5) by blast+
qed

end

section \<open>A failed commit leaves memory as it was\<close>

lemma commit_rollback:
  assumes "commit h st k ph r s = (Inl x, st', s')" and "is_Exception x"
  shows "st' = st"
proof -
  have "dict_set k p (dict_set k e (entries st)) = entries st" if "dict_get (entries st) k = Some p" for p e
    using that by (rule dict_set_set_present)
  moreover have "dict_pop k (dict_set k e (entries st)) = entries st" if "dict_get (entries st) k = None" for e
    using that by (simp add: dict_get_None_iff dict_pop_set_absent)
  ultimately show ?thesis
    using assms by (auto simp: commit_def publish_def Let_def split: prod.splits sum.splits option.splits)
qed

section \<open>Opening the directory\<close>

lemma touches_unlink_each: "set ns \<subseteq> F \<Longrightarrow> touches F (unlink_each ns)"
proof (induction ns)
  case (Cons n ns)
  then have "touches {n} (fs_unlink n)" by (intro touches_unlink)
  then have "touches F (fs_unlink n)" by (rule touches_mono) (use Cons in auto)
  then show ?case using Cons by (auto intro!: touches_then touches_catch touches_ret)
qed simp

lemma sweep_keeps:
  assumes "sweep_orphan_tmps s = (r, s')" and "\<not> is_tmp_name n"
  shows "file_at s' n = file_at s n"
proof -
  have "touches {n. is_tmp_name n} (unlink_each (filter is_tmp_name (map fst (files s))))"
    by (rule touches_unlink_each) auto
  from touchesD(1) [OF this] assms show ?thesis by (simp add: sweep_orphan_tmps_def)
qed

lemma mkdir_outcome:
  assumes "mkdir s = (r, s')"
  shows "file_at s' = file_at s" and "fault_free s \<Longrightarrow> r = Inr () \<and> dir_exists s' \<and> fault_free s'"
    and "clock_ok h s' = clock_ok h s"
proof -
  from assms show "file_at s' = file_at s" unfolding mkdir_def
    by (cases rule: syscall_cases) (auto simp: fun_eq_iff file_at_def split: option.splits simp del: dict_get_files)
  from assms show "fault_free s \<Longrightarrow> r = Inr () \<and> dir_exists s' \<and> fault_free s'"
    by (auto simp: mkdir_def syscall_fault_free fault_free_def)
  from assms show "clock_ok h s' = clock_ok h s" unfolding mkdir_def
    by (cases rule: syscall_cases) (auto simp: clock_ok_def world_ok_def split: option.splits)
qed

lemma touches_read_manifest: "touches F (read_manifest h fp)"
proof -
  have "touches F (catch_OSError (bind_act (fs_read MANIFEST_NAME) (\<lambda>t. ret (parse_manifest h fp t))) (ret None))"
    by (intro touches_catch touches_bind touches_read touches_ret)
  then show ?thesis by (auto simp: touches_def read_manifest_def split: option.split)
qed

lemma read_manifest_outcome:
  assumes "read_manifest h fp s = (Inr m, s')"
  shows "m = disk_entries h fp s \<or> m = None"
proof (cases "file_at s MANIFEST_NAME")
  case (Some x)
  obtain q s1 where q: "fs_read MANIFEST_NAME s = (q, s1)" by fastforce
  have "q = Inl killed \<or> q = Inl os_error \<or> (\<exists>b. x = RegFile b \<and> q = Inr b)"
    using q Some unfolding fs_read_def
    by (cases rule: syscall_cases) (auto split: node.splits)
  with assms q Some show ?thesis
    by (auto simp: read_manifest_def bind_act_def catch_OSError_def ret_def disk_entries_def)
qed (use assms in \<open>simp add: read_manifest_def\<close>)

lemma read_manifest_fault_free:
  "fault_free s \<Longrightarrow> fst (read_manifest h fp s) = Inr (disk_entries h fp s)"
  by (auto simp: read_manifest_def disk_entries_def fs_read_def syscall_fault_free bind_act_def
      catch_OSError_def ret_def split: option.split node.split)

text \<open>Whatever fails, an opened store serves nothing that is not durable.\<close>

lemma open_outcome:
  assumes "open_store h lock fp s = (Inr st, s')"
  shows "lock = Some True" and "fp \<noteq> []" and "fingerprint st = fp"
    and "disk_entries h fp s = Some (entries st) \<and> (\<forall>n. \<not> is_tmp_name n \<longrightarrow> file_at s' n = file_at s n) \<or>
         entries st = []"
proof -
  have g: "lock = Some True \<and> fp \<noteq> []"
    using assms by (cases "lock = Some True"; cases "fp = []") (simp_all add: open_store_def raise_def)
  then show "lock = Some True" "fp \<noteq> []" by simp_all
  from assms g obtain s1 s2 s3 where m: "mkdir s = (Inr (), s1)"
      and l: "load_or_invalidate_manifest h fp s1 = (Inr st, s2)"
      and w: "sweep_orphan_tmps s2 = (Inr (), s3)" "s' = s3"
    by (auto simp: open_store_def then_act_def bind_act_Inr ret_def)
  from l obtain q s4 where q: "read_manifest h fp s1 = (Inr q, s4)"
      and q2: "q = Some es \<Longrightarrow> st = \<lparr>fingerprint = fp, entries = es\<rparr> \<and> s2 = s4"
      and q3: "q = None \<Longrightarrow> st = \<lparr>fingerprint = fp, entries = []\<rparr>" for es
    by (auto simp: load_or_invalidate_manifest_def bind_act_Inr then_act_def ret_def split: option.splits)
  show "fingerprint st = fp" using q2 q3 by (cases q) auto
  show "disk_entries h fp s = Some (entries st) \<and> (\<forall>n. \<not> is_tmp_name n \<longrightarrow> file_at s' n = file_at s n) \<or>
         entries st = []"
  proof (cases q)
    case (Some es)
    have f: "file_at s1 = file_at s" by (rule mkdir_outcome [OF m])
    then have "disk_entries h fp s = Some es"
      using read_manifest_outcome [OF q] Some disk_entries_keeps [of s1 s h fp] by auto
    moreover have "file_at s' n = file_at s n" if "\<not> is_tmp_name n" for n
      using sweep_keeps [OF w(1) that] w(2) q2 [OF Some] f touchesD(1) [OF touches_read_manifest q, of n "{}"]
      by simp
    ultimately show ?thesis using q2 [OF Some] by simp
  qed (simp add: q3)
qed

lemma open_serves:
  assumes "open_store h lock fp s = (Inr st, s')" and "\<not> is_tmp_name (k @ suffix h)"
  shows "vouched h st s' k \<in> {durable h fp s k, None}"
proof -
  note o = open_outcome [OF assms(1)]
  from o(4) show ?thesis
  proof
    assume a: "disk_entries h fp s = Some (entries st) \<and> (\<forall>n. \<not> is_tmp_name n \<longrightarrow> file_at s' n = file_at s n)"
    then have "payload_of h s' k = payload_of h s k" using assms(2) by (intro payload_of_same) simp
    with a o(3) show ?thesis by (simp add: vouched_def durable_def)
  qed (simp add: vouched_def checked_def)
qed

section \<open>Opening without faults\<close>

lemma unlink_run:
  assumes "fault_free s"
  obtains s1 where "catch_OSError (fs_unlink m) (ret ()) s = (Inr (), s1)" and "fault_free s1"
    and "\<forall>n. file_at s1 n = (if n = m \<and> file_at s n \<noteq> Some SubDir then None else file_at s n)"
proof (cases "\<exists>b. file_at s m = Some (RegFile b)")
  case True
  then obtain b where "file_at s m = Some (RegFile b)" ..
  with assms have "catch_OSError (fs_unlink m) (ret ()) s
      = (Inr (), (advance s)\<lparr>files := dict_pop m (files s)\<rparr>)"
    by (simp add: catch_OSError_def fs_unlink_def syscall_fault_free)
  with \<open>file_at s m = _\<close> show ?thesis using that assms by simp
next
  case False
  then have none: "file_at s m \<in> {None, Some SubDir}" by (cases "file_at s m"; cases "the (file_at s m)") auto
  then have "fs_unlink m s = (Inl os_error, advance s)"
    using assms by (auto simp: fs_unlink_def syscall_fault_free)
  then have "catch_OSError (fs_unlink m) (ret ()) s = (Inr (), advance s)"
    by (simp add: catch_OSError_def ret_def)
  with none show ?thesis using that [of "advance s"] assms by auto
qed

lemma unlink_each_run:
  assumes "fault_free s"
  shows "\<exists>s'. unlink_each ns s = (Inr (), s') \<and>
     (\<forall>n. file_at s' n = (if n \<in> set ns \<and> file_at s n \<noteq> Some SubDir then None else file_at s n))"
  using assms
proof (induction ns arbitrary: s)
  case (Cons m ns)
  from unlink_run [OF Cons.prems, of m]
  obtain s1 where run: "catch_OSError (fs_unlink m) (ret ()) s = (Inr (), s1)" and ff: "fault_free s1"
    and f: "\<forall>n. file_at s1 n = (if n = m \<and> file_at s n \<noteq> Some SubDir then None else file_at s n)" .
  have "unlink_each (m # ns) s = unlink_each ns s1"
    by (simp add: then_act_def bind_act_def run)
  with Cons.IH [OF ff] show ?case by (auto simp: f)
qed (simp add: ret_def)

lemma touches_wipe: "touches UNIV wipe_tree"
  unfolding wipe_tree_def by (intro touches_bind touches_listdir touches_unlink_each) simp

lemma wipe_run:
  assumes "fault_free s" and "dir_exists s"
  obtains s' where "wipe_tree s = (Inr (), s')"
    and "\<And>n. file_at s' n = (if file_at s n = Some SubDir then Some SubDir else None)"
proof -
  let ?ns = "map fst (filter (\<lambda>(n, x). x \<noteq> SubDir) (files s))"
  have in_ns: "n \<in> set ?ns" if "file_at s n = Some (RegFile b)" for n b
    using that dict_get_in [of "files s" n "RegFile b"] by force
  have other: "file_at s n = None" if "n \<notin> set ?ns" "file_at s n \<noteq> Some SubDir" for n
  proof (cases "file_at s n")
    case (Some x)
    with that in_ns [of n] show ?thesis by (cases x) auto
  qed
  have "fault_free (advance s)" using assms(1) by simp
  from unlink_each_run [OF this, of ?ns] obtain s' where s': "unlink_each ?ns (advance s) = (Inr (), s')"
    "\<And>n. file_at s' n = (if n \<in> set ?ns \<and> file_at s n \<noteq> Some SubDir then None else file_at s n)" by auto
  show ?thesis
  proof (rule that [of s'])
    show "wipe_tree s = (Inr (), s')" using s'(1) by (simp add: wipe_tree_def bind_act_def fs_listdir_def syscall_fault_free assms)
    show "file_at s' n = (if file_at s n = Some SubDir then Some SubDir else None)" for n
      using s'(2) [of n] other [of n] by (auto split: if_splits)
  qed
qed

definition writable_cache :: "os \<Rightarrow> bool" where
  \<comment> \<open>no directory sits where the manifest or its temporary file goes\<close>
  "writable_cache s \<longleftrightarrow> (\<forall>n. file_at s n \<noteq> Some SubDir)"

lemma write_manifest_run:
  assumes "fault_free s" and "writable_cache s" and "dir_exists s" and "world_ok s"
  shows "fst (write_manifest st s) = Inr ()"
proof -
  obtain t where t: "tmp_name MANIFEST_NAME s = (Inr t, advance s)" "is_hex (last t)"
    using tmp_name_last [OF assms(4)] by blast
  let ?b = "dumps True (manifest_doc st)"
  have w: "writable n (advance s)" for n using assms(2,3) by (simp add: writable_def writable_cache_def)
  have "fs_write t ?b (advance s) = (Inr (), put_file t ?b (advance (advance s)))"
    by (rule fs_write_succeeds) (use assms(1) w in simp_all)
  moreover have "fst (atomic_replace_file t MANIFEST_NAME (put_file t ?b (advance (advance s)))) = Inr ()"
  proof (rule atomic_replace_succeeds)
    show "file_at (put_file t ?b (advance (advance s))) t = Some (RegFile ?b)"
      using w by (simp add: put_file_def writable_def)
    show "writable MANIFEST_NAME (put_file t ?b (advance (advance s)))"
      using w [of MANIFEST_NAME] tmp_not_manifest [OF t(2)] by (simp add: writable_def)
  qed (use assms(1) tmp_not_manifest [OF t(2)] in simp_all)
  ultimately show ?thesis by (simp add: write_manifest_def bind_act_def then_act_def t)
qed

text \<open>
  Without faults, opening serves exactly what is durable, and an invalid manifest empties the
  cache: no regular file but the new manifest is left.
\<close>

lemma sweep_run:
  assumes "fault_free s"
  shows "fst (sweep_orphan_tmps s) = Inr ()"
  using unlink_each_run [OF assms] by (metis fst_conv sweep_orphan_tmps_def)

lemma open_run:
  assumes "fault_free s" and "writable_cache s" and "clock_ok h s" and "fp \<noteq> []"
  obtains st s' where "open_store h (Some True) fp s = (Inr st, s')" and "fingerprint st = fp"
    and "disk_entries h fp s = Some es \<Longrightarrow> entries st = es \<and> (\<forall>n. \<not> is_tmp_name n \<longrightarrow> file_at s' n = file_at s n)"
    and "disk_entries h fp s = None \<Longrightarrow> entries st = []"
proof -
  obtain s1 where m: "mkdir s = (Inr (), s1)" and f1: "file_at s1 = file_at s" "dir_exists s1" "fault_free s1"
      "clock_ok h s1"
    using mkdir_outcome assms(1,3) by (metis surj_pair)
  obtain s2 where q: "read_manifest h fp s1 = (Inr (disk_entries h fp s1), s2)"
    using read_manifest_fault_free [OF f1(3)] by (metis prod.collapse)
  have d: "disk_entries h fp s1 = disk_entries h fp s" by (rule disk_entries_keeps) (simp add: f1)
  note k = touches_keeps [OF touches_read_manifest q]
  show ?thesis
  proof (cases "disk_entries h fp s")
    case (Some e)
    let ?st = "\<lparr>fingerprint = fp, entries = e\<rparr>"
    have l: "load_or_invalidate_manifest h fp s1 = (Inr ?st, s2)"
      using q d Some by (simp add: load_or_invalidate_manifest_def bind_act_def ret_def)
    have ff: "fault_free s2" using f1(3) keepsD(3) [OF k] by (simp add: fault_free_def)
    obtain s3 where w: "sweep_orphan_tmps s2 = (Inr (), s3)" using sweep_run [OF ff] by (metis prod.collapse)
    have "open_store h (Some True) fp s = (Inr ?st, s3)"
      using m l w assms(4) by (simp add: open_store_def then_act_def bind_act_def ret_def)
    moreover have "file_at s3 n = file_at s n" if "\<not> is_tmp_name n" for n
      using sweep_keeps [OF w that] keepsD(1) [OF k, of n "{}"] f1(1) by simp
    ultimately show ?thesis using that Some by simp
  next
    case None
    let ?st = "\<lparr>fingerprint = fp, entries = []\<rparr>"
    have ff: "fault_free s2" using f1(3) keepsD(3) [OF k] by (simp add: fault_free_def)
    obtain s3 where w: "wipe_tree s2 = (Inr (), s3)"
      and wf: "\<And>n. file_at s3 n = (if file_at s2 n = Some SubDir then Some SubDir else None)"
      using wipe_run [OF ff] keepsD(2) [OF k] f1(2) by metis
    have kw: "keeps UNIV s2 s3"
      by (rule touches_keeps [OF touches_wipe w])
    have "fault_free s3" "writable_cache s3" "dir_exists s3" "world_ok s3"
      using keepsD(2,3,6) [OF k] keepsD(2,3,6) [OF kw] ff f1 assms(2) wf
        keepsD(1) [OF k, of _ "{}"]
      by (auto simp: fault_free_def writable_cache_def clock_ok_def world_ok_def)
    note s3 = this
    then obtain s4 where wm: "write_manifest ?st s3 = (Inr (), s4)"
      using write_manifest_run by (metis prod.collapse)
    have l: "load_or_invalidate_manifest h fp s1 = (Inr ?st, s4)"
      using q d None w wm by (simp add: load_or_invalidate_manifest_def bind_act_def then_act_def ret_def)
    from write_manifest_outcome [OF wm s3(4)] obtain t where "keeps {t, MANIFEST_NAME} s3 s4" .
    then have "fault_free s4" using s3(1) keepsD(3) by (simp add: fault_free_def)
    then obtain s5 where "sweep_orphan_tmps s4 = (Inr (), s5)" using sweep_run by (metis prod.collapse)
    then have "open_store h (Some True) fp s = (Inr ?st, s5)"
      using m l assms(4) by (simp add: open_store_def then_act_def bind_act_def ret_def)
    then show ?thesis using that [of ?st s5] None by simp
  qed
qed

end
