(* ===== verification/Store_Live.thy ===== *)
theory Store_Live
  imports Store_Durable
begin

text \<open>
  Liveness of the store: without faults, and with no directory in the way of a file, a commit of
  a result the concrete store can write returns normally.
\<close>

definition calm :: "os \<Rightarrow> bool" where
  \<comment> \<open>no call fails, the cache directory exists and no directory sits where a file goes\<close>
  "calm s \<longleftrightarrow> fault_free s \<and> writable_cache s \<and> dir_exists s \<and> world_ok s"

lemma calm_advance [simp]: "calm (advance s) = calm s"
  by (simp add: calm_def writable_cache_def)

lemma calm_put [simp]: "calm s \<Longrightarrow> calm (put_file n b s)"
  by (auto simp: calm_def writable_cache_def world_ok_def put_file_def writable_def)

lemma calm_writable: "calm s \<Longrightarrow> writable n s"
  by (simp add: calm_def writable_def writable_cache_def)

lemma calm_write: "calm s \<Longrightarrow> fs_write n b s = (Inr (), put_file n b (advance s))"
  by (simp add: fs_write_succeeds calm_writable calm_def)

lemma calm_rename:
  "calm s \<Longrightarrow> file_at s tmp = Some (RegFile b) \<Longrightarrow>
   calm (s\<lparr>files := dict_set final (RegFile b) (dict_pop tmp (files s))\<rparr>)"
  by (auto simp: calm_def writable_cache_def world_ok_def)

lemma calm_replace:
  assumes "calm s" and "file_at s tmp = Some (RegFile b)" and "tmp \<noteq> final"
  obtains s' where "atomic_replace_file tmp final s = (Inr (), s')" and "calm s'"
proof -
  let ?u = "(advance (advance s))\<lparr>files := dict_set final (RegFile b) (dict_pop tmp (files s))\<rparr>"
  have ff: "fault_free s" and dir: "dir_exists s" using assms(1) by (simp_all add: calm_def)
  have "fsync_file tmp s = (Inr (), advance s)"
    using ff assms(2) by (simp add: fsync_file_def syscall_fault_free)
  moreover have "os_replace tmp final (advance s) = (Inr (), ?u)"
    using ff assms(2) calm_writable [of "advance (advance s)" final] assms(1)
    by (simp add: os_replace_def syscall_fault_free)
  moreover have "fsync_dir ?u = (Inr (), if is_windows s then ?u else advance ?u)"
    using ff dir by (simp add: fsync_dir_def syscall_fault_free)
  ultimately have "atomic_replace_file tmp final s = (Inr (), if is_windows s then ?u else advance ?u)"
    by (simp add: atomic_replace_file_def then_act_def bind_act_def)
  moreover have "calm ?u" using calm_rename [of "advance (advance s)" tmp b final] assms(1,2) by simp
  ultimately show ?thesis using that by (cases "is_windows s") simp_all
qed

lemma calm_via_tmp:
  assumes "calm s" and "tmp \<noteq> final"
  obtains s' where "then_act (fs_write tmp b) (atomic_replace_file tmp final) s = (Inr (), s')" and "calm s'"
proof -
  have "file_at (put_file tmp b (advance s)) tmp = Some (RegFile b)"
    using calm_writable [OF assms(1), of tmp] by (simp add: put_file_def writable_def)
  from calm_replace [OF _ this assms(2)] assms(1)
  obtain s' where "atomic_replace_file tmp final (put_file tmp b (advance s)) = (Inr (), s')" "calm s'" by auto
  then show ?thesis using that assms(1) by (simp add: then_act_def bind_act_def calm_write)
qed

lemma calm_manifest:
  assumes "calm s"
  obtains s' where "write_manifest st s = (Inr (), s')" and "calm s'"
proof -
  obtain t where t: "tmp_name MANIFEST_NAME s = (Inr t, advance s)" "is_hex (last t)"
    using tmp_name_last assms by (metis calm_def)
  then show ?thesis
    using calm_via_tmp [of "advance s" t MANIFEST_NAME] tmp_not_manifest [OF t(2)] assms that
    by (auto simp: write_manifest_def bind_act_def)
qed

section \<open>A commit without faults returns\<close>

definition text_meta :: "meta \<Rightarrow> bool" where
  "text_meta m \<longleftrightarrow> dict_ok m \<and> (\<forall>(f, v)\<in>set m. utf8_ok f \<and> utf8_ok v)"

definition storable :: "'r hooks \<Rightarrow> string \<Rightarrow> 'r \<Rightarrow> bool" where
  \<comment> \<open>the concrete store can write the result, and the key is a file name\<close>
  "storable h k r \<longleftrightarrow>
     is_safe_key k \<and> validate_commit h r = Inr () \<and> (\<exists>d. digest_info h r = Inr d) \<and>
     (\<exists>ex. commit_extra_meta h r = Inr ex) \<and> (\<forall>m. text_meta m \<longrightarrow> snd (write_body h r m) = Inr ())"

lemma text_meta_update: "text_meta d \<Longrightarrow> text_meta e \<Longrightarrow> text_meta (dict_update d e)"
proof (induction d e rule: dict_update.induct)
  case (2 d k v e)
  then have "text_meta (dict_set k v d)" by (auto simp: text_meta_def dest!: dict_set_values)
  moreover have "text_meta e" using 2(3) by (simp add: text_meta_def)
  ultimately show ?case using 2(1) by simp
qed simp

lemma clock_ok_touches: "touches F m \<Longrightarrow> m s = (r, s') \<Longrightarrow> clock_ok h s' = clock_ok h s"
  by (simp add: clock_ok_def world_ok_def touchesD(5,6,9))

context store_codec
begin

lemma commit_meta_text:
  assumes "commit_extra_meta h r = Inr ex" and "is_safe_key k" and "utf8_ok ph" and "utf8_ok (fingerprint st)"
    and "utf8_ok digest" and "utf8_ok gen"
  shows "text_meta (commit_meta st k ph digest n c gen ex)"
  unfolding commit_meta_def
proof (rule text_meta_update)
  show "text_meta [(''content_key'', k), (''payload_hash'', ph), (''fingerprint'', fingerprint st),
        (''schema_version'', int_repr SCHEMA_VERSION), (''result_digest'', digest),
        (''byte_len'', int_repr n), (''record_count'', int_repr c), (''generation_id'', gen)]"
    using assms(2-) utf8_ok_printable [OF printable_int] safe_key_utf8
    by (simp add: text_meta_def utf8_ok_printable [of "_ # _"] printable_def)
  show "text_meta ex" using extra [OF assms(1)] by (simp add: text_meta_def)
qed

lemma calm_payload:
  assumes "calm s" and "storable h k r" and "clock_ok h s" and "utf8_ok ph" and "utf8_ok (fingerprint st)"
  obtains e s' where "write_payload h st k ph r s = (Inr e, s')" and "calm s'"
proof -
  from assms(2) obtain digest n c ex where d: "is_safe_key k" "validate_commit h r = Inr ()"
      "digest_info h r = Inr (digest, n, c)" "commit_extra_meta h r = Inr ex"
      "\<And>m. text_meta m \<Longrightarrow> snd (write_body h r m) = Inr ()"
    by (auto simp: storable_def)
  let ?gen = "uuid4_at s (tick s)"
  let ?m = "commit_meta st k ph digest n c ?gen ex"
  have "utf8_ok digest" "utf8_ok ?gen"
    using assms(3) d(3) by (auto simp: clock_ok_def digest_info_def split: sum.splits)
  note m = d(5) [OF commit_meta_text [OF d(4,1) assms(4,5) this, of n c]]
  obtain t where t: "tmp_name (k @ suffix h) (advance s) = (Inr t, advance (advance s))" "t \<noteq> []" "is_hex (last t)"
    using tmp_name_last [of "advance s"] assms(1) by (auto simp: calm_def)
  have ne: "t \<noteq> k @ suffix h" by (rule tmp_not_payload) (use t suffix in auto)
  obtain s' where v: "then_act (fs_write t (fst (write_body h r ?m))) (atomic_replace_file t (k @ suffix h))
      (advance (advance s)) = (Inr (), s')" "calm s'"
    using calm_via_tmp [of "advance (advance s)" t "k @ suffix h"] ne assms(1) by auto
  from v obtain s1 where w: "fs_write t (fst (write_body h r ?m)) (advance (advance s)) = (Inr (), s1)"
      and f: "atomic_replace_file t (k @ suffix h) s1 = (Inr (), s')"
    by (auto simp: then_act_def bind_act_Inr)
  have "write_file h t r ?m (advance (advance s)) = (Inr (), s1)"
    using w m by (simp add: write_file_def then_act_def bind_act_def lift_result_def)
  then have "write_payload h st k ph r s
      = (Inr (commit_entry ph digest n c ?gen (time_at s' (tick s')) ex), advance s')"
    using d(1-4) t(1) f
    by (simp add: write_payload_def run_uuid4 path_for_def then_act_def bind_act_def [of "tmp_name (k @ suffix h)"]
        bind_act_def [of "write_file h t r ?m"] bind_act_def [of "atomic_replace_file t (k @ suffix h)"]
        bind_act_def [of time_time] time_time_def ret_def)
  then show ?thesis using that v(2) by simp
qed

lemma calm_commit:
  assumes "calm s" and "storable h k r" and "clock_ok h s" and "utf8_ok ph" and "manifest_ok h st"
  obtains st' s' where "commit h st k ph r s = (Inr (), st', s')" and "calm s'"
proof -
  obtain e s1 where w: "write_payload h st k ph r s = (Inr e, s1)" "calm s1"
    using calm_payload assms by (metis manifest_ok_def)
  let ?st = "st\<lparr>entries := dict_set k e (entries st)\<rparr>"
  obtain s2 where "write_manifest ?st s1 = (Inr (), s2)" "calm s2" using calm_manifest [OF w(2)] .
  with w that show ?thesis by (simp add: commit_def publish_def Let_def)
qed

end

end
