(* ===== verification/Jsonl_Store.thy ===== *)
theory Jsonl_Store
  imports Store_Live
begin

text \<open>
  \<open>JsonlResultStore\<close> (\<open>src/resumable_batch/stores/jsonl.py\<close>): a result is a list of JSON
  records, a file a metadata header line and one line per record. The interpretation at the end
  shows that the store meets the contract of the manifest store, for the records a validator
  accepts after their round trip.
\<close>

definition META_KEY :: string where
  "META_KEY = ''__resumable_batch_meta__''"

definition unicode_error :: exn where
  "unicode_error = Exn PyUnicodeError ''surrogates not allowed''"

fun canonical_record_bytes :: "json list \<Rightarrow> string result" where
  "canonical_record_bytes [] = Inr []"
| "canonical_record_bytes (r # rs) =
     (if utf8_ok (dumps False r) then
        (case canonical_record_bytes rs of Inl e \<Rightarrow> Inl e | Inr b \<Rightarrow> Inr (dumps False r @ newline # b))
      else Inl unicode_error)"

fun write_lines :: "string list \<Rightarrow> string \<times> unit result" where
  \<comment> \<open>each write encodes its line; the first that does not encode raises\<close>
  "write_lines [] = ([], Inr ())"
| "write_lines (l # ls) =
     (if utf8_ok l then (case write_lines ls of (b, r) \<Rightarrow> (l @ newline # b, r)) else ([], Inl unicode_error))"

definition jsonl_header :: "meta \<Rightarrow> string" where
  "jsonl_header m = dumps False (JObj [(META_KEY, JObj (map (\<lambda>(k, v). (k, JStr v)) m))])"

definition jsonl_write :: "json list \<Rightarrow> meta \<Rightarrow> string \<times> unit result" where
  "jsonl_write r m = write_lines (jsonl_header m # map (dumps False) r)"

fun split_lines :: "string \<Rightarrow> string list" where
  \<comment> \<open>\<open>s.split(LF)\<close>\<close>
  "split_lines [] = [[]]"
| "split_lines (c # s) =
     (if c = newline then [] # split_lines s
      else (case split_lines s of l # ls \<Rightarrow> (c # l) # ls | [] \<Rightarrow> [[c]]))"

fun parse_records :: "(string \<Rightarrow> string) \<Rightarrow> string list \<Rightarrow> json list option" where
  "parse_records pf [] = Some []"
| "parse_records pf (l # ls) =
     (if l = [] then parse_records pf ls
      else (case loads pf l of
              None \<Rightarrow> None
            | Some v \<Rightarrow> map_option ((#) v) (parse_records pf ls)))"

definition drop_final_empty :: "string list \<Rightarrow> string list" where
  "drop_final_empty ls = (if ls \<noteq> [] \<and> last ls = [] then butlast ls else ls)"

definition jsonl_read :: "(string \<Rightarrow> string) \<Rightarrow> (json \<Rightarrow> string) \<Rightarrow> string \<Rightarrow> (json list \<times> meta) option" where
  "jsonl_read pf cs b =
     (if \<not> utf8_ok b then None
      else (case drop_final_empty (split_lines (universal_newlines b)) of
        [] \<Rightarrow> None
      | l # ls \<Rightarrow>
          (case loads pf l of
             Some (JObj head) \<Rightarrow>
               (case dict_get head META_KEY of
                  Some (JObj m) \<Rightarrow>
                    map_option (\<lambda>rs. (rs, map (\<lambda>(k, v). (k, py_str cs (Some v))) m)) (parse_records pf ls)
                | _ \<Rightarrow> None)
           | _ \<Rightarrow> None)))"

fun validate_all :: "(json \<Rightarrow> bool result) \<Rightarrow> json list \<Rightarrow> bool result" where
  \<comment> \<open>\<open>all(record_validator(r) for r in result)\<close>\<close>
  "validate_all v [] = Inr True"
| "validate_all v (r # rs) =
     (case v r of Inl e \<Rightarrow> Inl e | Inr b \<Rightarrow> if b then validate_all v rs else Inr False)"

definition jsonl_validate :: "(json \<Rightarrow> bool result) option \<Rightarrow> json list \<Rightarrow> meta \<Rightarrow> bool result" where
  "jsonl_validate v r m = (case v of None \<Rightarrow> Inr True | Some f \<Rightarrow> validate_all f r)"

definition jsonl :: "(string \<Rightarrow> string) \<Rightarrow> (string \<Rightarrow> string) \<Rightarrow> (json \<Rightarrow> string) \<Rightarrow> (json \<Rightarrow> bool result) option \<Rightarrow>
    json list hooks" where
  "jsonl sha pf cs v =
     \<lparr>suffix = ''.jsonl'', canonical_bytes = canonical_record_bytes, record_count = (\<lambda>r. int (length r)),
      write_body = jsonl_write, read_body = jsonl_read pf cs,
      validate_structure = jsonl_validate v, validate_commit = (\<lambda>r. Inr ()),
      commit_extra_meta = (\<lambda>r. Inr []), sha256_hex = sha, float_repr = pf, container_str = cs\<rparr>"

section \<open>Lines\<close>

lemma utf8_next_append: "utf8_next s = Some (cp, r) \<Longrightarrow> utf8_next (s @ t) = Some (cp, r @ t)"
proof -
  have tail: "utf8_tail n a s = Some (cp, r) \<Longrightarrow> utf8_tail n a (s @ t) = Some (cp, r @ t)" for n a s r cp
    by (induction n a s rule: utf8_tail.induct) (auto split: if_splits)
  assume "utf8_next s = Some (cp, r)"
  then show ?thesis
    by (cases s) (auto simp: utf8_next_def Let_def tail split: if_splits option.splits)
qed

lemma utf8_ok_append: "utf8_ok s \<Longrightarrow> utf8_ok t \<Longrightarrow> utf8_ok (s @ t)"
proof (induction s rule: utf8_ok.induct)
  case (1 s)
  show ?case
  proof (cases "s = []")
    case False
    with 1(2) obtain cp r where n: "utf8_next s = Some (cp, r)" "\<not> is_surrogate cp" "utf8_ok r"
      by (auto simp: utf8_ok.simps [of s] split: option.splits)
    with 1 have "utf8_ok (r @ t)" by blast
    with n utf8_next_append [OF n(1), of t] show ?thesis
      by (subst utf8_ok.simps) simp
  qed (use 1 in simp)
qed

abbreviation line_text :: "string \<Rightarrow> bool" where
  "line_text s \<equiv> \<forall>c\<in>set s. of_char c \<ge> (32 :: nat)"

lemma universal_Cons: "c \<noteq> CHR 0x0D \<Longrightarrow> universal_newlines (c # s) = c # universal_newlines s"
  by (cases s) auto

lemma not_control [simp]:
  "of_char c \<ge> (32 :: nat) \<Longrightarrow> c \<noteq> CHR 0x0D" "of_char c \<ge> (32 :: nat) \<Longrightarrow> c \<noteq> newline"
  "newline \<noteq> CHR 0x0D"
  by (auto simp: newline_def)

lemma universal_line: "line_text l \<Longrightarrow> universal_newlines (l @ newline # s) = l @ newline # universal_newlines s"
  by (induction l) (simp_all add: universal_Cons)

lemma split_line: "line_text l \<Longrightarrow> split_lines (l @ newline # s) = l # split_lines s"
  by (induction l) simp_all

fun join_lines :: "string list \<Rightarrow> string" where
  "join_lines [] = []"
| "join_lines (l # ls) = l @ newline # join_lines ls"

lemma split_lines_join:
  "(\<forall>l\<in>set ls. line_text l) \<Longrightarrow> split_lines (universal_newlines (join_lines ls)) = ls @ [[]]"
  by (induction ls) (simp_all add: universal_line split_line)

lemma write_lines_utf8:
  "write_lines ls = (if \<forall>l\<in>set ls. utf8_ok l then (join_lines ls, Inr ()) else (fst (write_lines ls), Inl unicode_error))"
  by (induction ls) (auto split: prod.splits if_splits)

lemma write_lines_ok: "write_lines ls = (b, Inr ()) \<longleftrightarrow> (\<forall>l\<in>set ls. utf8_ok l) \<and> b = join_lines ls"
  by (subst write_lines_utf8) auto

lemma utf8_newline: "utf8_ok s \<Longrightarrow> utf8_ok (newline # s)"
  by (subst utf8_ok.simps) (simp add: utf8_next_def newline_def is_surrogate_def)

lemma utf8_join: "(\<forall>l\<in>set ls. utf8_ok l) \<Longrightarrow> utf8_ok (join_lines ls)"
  by (induction ls) (simp_all add: utf8_ok_append utf8_newline utf8_ok.simps [of "[]"])

lemma canonical_utf8:
  "canonical_record_bytes rs =
     (if \<forall>r\<in>set rs. utf8_ok (dumps False r) then Inr (join_lines (map (dumps False) rs)) else Inl unicode_error)"
  by (induction rs) auto

lemma dumps_line:
  "json_ok pf False v \<Longrightarrow> line_text (dumps False v)"
  using dumps_printable [of pf False v] by (auto simp: printable_def Let_def)

lemma dumps_not_Nil: "json_ok pf False v \<Longrightarrow> dumps False v \<noteq> []"
  using dumps_hd [of pf False v] by auto

lemma parse_records_dumps:
  "(\<forall>r\<in>set rs. json_ok pf False r) \<Longrightarrow> parse_records pf (map (dumps False) rs) = Some (map jnorm rs)"
  by (induction rs) (auto simp: dumps_not_Nil loads_dumps)

section \<open>The file round-trips\<close>

lemma header_ok: "dict_ok m \<Longrightarrow> json_ok pf False (JObj [(META_KEY, JObj (map (\<lambda>(k, v). (k, JStr v)) m))])"
  by (auto simp: comp_def case_prod_unfold)

lemma jsonl_reads_back:
  assumes "\<forall>r\<in>set rs. json_ok pf False r" and "dict_ok m" and "jsonl_write rs m = (b, Inr ())"
  shows "jsonl_read pf cs b = Some (map jnorm rs, sort_key fst m)"
proof -
  let ?ls = "jsonl_header m # map (dumps False) rs"
  let ?h = "JObj [(META_KEY, JObj (map (\<lambda>(k, v). (k, JStr v)) m))]"
  have b: "\<forall>l\<in>set ?ls. utf8_ok l" "b = join_lines ?ls"
    using assms(3) unfolding jsonl_write_def write_lines_ok by blast+
  have t: "\<forall>l\<in>set ?ls. line_text l"
  proof
    fix l assume "l \<in> set ?ls"
    then consider "l = jsonl_header m" | r where "r \<in> set rs" "l = dumps False r" by fastforce
    then show "line_text l"
      using assms(1) dumps_line header_ok [OF assms(2)] unfolding jsonl_header_def by cases blast+
  qed
  have s: "drop_final_empty (split_lines (universal_newlines b)) = ?ls"
    unfolding b(2) split_lines_join [OF t] by (simp add: drop_final_empty_def)
  have "map (\<lambda>(k, v). (k, jnorm v)) (map (\<lambda>(k, v). (k, JStr v)) m) = map (\<lambda>(k, v). (k, JStr v)) m"
    by (induction m) auto
  then have "jnorm (JObj (map (\<lambda>(k, v). (k, JStr v)) m)) = JObj (map (\<lambda>(k, v). (k, JStr v)) (sort_key fst m))"
    by (simp only: jnorm.simps sort_key_map_values)
  then have "jnorm ?h = JObj [(META_KEY, JObj (map (\<lambda>(k, v). (k, JStr v)) (sort_key fst m)))]"
    by (subst jnorm.simps) (simp del: jnorm.simps)
  then have h: "loads pf (jsonl_header m) = Some (JObj [(META_KEY, JObj (map (\<lambda>(k, v). (k, JStr v)) (sort_key fst m)))])"
    unfolding jsonl_header_def by (simp only: loads_dumps [OF header_ok [OF assms(2)]])
  have v: "map (\<lambda>(k, v). (k, py_str cs (Some v))) (map (\<lambda>(k, v). (k, JStr v)) d) = d" for d
    by (induction d) auto
  have "utf8_ok b" unfolding b(2) by (rule utf8_join [OF b(1)])
  then show ?thesis
    unfolding jsonl_read_def s by (simp add: h parse_records_dumps [OF assms(1)] v del: map_map)
qed

section \<open>The contract of the manifest store\<close>

definition jsonl_served :: "(json \<Rightarrow> bool result) option \<Rightarrow> json list \<Rightarrow> json list option" where
  \<comment> \<open>the records as they are read back, if the validator passes them then\<close>
  "jsonl_served v rs = (if jsonl_validate v (map jnorm rs) [] = Inr True then Some (map jnorm rs) else None)"

abbreviation json_records :: "(string \<Rightarrow> string) \<Rightarrow> json list \<Rightarrow> bool" where
  "json_records pf rs \<equiv> \<forall>r\<in>set rs. json_ok pf False r"

definition jsonl_accepts :: "(string \<Rightarrow> string) \<Rightarrow> (json \<Rightarrow> bool result) option \<Rightarrow> json list \<Rightarrow> bool" where
  \<comment> \<open>records of Python values that pass the validator as they are read back\<close>
  "jsonl_accepts pf v rs \<longleftrightarrow>
     (\<forall>r\<in>set rs. json_ok pf False r) \<and> jsonl_validate v (map jnorm rs) [] = Inr True"

lemma jsonl_suffix: "suffix (jsonl sha pf cs v) = ''.jsonl''"
  by (simp add: jsonl_def)

lemma jsonl_suffix_ok: "suffix_ok (jsonl sha pf cs v)"
proof -
  have "k @ ''.jsonl'' \<noteq> MANIFEST_NAME" for k
  proof
    assume "k @ ''.jsonl'' = MANIFEST_NAME"
    then have "last (butlast (k @ ''.jsonl'')) = last (butlast MANIFEST_NAME)" by simp
    then show False by (simp add: MANIFEST_NAME_def butlast_append)
  qed
  then show ?thesis by (simp add: suffix_ok_def jsonl_def is_hex_def hex_val_def)
qed

lemma jsonl_accepts_served: "jsonl_accepts pf v rs \<Longrightarrow> json_records pf rs \<and> jsonl_served v rs = Some (map jnorm rs)"
  by (simp add: jsonl_accepts_def jsonl_served_def)

lemma jsonl_seen: "seen (jsonl_served v) ph rs = Some (x, r) \<longleftrightarrow> x = ph \<and> r = map jnorm rs \<and> jsonl_validate v r [] = Inr True"
  by (auto simp: seen_def jsonl_served_def)

lemma jsonl_digest: "digest_info (jsonl sha pf cs v) (map jnorm rs) = digest_info (jsonl sha pf cs v) rs"
  by (simp add: digest_info_def jsonl_def canonical_utf8 dumps_jnorm comp_def)

interpretation jsonl_store: payload_codec "jsonl sha pf cs v" "json_records pf" "jsonl_served v"
    "jsonl_accepts pf v" "map jnorm"
  for sha pf cs v
proof
  show "suffix_ok (jsonl sha pf cs v)" by (rule jsonl_suffix_ok)
next
  fix r ex
  assume "commit_extra_meta (jsonl sha pf cs v) r = Inr ex"
  then show "dict_ok ex \<and> dict_keys ex \<inter> reserved_fields = {} \<and> (\<forall>(f, v)\<in>set ex. utf8_ok f \<and> utf8_ok v)"
    by (simp add: jsonl_def)
next
  fix r d ex m body
  assume r: "json_records pf r" and d: "digest_info (jsonl sha pf cs v) r = Inr d" and m: "dict_ok m"
    and w: "write_body (jsonl sha pf cs v) r m = (body, Inr ())"
  have "jsonl_read pf cs body = Some (map jnorm r, sort_key fst m)"
    using jsonl_reads_back [OF r m] w by (simp add: jsonl_def)
  moreover have "carries (sort_key fst m) m" using m by (simp add: carries_def dict_get_sort_key)
  moreover have "jsonl_validate v (map jnorm r) (sort_key fst m) = jsonl_validate v (map jnorm r) []"
    by (simp add: jsonl_validate_def)
  ultimately show "\<exists>r2 m'. read_body (jsonl sha pf cs v) body = Some (r2, m') \<and> carries m' m \<and>
      jsonl_served v r = (if validate_structure (jsonl sha pf cs v) r2 m' = Inr True \<and>
        digest_info (jsonl sha pf cs v) r2 = Inr d then Some r2 else None)"
    using jsonl_digest [of sha pf cs v r] d
    by (intro exI [of _ "map jnorm r"] exI [of _ "sort_key fst m"]) (simp add: jsonl_def jsonl_served_def)
next
  fix r
  assume "jsonl_accepts pf v r"
  then show "json_records pf r \<and> jsonl_served v r = Some (map jnorm r)" by (rule jsonl_accepts_served)
qed

end
