(* ===== verification/Jsonl_Live.thy ===== *)
theory Jsonl_Live
  imports Jsonl_Store
begin

text \<open>
  A commit of the JSONL store always succeeds when no system call fails: any list of JSON
  records whose strings encode has a rendering that encodes, so there is nothing else to raise.
\<close>

section \<open>A text of encodable strings encodes\<close>

lemma utf8_tail_split:
  "utf8_tail n a s = Some (cp, r) \<Longrightarrow>
     \<exists>p. s = p @ r \<and> (\<forall>c\<in>set p. 128 \<le> (of_char c :: nat)) \<and> (\<forall>t. utf8_tail n a (p @ t) = Some (cp, t))"
proof (induction n a s rule: utf8_tail.induct)
  case (3 n a c s)
  then have c: "is_cont c" by (simp split: if_splits)
  with 3 obtain p where "s = p @ r" "\<forall>c\<in>set p. 128 \<le> (of_char c :: nat)"
      "\<forall>t. utf8_tail n (64 * a + (of_char c - 128)) (p @ t) = Some (cp, t)" by auto
  moreover have "128 \<le> (of_char c :: nat)" using c by (simp add: is_cont_def Let_def)
  ultimately show ?case using c by (intro exI [of _ "c # p"]) simp
qed auto

lemma utf8_next_split:
  assumes "utf8_next s = Some (cp, r)"
  obtains (ascii) c where "s = c # r" and "of_char c < (128 :: nat)"
  | (multi) p where "s = p @ r" and "\<forall>c\<in>set p. 128 \<le> (of_char c :: nat)" and "p \<noteq> []"
      and "\<And>t. utf8_next (p @ t) = Some (cp, t)"
proof -
  obtain c q where s: "s = c # q" using assms by (auto simp: utf8_next_def split: list.splits)
  show ?thesis
  proof (cases "of_char c < (128 :: nat)")
    case True
    with assms s ascii [of c] show ?thesis by (simp add: utf8_next_def Let_def)
  next
    case False
    then obtain n a where n: "utf8_tail n a q = Some (cp, r)"
        and nx: "\<And>q t. utf8_tail n a q = Some (cp, t) \<Longrightarrow> utf8_next (c # q) = Some (cp, t)"
      using assms unfolding s utf8_next_def
      by (auto simp: Let_def split: if_splits option.splits)
    from utf8_tail_split [OF n] nx s False multi [of "c # p" for p] show ?thesis
      by (metis append_Cons linorder_not_le list.distinct(1) set_ConsD)
  qed
qed

lemma esc_char_ascii: "of_char c < (128 :: nat) \<Longrightarrow> d \<in> set (esc_char c) \<Longrightarrow> of_char d < (128 :: nat)"
  using printable_hex4 [where ascii = True and n = "of_char c"]
  by (auto simp: esc_char_def Let_def u_escape_def printable_def split: if_splits)

lemma esc_char_multi: "128 \<le> (of_char c :: nat) \<Longrightarrow> esc_char c = [c]"
  by (auto simp: esc_char_def Let_def)

lemma utf8_esc: "utf8_ok s \<Longrightarrow> utf8_ok (concat (map esc_char s))"
proof (induction s rule: utf8_ok.induct)
  case (1 s)
  show ?case
  proof (cases "s = []")
    case False
    with 1(2) obtain cp r where nx: "utf8_next s = Some (cp, r)" "\<not> is_surrogate cp" "utf8_ok r"
      by (subst (asm) utf8_ok.simps) (auto split: option.splits)
    note IH = 1(1) [OF nx(1) refl nx(3)]
    from nx(1) show ?thesis
    proof (cases rule: utf8_next_split)
      case (ascii c)
      then have "utf8_ok (esc_char c)" using esc_char_ascii by (blast intro: utf8_ascii)
      with IH ascii show ?thesis by (simp add: utf8_ok_append)
    next
      case (multi p)
      have "(\<forall>c\<in>set p. 128 \<le> (of_char c :: nat)) \<Longrightarrow> concat (map esc_char p) = p" for p
        by (induction p) (simp_all add: esc_char_multi)
      with multi have e: "concat (map esc_char s) = p @ concat (map esc_char r)" by simp
      show ?thesis unfolding e by (subst utf8_ok.simps) (simp add: multi(4) nx(2) IH)
    qed
  qed (simp add: utf8_ascii)
qed

lemma utf8_quote: "utf8_ok s \<Longrightarrow> utf8_ok (py_quote False s)"
proof -
  assume "utf8_ok s"
  then have "utf8_ok ([dquote] @ concat (map esc_char s) @ [dquote])"
    by (intro utf8_ok_append utf8_esc) (simp_all add: utf8_ascii)
  then show ?thesis by (simp add: py_quote_def)
qed

lemma utf8_join_commas: "(\<forall>s\<in>set ss. utf8_ok s) \<Longrightarrow> utf8_ok (join_commas ss)"
proof (induction ss rule: join_commas.induct)
  case (3 x y ys)
  then have "utf8_ok (x @ [CHR '',''] @ join_commas (y # ys))"
    by (intro utf8_ok_append) (simp_all add: utf8_ascii)
  then show ?case by simp
qed (simp_all add: utf8_ascii)

text \<open>Strings without lone surrogates make a text the file's encoding accepts.\<close>

lemma dumps_utf8: "json_ok pf True v \<Longrightarrow> utf8_ok (dumps False v)"
proof (induction v rule: json.induct)
  case (JList vs)
  then have "utf8_ok ([CHR ''[''] @ join_commas (map (dumps False) vs) @ [CHR '']''])"
    by (intro utf8_ok_append utf8_join_commas) (auto simp: utf8_ascii)
  then show ?case by simp
next
  case (JObj kvs)
  have "utf8_ok (py_quote False k @ [CHR '':''] @ dumps False v)" if "(k, v) \<in> set kvs" for k v
    using that JObj by (intro utf8_ok_append utf8_quote) (fastforce simp: utf8_ascii snds.simps)+
  then have "utf8_ok ([CHR ''{''] @ join_commas (map (\<lambda>(k, v). py_quote False k @ CHR '':'' # dumps False v) (sort_key fst kvs)) @ [CHR ''}''])"
    by (intro utf8_ok_append utf8_join_commas) (auto simp: utf8_ascii)
  then show ?case by (simp only: dumps_obj) simp
next
  case (JInt i)
  show ?case using utf8_ok_printable [OF printable_int] by simp
next
  case (JFloat t)
  then show ?case using utf8_ok_printable [OF printable_float] by simp
qed (simp_all add: utf8_quote utf8_ascii)

section \<open>Every encodable record can be stored\<close>

lemma header_utf8: "text_meta m \<Longrightarrow> utf8_ok (jsonl_header m)"
proof -
  assume "text_meta m"
  then have m: "dict_ok m" "\<forall>(f, v)\<in>set m. utf8_ok f \<and> utf8_ok v" by (simp_all add: text_meta_def)
  have "dict_ok (map (\<lambda>(k, v). (k, JStr v)) m)" using m(1) by (simp only: map_values_keys)
  then have "json_ok pf True (JObj (map (\<lambda>(k, v). (k, JStr v)) m))" for pf
    using m(2) by (subst json_ok.simps) auto
  then have "json_ok (\<lambda>t. t) True (JObj [(META_KEY, JObj (map (\<lambda>(k, v). (k, JStr v)) m))])"
    by (subst json_ok.simps) (simp add: META_KEY_def utf8_ok_printable printable_def del: json_ok.simps)
  then show ?thesis unfolding jsonl_header_def by (rule dumps_utf8)
qed

lemma jsonl_storable:
  assumes "is_safe_key k" and "\<forall>r\<in>set rs. json_ok pf True r"
  shows "storable (jsonl sha pf cs v) k rs"
proof -
  have u: "\<forall>r\<in>set rs. utf8_ok (dumps False r)" using assms(2) dumps_utf8 by blast
  then have "\<exists>b. canonical_record_bytes rs = Inr b" by (simp add: canonical_utf8)
  moreover have "snd (jsonl_write rs m) = Inr ()" if "text_meta m" for m
    using header_utf8 [OF that] u unfolding jsonl_write_def by (subst write_lines_utf8) simp
  ultimately show ?thesis
    using assms(1) by (auto simp: storable_def jsonl_def digest_info_def)
qed

lemma json_ok_ascii: "json_ok pf True v \<Longrightarrow> json_ok pf False v"
  by (induction v rule: json.induct) (auto simp: snds.simps)

lemma jsonl_commit_returns:
  assumes "calm s" and "clock_ok (jsonl sha pf cs v) s" and "manifest_ok (jsonl sha pf cs v) st"
    and "is_safe_key k" and "utf8_ok ph" and "\<forall>r\<in>set rs. json_ok pf True r"
  obtains st' s' where "commit (jsonl sha pf cs v) st k ph rs s = (Inr (), st', s')" and "calm s'"
  using jsonl_store.calm_commit [OF assms(1) jsonl_storable [OF assms(4,6)] assms(2,5,3)] .

end
