(* ===== verification/Pool_World.thy ===== *)
theory Pool_World
  imports Engine_Results Engine_Term Jsonl_Live
begin

text \<open>
  A concrete environment of the engine: the monotonic clock, \<open>random.Random.uniform\<close>, the
  \<open>ThreadPoolExecutor\<close> with the worker contexts \<open>_init_worker\<close> creates and the calls
  \<open>_run_one\<close> makes, and a manifest store over a directory. What the threads and the caller's
  functions decide is an oracle of the world: how time passes between observations, what
  \<open>worker_setup\<close> and \<open>execute\<close> return, which thread takes a task, whether a thread is idle when
  one is submitted, which futures are done when \<open>wait\<close> looks. Every task ends, after some wait.

  The environment is fair and its store is a result store, so the theorems of both locales hold
  of runs over it.
\<close>

record ('p, 'r, 'c) world =
  instant :: real
  ticks :: nat
  drift :: "nat \<Rightarrow> real"
  rand :: "nat \<Rightarrow> real"
  worker_setup :: "(nat \<Rightarrow> 'c result) option" \<comment> \<open>\<open>worker_setup\<close> in the n-th thread\<close>
  execute :: "nat \<Rightarrow> 'p \<Rightarrow> 'c option \<Rightarrow> 'r result" \<comment> \<open>the n-th call\<close>
  worker_teardown :: "('c option \<Rightarrow> unit result) option"
  idle :: "nat \<Rightarrow> bool"
  runs_on :: "nat \<Rightarrow> nat"
  finishes :: "nat \<Rightarrow> nat list \<Rightarrow> nat list"
  stranded :: "nat \<Rightarrow> bool" \<comment> \<open>queued when a thread failed to start\<close>
  cap :: nat
  threads :: nat
  created :: "'c option list"
  broken :: bool
  submitted :: "(nat, 'p) dict"
  cancelled :: "nat set"
  closed :: bool
  cache :: store
  disk :: os

section \<open>Clock and random numbers\<close>

definition elapse :: "real \<Rightarrow> ('p, 'r, 'c) world \<Rightarrow> ('p, 'r, 'c) world" where
  "elapse d w = w\<lparr>instant := instant w + d + \<bar>drift w (ticks w)\<bar>, ticks := Suc (ticks w)\<rparr>"

definition clock :: "('p, 'r, 'c) world \<Rightarrow> real \<times> ('p, 'r, 'c) world" where
  "clock w = (let w' = elapse 0 w in (instant w', w'))"

definition draw :: "real \<Rightarrow> real \<Rightarrow> ('p, 'r, 'c) world \<Rightarrow> real \<times> ('p, 'r, 'c) world" where
  \<comment> \<open>\<open>a + (b - a) * random()\<close>\<close>
  "draw a b w = (a + (b - a) * rand w (ticks w), w\<lparr>ticks := Suc (ticks w)\<rparr>)"

section \<open>The thread pool\<close>

definition broken_pool :: exn where
  "broken_pool = Exn (UserClass ''BrokenThreadPool'' PyRuntimeError) ''''"

definition init_worker :: "('p, 'r, 'c) world \<Rightarrow> ('p, 'r, 'c) world" where
  \<comment> \<open>\<open>_init_worker\<close> in a new thread; one that raises breaks the pool\<close>
  "init_worker w =
     (case worker_setup w of
        None \<Rightarrow> w\<lparr>created := created w @ [None]\<rparr>
      | Some f \<Rightarrow>
          (case f (threads w) of
             Inr ctx \<Rightarrow> w\<lparr>created := created w @ [Some ctx]\<rparr>
           | Inl x \<Rightarrow> w\<lparr>broken := True\<rparr>))"

definition submit :: "nat \<Rightarrow> 'p \<Rightarrow> ('p, 'r, 'c) world \<Rightarrow> unit result \<times> ('p, 'r, 'c) world" where
  \<comment> \<open>queue the task; start a thread unless one is idle or the pool is full\<close>
  "submit fut p w =
     (if broken w then (Inl broken_pool, w)
      else let w1 = w\<lparr>submitted := dict_set fut p (submitted w), ticks := Suc (ticks w)\<rparr>
           in (Inr (), if idle w (ticks w) \<or> cap w \<le> threads w then w1
                       else (init_worker w1)\<lparr>threads := Suc (threads w)\<rparr>))"

definition thread_ctx :: "('p, 'r, 'c) world \<Rightarrow> nat \<Rightarrow> 'c option" where
  \<comment> \<open>\<open>getattr(tls, "ctx", None)\<close> in the thread that runs the task\<close>
  "thread_ctx w fut = (if created w = [] then None else created w ! (runs_on w fut mod length (created w)))"

definition run_one :: "nat \<Rightarrow> ('p, 'r, 'c) world \<Rightarrow> 'r result" where
  "run_one fut w =
     (if broken w \<and> stranded w fut then Inl broken_pool
      else case dict_get (submitted w) fut of
        None \<Rightarrow> Inl (Exn PyKeyError ''future'')
      | Some p \<Rightarrow> execute w fut p (thread_ctx w fut))"

definition wait_first :: "nat list \<Rightarrow> real option \<Rightarrow> ('p, 'r, 'c) world \<Rightarrow> nat list \<times> ('p, 'r, 'c) world" where
  \<comment> \<open>\<open>wait(..., return_when=FIRST_COMPLETED)\<close>\<close>
  "wait_first futs timeout w =
     (let dn = filter (\<lambda>f. f \<in> set futs) (remdups (finishes w (ticks w) futs))
      in if dn \<noteq> [] then (dn, elapse 0 w)
         else case timeout of
           None \<Rightarrow> (take 1 futs, elapse 0 w)
         | Some t \<Rightarrow> ([], elapse (max 0 t) w))"

definition teardown_calls :: "('p, 'r, 'c) world \<Rightarrow> (('p, 'r, 'c) world, unit) io list" where
  "teardown_calls w =
     (case worker_teardown w of None \<Rightarrow> [] | Some f \<Rightarrow> map (\<lambda>ctx v. (f ctx, v)) (created w))"

section \<open>The store of the world\<close>

definition on_disk :: "'a act \<Rightarrow> (('p, 'r, 'c) world, 'a) io" where
  "on_disk m w = (case m (disk w) of (r, s) \<Rightarrow> (r, w\<lparr>disk := s\<rparr>))"

definition world_load :: "'r hooks \<Rightarrow> string \<times> string \<Rightarrow> (('p, 'r, 'c) world, 'r) io" where
  "world_load h kx w = on_disk (load h (cache w) (fst kx) (snd kx)) w"

definition world_commit :: "'r hooks \<Rightarrow> string \<Rightarrow> string \<Rightarrow> 'r \<Rightarrow> (('p, 'r, 'c) world, unit) io" where
  "world_commit h k x r w =
     (case commit h (cache w) k x r (disk w) of (q, st, s) \<Rightarrow> (q, w\<lparr>cache := st, disk := s\<rparr>))"

definition pool_env :: "'r hooks \<Rightarrow> ('p, 'r, ('p, 'r, 'c) world) env" where
  "pool_env h =
     \<lparr>monotonic = clock, sleep = (\<lambda>d w. elapse (max 0 d) w), uniform = draw, pool_submit = submit,
      pool_wait = wait_first, fut_result = run_one,
      fut_cancel = (\<lambda>f w. w\<lparr>cancelled := insert f (cancelled w)\<rparr>),
      pool_shutdown = (\<lambda>w. w\<lparr>closed := True\<rparr>), teardowns = teardown_calls,
      store_has = (\<lambda>k x w. on_disk (has h (cache w) k x) w),
      store_commit = world_commit h,
      store_load_all = (\<lambda>d w. on_disk (load_all h (cache w) (KeyMap d)) w),
      store_iter = (\<lambda>d. map (world_load h) (sort d)),
      store_cleanup = on_disk cleanup\<rparr>"

section \<open>The environment is fair\<close>

interpretation pool: fair_env "pool_env h" instant for h
proof (unfold_locales, goal_cases)
  case (1 w t w')
  then show ?case by (auto simp: pool_env_def clock_def Let_def elapse_def)
next
  case (2 d w)
  then show ?case by (simp add: pool_env_def elapse_def)
next
  case (3 futs timeout w dn w')
  then show ?case
    by (cases futs) (auto simp: pool_env_def wait_first_def Let_def elapse_def split: if_splits option.splits)
qed

section \<open>Its store is a result store\<close>

lemma on_disk_touches:
  assumes "\<And>F. touches F m" and "on_disk m w = (r, w')"
  shows "cache w' = cache w" and "file_at (disk w') = file_at (disk w)" and "execute w' = execute w"
    and "clock_ok h (disk w') = clock_ok h (disk w)"
proof -
  obtain s where s: "m (disk w) = (r, s)" "w' = w\<lparr>disk := s\<rparr>"
    using assms(2) by (auto simp: on_disk_def split: prod.splits)
  note k = touchesD [OF assms(1) s(1)]
  show "cache w' = cache w" "execute w' = execute w" using s(2) by simp_all
  show "file_at (disk w') = file_at (disk w)" using k(1) [of _ "{}"] s(2) by auto
  show "clock_ok h (disk w') = clock_ok h (disk w)"
    using k(5,6,9) s(2) by (simp add: clock_ok_def world_ok_def)
qed

definition world_serves :: "'r hooks \<Rightarrow> ('p, 'r, 'c) world \<Rightarrow> string \<Rightarrow> (string \<times> 'r) option" where
  "world_serves h w k = vouched h (cache w) (disk w) k"

definition world_sound :: "'r hooks \<Rightarrow> ('r \<Rightarrow> bool) \<Rightarrow> ('p, 'r, 'c) world \<Rightarrow> bool" where
  \<comment> \<open>memory and disk agree, and \<open>execute\<close> returns results the store accepts\<close>
  "world_sound h accepts w \<longleftrightarrow>
     manifest_ok h (cache w) \<and> synced h (cache w) (disk w) \<and> clock_ok h (disk w) \<and>
     (\<forall>n p c r. execute w n p c = Inr r \<longrightarrow> accepts r)"

lemma synced_files: "file_at s' = file_at s \<Longrightarrow> synced h st s' = synced h st s"
  by (simp add: synced_def disk_entries_def)

lemma vouched_files: "file_at s' = file_at s \<Longrightarrow> vouched h st s' k = vouched h st s k"
  by (simp add: vouched_def payload_of_def)

lemma unmoved_disk:
  assumes "\<And>F. touches F m" and "on_disk m w = (r, w')"
  shows "unmoved (world_sound h accepts) (world_serves h) w w'"
proof -
  note t = on_disk_touches [OF assms]
  have "world_serves h w' = world_serves h w"
    by (rule ext) (simp add: world_serves_def t(1) vouched_files [OF t(2)])
  then show ?thesis
    by (simp add: unmoved_def world_sound_def t(1,3,4) synced_files [OF t(2)])
qed

lemma unmoved_same:
  "cache w' = cache w \<Longrightarrow> disk w' = disk w \<Longrightarrow> execute w' = execute w \<Longrightarrow>
   unmoved (world_sound h accepts) (world_serves h) w w'"
  by (auto simp: unmoved_def world_sound_def world_serves_def fun_eq_iff)

lemma load_all_seq: "on_disk (load_all h (cache w) (KeyMap d)) w = load_seq (world_load h) (sort d) w"
proof -
  have "on_disk (load_each h (cache w) ks) w = load_seq (world_load h) ks w" for ks
  proof (induction ks arbitrary: w)
    case (Cons kx ks)
    obtain k x where kx: "kx = (k, x)" by fastforce
    obtain r s where l: "load h (cache w) k x (disk w) = (r, s)" by fastforce
    then show ?case
      using Cons.IH [of "w\<lparr>disk := s\<rparr>"] kx
      by (cases r) (auto simp: on_disk_def bind_act_def world_load_def ret_def split: prod.split sum.split)
  qed (simp add: on_disk_def ret_def)
  then show ?thesis by (simp add: load_all_def pairs_def)
qed

context payload_codec
begin

lemma pool_store:
  "result_store (pool_env h) (world_load h) (world_serves h) (world_sound h accepts) utf8_ok"
proof
  show "store_load_all (pool_env h) d = load_seq (world_load h) (sort d)" for d
    by (simp add: pool_env_def load_all_seq fun_eq_iff)
  show "store_iter (pool_env h) d = map (world_load h) (sort d)" for d
    by (simp add: pool_env_def)
next
  fix k x :: string and w :: "('a, 'r, 'b) world" and r w'
  assume "world_load h (k, x) w = (Inr r, w')"
  then show "world_serves h w k = Some (x, r)"
    using load_outcome by (auto simp: world_load_def on_disk_def world_serves_def split: prod.splits)
next
  fix kx and w :: "('a, 'r, 'b) world" and q w'
  assume "world_load h kx w = (q, w')"
  then show "unmoved (world_sound h accepts) (world_serves h) w w'"
    unfolding world_load_def by (rule unmoved_disk [OF touches_load])
next
  fix k x and w :: "('a, 'r, 'b) world" and w'
  assume "store_has (pool_env h) k x w = (Inr True, w')"
  then show "\<exists>r. world_serves h w k = Some (x, r)"
    using has_outcome by (fastforce simp: pool_env_def on_disk_def world_serves_def split: prod.splits)
next
  fix k x and w :: "('a, 'r, 'b) world" and b w'
  assume "store_has (pool_env h) k x w = (b, w')"
  then have "on_disk (has h (cache w) k x) w = (b, w')" by (simp add: pool_env_def)
  then show "unmoved (world_sound h accepts) (world_serves h) w w'" by (rule unmoved_disk [OF touches_has])
next
  fix w :: "('a, 'r, 'b) world" and x f r k w'
  assume a: "world_sound h accepts w" "utf8_ok x" "fut_result (pool_env h) f w = Inr r"
    "store_commit (pool_env h) k x r w = (Inr (), w')"
  then have acc: "accepts r"
    by (auto simp: pool_env_def run_one_def world_sound_def split: if_splits option.splits)
  from a(4) obtain st s where c: "commit h (cache w) k x r (disk w) = (Inr (), st, s)"
      and w': "w' = w\<lparr>cache := st, disk := s\<rparr>"
    by (auto simp: pool_env_def world_commit_def split: prod.splits)
  have ok: "manifest_ok h (cache w)" "synced h (cache w) (disk w)" "clock_ok h (disk w)"
    using a(1) by (simp_all add: world_sound_def)
  note d = commit_durable [OF c ok acc a(2)]
  have st: "manifest_ok h st" "synced h st s" "fingerprint st = fingerprint (cache w)" using d(4) by simp_all
  have v: "world_serves h w' j = durable h (fingerprint (cache w)) s j"
    "world_serves h w j = durable h (fingerprint (cache w)) (disk w) j" for j
    using synced_durable [OF st(1,2)] synced_durable [OF ok(1,2)] w' st(3) by (simp_all add: world_serves_def)
  have "world_sound h accepts w'" using st(1,2) d(5) a(1) w' by (simp add: world_sound_def)
  with v d(1,3) show "world_sound h accepts w' \<and> (\<exists>r'. world_serves h w' k = Some (x, r')) \<and>
      (\<forall>j. j \<noteq> k \<longrightarrow> world_serves h w' j = world_serves h w j)" by auto
next
  fix w :: "('a, 'r, 'b) world" and w'
  let ?same = "unmoved (world_sound h accepts) (world_serves h) w w'"
  show "monotonic (pool_env h) w = (t, w') \<Longrightarrow> ?same" for t
    by (rule unmoved_same) (auto simp: pool_env_def clock_def Let_def elapse_def)
  show "unmoved (world_sound h accepts) (world_serves h) w (sleep (pool_env h) d w)" for d
    by (rule unmoved_same) (simp_all add: pool_env_def elapse_def)
  show "uniform (pool_env h) lo hi w = (u, w') \<Longrightarrow> ?same" for lo hi u
    by (rule unmoved_same) (auto simp: pool_env_def draw_def)
  show "pool_submit (pool_env h) f p w = (ru, w') \<Longrightarrow> ?same" for f p ru
    by (rule unmoved_same)
      (auto simp: pool_env_def submit_def init_worker_def Let_def split: if_splits option.splits sum.splits)
  show "pool_wait (pool_env h) fs tm w = (dn, w') \<Longrightarrow> ?same" for fs tm dn
    by (rule unmoved_same)
      (auto simp: pool_env_def wait_first_def Let_def elapse_def split: if_splits option.splits)
  show "unmoved (world_sound h accepts) (world_serves h) w (pool_shutdown (pool_env h) w)"
    by (rule unmoved_same) (simp_all add: pool_env_def)
  show "td \<in> set (teardowns (pool_env h) v) \<Longrightarrow> td w = (tq, w') \<Longrightarrow> ?same" for td v tq
    by (rule unmoved_same) (auto simp: pool_env_def teardown_calls_def split: option.splits)
qed

end

interpretation jsonl_run: result_store "pool_env (jsonl sha pf cs v)" "world_load (jsonl sha pf cs v)"
    "world_serves (jsonl sha pf cs v)" "world_sound (jsonl sha pf cs v) (jsonl_accepts pf v)" utf8_ok
  for sha pf cs v
  by (rule jsonl_store.pool_store)

end
