(* ===== verification/Engine_Resume.thy ===== *)
theory Engine_Resume
  imports Pool_World
begin

text \<open>
  A run that finds everything cached. Without faults, when the store vouches for every root,
  the engine executes nothing, folds the cached results in key order and leaves every file as
  it was.
\<close>

definition cached :: "'r hooks \<Rightarrow> ('p, 'r, 'c) world \<Rightarrow> (string \<Rightarrow> 'r) \<Rightarrow> string \<times> string \<Rightarrow> bool" where
  "cached h w f kx \<longleftrightarrow> vouched h (cache w) (disk w) (fst kx) = Some (snd kx, f (fst kx))"

definition read_only :: "('p, 'r, 'c) world \<Rightarrow> ('p, 'r, 'c) world \<Rightarrow> bool" where
  "read_only w w' \<longleftrightarrow> (\<exists>s. w' = w\<lparr>disk := s\<rparr> \<and> file_at s = file_at (disk w) \<and> fault_free s = fault_free (disk w))"

lemma read_onlyE:
  assumes "read_only w w'"
  obtains s where "w' = w\<lparr>disk := s\<rparr>" and "file_at s = file_at (disk w)" and "fault_free s = fault_free (disk w)"
  using assms unfolding read_only_def by blast

lemma read_onlyI:
  "file_at s = file_at (disk w) \<Longrightarrow> fault_free s = fault_free (disk w) \<Longrightarrow> read_only w (w\<lparr>disk := s\<rparr>)"
  unfolding read_only_def by blast

lemma read_only_refl [simp]: "read_only w w"
  using read_onlyI [of "disk w" w] by simp

lemma read_only_trans:
  assumes "read_only u v" and "read_only v w"
  shows "read_only u w"
proof -
  from assms(1) obtain s where s: "v = u\<lparr>disk := s\<rparr>" "file_at s = file_at (disk u)" "fault_free s = fault_free (disk u)"
    by (rule read_onlyE)
  from assms(2) obtain t where t: "w = v\<lparr>disk := t\<rparr>" "file_at t = file_at (disk v)" "fault_free t = fault_free (disk v)"
    by (rule read_onlyE)
  have "w = u\<lparr>disk := t\<rparr>" unfolding t(1) s(1) by simp
  with read_onlyI [of t u] s t show ?thesis by simp
qed

lemma read_only_cached:
  assumes "read_only w w'"
  shows "cached h w' f kx = cached h w f kx"
proof -
  from assms obtain s where s: "w' = w\<lparr>disk := s\<rparr>" "file_at s = file_at (disk w)" by (rule read_onlyE)
  show ?thesis by (simp add: s(1) cached_def vouched_files [OF s(2)])
qed

lemma read_only_fault_free: "read_only w w' \<Longrightarrow> fault_free (disk w') = fault_free (disk w)"
  by (erule read_onlyE) simp

lemma read_only_fields:
  "read_only w w' \<Longrightarrow> created w' = created w \<and> submitted w' = submitted w \<and> file_at (disk w') = file_at (disk w)"
  by (erule read_onlyE) simp

lemma read_only_advance: "read_only w (w\<lparr>disk := advance (disk w)\<rparr>)"
  by (rule read_onlyI) simp_all

lemma cached_load:
  assumes "fault_free (disk w)" and "cached h w f kx"
  shows "world_load h kx w = (Inr (f (fst kx)), w\<lparr>disk := advance (disk w)\<rparr>)"
  using load_hit [OF assms(1) assms(2) [unfolded cached_def]] by (simp add: world_load_def on_disk_def)

lemma cached_has:
  assumes "fault_free (disk w)" and "cached h w f (k, x)"
  shows "store_has (pool_env h) k x w = (Inr True, w\<lparr>disk := advance (disk w)\<rparr>)"
  using has_hit [OF assms(1) assms(2) [unfolded cached_def]] by (simp add: pool_env_def on_disk_def)

lemma cached_seq:
  assumes "fault_free (disk w)" and "\<forall>kx\<in>set ks. cached h w f kx"
  shows "\<exists>w'. load_seq (world_load h) ks w = (Inr (map (\<lambda>kx. f (fst kx)) ks), w') \<and> read_only w w'"
  using assms
proof (induction ks arbitrary: w)
  case (Cons kx ks)
  let ?w = "w\<lparr>disk := advance (disk w)\<rparr>"
  have "fault_free (disk ?w)" "\<forall>kx\<in>set ks. cached h ?w f kx"
    using Cons.prems read_only_cached [OF read_only_advance [of w]] by simp_all
  from Cons.IH [OF this] obtain w' where "load_seq (world_load h) ks ?w = (Inr (map (\<lambda>kx. f (fst kx)) ks), w')"
    "read_only ?w w'" by blast
  moreover have "world_load h kx w = (Inr (f (fst kx)), ?w)" by (rule cached_load) (use Cons.prems in simp_all)
  ultimately show ?case using read_only_trans [OF read_only_advance [of w]] by simp
qed simp

lemma cached_fold:
  assumes "fault_free (disk w)" and "\<forall>kx\<in>set ks. cached h w f kx"
  shows "\<exists>w'. fold_results g acc (map (world_load h) ks) w = (fold_pure g acc (map (\<lambda>kx. f (fst kx)) ks), w') \<and> read_only w w'"
  using assms
proof (induction ks arbitrary: w acc)
  case (Cons kx ks)
  let ?w = "w\<lparr>disk := advance (disk w)\<rparr>"
  have ff: "fault_free (disk ?w)" "\<forall>kx\<in>set ks. cached h ?w f kx"
    using Cons.prems read_only_cached [OF read_only_advance [of w]] by simp_all
  have l: "world_load h kx w = (Inr (f (fst kx)), ?w)" by (rule cached_load) (use Cons.prems in simp_all)
  show ?case
  proof (cases "g acc (f (fst kx))")
    case (Inl x)
    with l show ?thesis using read_only_advance [of w] by auto
  next
    case (Inr acc')
    from Cons.IH [OF ff, of acc'] l Inr show ?thesis using read_only_trans [OF read_only_advance [of w]] by auto
  qed
qed simp

lemma cached_stitch:
  assumes "fault_free (disk w)" and "\<forall>kx\<in>set d. cached h w f kx" and "validate_mode cfg = Inr ()"
  shows "\<exists>w'. stitch cfg (pool_env h) d w = (outcome_of cfg (map (\<lambda>kx. f (fst kx)) (sort d)), w') \<and> read_only w w'"
proof -
  have k: "\<forall>kx\<in>set (sort d). cached h w f kx" using assms(2) by simp
  show ?thesis
  proof (cases "combine cfg")
    case (Some c)
    from cached_seq [OF assms(1) k] Some show ?thesis
      by (auto simp: stitch_def outcome_of_def pool_env_def load_all_seq)
  next
    case None
    then obtain g fin where m: "reduce cfg = Some g" "finalize cfg = Some fin"
      using assms(3) by (auto simp: validate_mode_def Let_def split: if_splits)
    from cached_fold [OF assms(1) k, of g "initial cfg"] obtain w' where
      "fold_results g (initial cfg) (map (world_load h) (sort d)) w
        = (fold_pure g (initial cfg) (map (\<lambda>kx. f (fst kx)) (sort d)), w')" "read_only w w'" by blast
    then show ?thesis
      by (intro exI [of _ w']) (simp add: stitch_def None m outcome_of_def pool_env_def split: sum.split)
  qed
qed

lemma cached_dispatch:
  assumes "fault_free (disk w)" and "\<forall>ad\<in>set rest. cached h w f (content_key ad, payload_hash ad)" and "inflight e = []"
  shows "\<exists>w'. dispatch cfg (pool_env h) rest e w = (Inr (), e\<lparr>ready := [], resumed := resumed e + int (length rest)\<rparr>, w') \<and>
     read_only w w'"
  using assms
proof (induction rest arbitrary: e w)
  case Nil
  then show ?case by (intro exI [of _ w]) simp
next
  case (Cons ad rest)
  let ?w = "w\<lparr>disk := advance (disk w)\<rparr>" and ?e = "e\<lparr>resumed := resumed e + 1\<rparr>"
  have "store_has (pool_env h) (content_key ad) (payload_hash ad) w = (Inr True, ?w)"
    by (rule cached_has [where f = f]) (use Cons.prems in simp_all)
  moreover have "max_workers cfg > 0" by (simp add: max_workers_def)
  ultimately have "dispatch cfg (pool_env h) (ad # rest) e w = dispatch cfg (pool_env h) rest ?e ?w"
    using Cons.prems(3) by simp
  moreover have "fault_free (disk ?w)" "\<forall>ad\<in>set rest. cached h ?w f (content_key ad, payload_hash ad)" "inflight ?e = []"
    using Cons.prems read_only_cached [OF read_only_advance [of w]] by simp_all
  from Cons.IH [OF this] obtain w' where
    "dispatch cfg (pool_env h) rest ?e ?w = (Inr (), ?e\<lparr>ready := [], resumed := resumed ?e + int (length rest)\<rparr>, w')"
    "read_only ?w w'" by blast
  ultimately show ?case using read_only_trans [OF read_only_advance [of w]] by auto
qed

lemma roots_queues:
  "admit_roots cfg its e = (Inr (), e1) \<Longrightarrow>
     delayed e1 = delayed e \<and> inflight e1 = inflight e \<and> fatal_exc e1 = fatal_exc e \<and> resumed e1 = resumed e \<and>
     attempts_total e1 = attempts_total e \<and> committed e1 = committed e \<and> retried e1 = retried e \<and>
     split_count e1 = split_count e \<and> length (ready e1) = length (ready e) + length its"
proof (induction its arbitrary: e)
  case (Cons it its)
  then obtain ad e2 where a: "admit cfg it 0 e = (Inr ad, e2)"
    and r: "admit_roots cfg its (enqueue_terminal ad e2) = (Inr (), e1)"
    by (auto split: prod.splits sum.splits)
  from a obtain lm where "e2 = e\<lparr>live_map := lm\<rparr>" unfolding admit_Inr by blast
  with Cons.IH [OF r] show ?case by (simp add: enqueue_terminal_def)
qed simp

lemma resume_run:
  assumes "validate_mode cfg = Inr ()" and "admit_roots cfg items initial_engine = (Inr (), e0)"
    and "fault_free (disk w)" and "created w = []" and "\<not> cleanup_on_success cfg"
    and "\<forall>ad\<in>set (ready e0). cached h w f (content_key ad, payload_hash ad)"
    and "outcome_of cfg (map (\<lambda>kx. f (fst kx)) (leaf_map (ready e0))) = Inr out"
  shows "\<exists>w'. run_checkpointed cfg (pool_env h) items w =
      Some (Inr \<lparr>frame = out, attempts = 0, committed_keys = 0, resumed_keys = int (length items),
                 transient_retries = 0, splits = 0\<rparr>, w') \<and>
     submitted w' = submitted w \<and> file_at (disk w') = file_at (disk w)"
proof -
  note q = roots_queues [OF assms(2), unfolded initial_engine_def, simplified]
  let ?e1 = "e0\<lparr>ready := [], resumed := resumed e0 + int (length (ready e0))\<rparr>"
  from cached_dispatch [OF assms(3,6) q [THEN conjunct2, THEN conjunct1], of cfg] obtain w1
    where d: "dispatch cfg (pool_env h) (ready e0) e0 w = (Inr (), ?e1, w1)" and r1: "read_only w w1" by blast
  have nf: "\<not> unfinished ?e1" using q by (simp add: unfinished_def)
  have loop: "run_loop cfg (pool_env h) e0 w = Some (Inr (), ?e1, w1)"
  proof (cases "unfinished e0")
    case True
    have "iteration cfg (pool_env h) e0 w = (Inr (), ?e1, w1)" using d q by (simp add: iteration_def)
    with True nf show ?thesis by (subst run_loop.simps) (simp add: run_loop.simps [of _ _ ?e1])
  next
    case False
    then have "ready e0 = []" using q by (simp add: unfinished_def)
    with d have "?e1 = e0" "w1 = w" by simp_all
    with False show ?thesis by (simp add: run_loop.simps)
  qed
  from admit_roots_inv [OF assms(2) initial_inv] obtain ls where i: "loop_inv cfg items ls [] e0"
    by (auto simp: initial_engine_def)
  from dispatch_inv [OF d, of items ls] i have i1: "keys_inv cfg items ls [] ?e1" by (simp add: loop_inv_def)
  have p: "pending e0 = ready e0" using q by (simp add: pending_def)
  have "length ls = length (ready e0)" "mset (ready e0) \<subseteq># mset ls"
    using i q p by (simp_all add: loop_inv_def count_inv_def keys_inv_def)
  then have m: "mset (ready e0) = mset ls"
    by (metis size_mset subset_mset.le_imp_less_or_eq mset_subset_size order_less_irrefl)
  have lm: "leaf_map (ready e0) = leaf_map ls"
    unfolding leaf_map_def by (rule properties_for_sort) (simp_all add: m)
  have x: "expected_map ?e1 = Inr (leaf_map (ready e0))" using expected_map_leaves [OF i1] lm by simp
  let ?w2 = "w1\<lparr>closed := True\<rparr>"
  have "created w1 = []" using read_only_fields [OF r1] assms(4) by simp
  then have f: "finally_block (pool_env h) w1 = (Inr (), ?w2)"
    by (cases "worker_teardown w1") (simp_all add: finally_block_def pool_env_def teardown_calls_def Let_def)
  have ff: "fault_free (disk ?w2)" using read_only_fault_free [OF r1] assms(3) by simp
  have "\<forall>kx\<in>set (leaf_map (ready e0)). cached h ?w2 f kx"
    using assms(6) read_only_cached [OF r1] by (auto simp: leaf_map_def cached_def)
  from cached_stitch [OF ff this assms(1)] assms(7) obtain w3
    where s: "stitch cfg (pool_env h) (leaf_map (ready e0)) ?w2 = (Inr out, w3)" "read_only ?w2 w3"
    by (auto simp: leaf_map_sorted)
  have "run_checkpointed cfg (pool_env h) items w = Some (conclude cfg (pool_env h) ?e1 ?w2)"
    using assms(1,2) loop f q by (simp add: run_checkpointed_def Let_def)
  moreover have "conclude cfg (pool_env h) ?e1 ?w2 =
      (Inr \<lparr>frame = out, attempts = 0, committed_keys = 0, resumed_keys = int (length items),
            transient_retries = 0, splits = 0\<rparr>, w3)"
    using x s(1) assms(5) q by (simp add: conclude_def)
  moreover have "submitted w3 = submitted w" "file_at (disk w3) = file_at (disk w)"
    using read_only_fields [OF r1] read_only_fields [OF s(2)] by simp_all
  ultimately show ?thesis by simp
qed

end
