(* ===== verification/Store_Reopen.thy ===== *)
theory Store_Reopen
  imports Store_Live
begin

text \<open>
  What a new process makes of the directory an old one left: with a valid manifest it serves
  exactly what is durable, except that the sweep of temporary files removes every name with
  \<open>.tmp.\<close> in it; with any other manifest it leaves an empty, valid cache. Then the frames of \<open>commit\<close> and
  \<open>open_store\<close>, and the type of the entries of every store that is opened and committed to
  (\<open>store_state\<close>).
\<close>

lemma sweep_outcome:
  assumes "fault_free s"
  obtains s' where "sweep_orphan_tmps s = (Inr (), s')"
    and "\<And>n. file_at s' n = (if is_tmp_name n \<and> file_at s n \<noteq> Some SubDir then None else file_at s n)"
proof -
  let ?ns = "filter is_tmp_name (map fst (files s))"
  have "n \<in> set ?ns \<longleftrightarrow> is_tmp_name n" if "file_at s n \<noteq> None" for n
    using that dict_get_in [of "files s" n] by force
  moreover from unlink_each_run [OF assms, of ?ns] obtain s' where "unlink_each ?ns s = (Inr (), s')"
    "\<forall>n. file_at s' n = (if n \<in> set ?ns \<and> file_at s n \<noteq> Some SubDir then None else file_at s n)" by blast
  ultimately show ?thesis using that [of s'] by (simp only: sweep_orphan_tmps_def) (metis (full_types))
qed

lemma tmp_name_is_tmp: "tmp_name f s = (Inr t, s') \<Longrightarrow> is_tmp_name t"
proof -
  assume "tmp_name f s = (Inr t, s')"
  then obtain q where "t = f @ ''.tmp.'' @ q" by (auto simp: tmp_name_def)
  then show ?thesis unfolding is_tmp_name_def by (metis sublist_appendI)
qed

lemma open_steps:
  assumes "mkdir s = (Inr (), s1)" and "load_or_invalidate_manifest h fp s1 = (Inr st, s2)"
    and "sweep_orphan_tmps s2 = (Inr (), s3)" and "fp \<noteq> []"
  shows "open_store h (Some True) fp s = (Inr st, s3)"
  using assms by (simp add: open_store_def then_act_def bind_act_def ret_def)

text \<open>A valid manifest.\<close>

lemma reopen_valid:
  assumes "fault_free s" and "fp \<noteq> []" and "disk_entries h fp s = Some es"
  obtains s' where "open_store h (Some True) fp s = (Inr \<lparr>fingerprint = fp, entries = es\<rparr>, s')"
    and "\<And>n. file_at s' n = (if is_tmp_name n \<and> file_at s n \<noteq> Some SubDir then None else file_at s n)"
    and "fault_free s'"
proof -
  obtain s1 where m: "mkdir s = (Inr (), s1)" and f1: "file_at s1 = file_at s" "fault_free s1"
    using mkdir_outcome assms(1) by (metis surj_pair)
  obtain s2 where q: "read_manifest h fp s1 = (Inr (disk_entries h fp s1), s2)"
    using read_manifest_fault_free [OF f1(2)] by (metis prod.collapse)
  have d: "disk_entries h fp s1 = Some es" using assms(3) disk_entries_keeps [of s1 s h fp] f1(1) by simp
  note k = touches_keeps [OF touches_read_manifest q, of "{}"]
  have "fault_free s2" using f1(2) keepsD(3) [OF k] by (simp add: fault_free_def)
  from sweep_outcome [OF this] obtain s3 where w: "sweep_orphan_tmps s2 = (Inr (), s3)"
    "\<And>n. file_at s3 n = (if is_tmp_name n \<and> file_at s2 n \<noteq> Some SubDir then None else file_at s2 n)" by blast
  have l: "load_or_invalidate_manifest h fp s1 = (Inr \<lparr>fingerprint = fp, entries = es\<rparr>, s2)"
    using q d by (simp add: load_or_invalidate_manifest_def bind_act_def ret_def)
  have "touches UNIV sweep_orphan_tmps"
    using touches_unlink_each by (auto simp: touches_def sweep_orphan_tmps_def)
  then have "fault_free s3" using w(1) \<open>fault_free s2\<close> fault_free_touches by blast
  moreover have "file_at s2 n = file_at s n" for n using keepsD(1) [OF k, of n] f1(1) by simp
  ultimately show ?thesis using that [OF open_steps [OF m l w(1) assms(2)]] w(2) by simp
qed

text \<open>Any other manifest.\<close>

lemma reopen_invalid:
  assumes "fault_free s" and "writable_cache s" and "world_ok s" and "fp \<noteq> []" and "disk_entries h fp s = None"
  obtains s' where "open_store h (Some True) fp s = (Inr \<lparr>fingerprint = fp, entries = []\<rparr>, s')"
    and "\<And>n. file_at s' n \<noteq> None \<Longrightarrow> n = MANIFEST_NAME"
    and "file_at s' MANIFEST_NAME = Some (RegFile (dumps True (manifest_doc \<lparr>fingerprint = fp, entries = []\<rparr>)))"
proof -
  let ?st = "\<lparr>fingerprint = fp, entries = []\<rparr>"
  obtain s1 where m: "mkdir s = (Inr (), s1)" and f1: "file_at s1 = file_at s" "fault_free s1" "dir_exists s1"
    using mkdir_outcome assms(1) by (metis surj_pair)
  have w1: "world_ok s1" using m assms(3) by (auto simp: mkdir_def syscall_def Let_def world_ok_def split: fault.splits option.splits)
  obtain s2 where q: "read_manifest h fp s1 = (Inr (disk_entries h fp s1), s2)"
    using read_manifest_fault_free [OF f1(2)] by (metis prod.collapse)
  have d: "disk_entries h fp s1 = None" using assms(5) disk_entries_keeps [of s1 s h fp] f1(1) by simp
  note k = touches_keeps [OF touches_read_manifest q, of "{}"]
  have s2: "fault_free s2" "\<And>n. file_at s2 n \<noteq> Some SubDir" "dir_exists s2" "world_ok s2"
    using f1 w1 assms(2) keepsD(1,2,3,6) [OF k] by (simp_all add: fault_free_def writable_cache_def world_ok_def)
  obtain s3 where w: "wipe_tree s2 = (Inr (), s3)"
    and wf: "\<And>n. file_at s3 n = (if file_at s2 n = Some SubDir then Some SubDir else None)"
    using wipe_run [OF s2(1,3)] by blast
  have kw: "keeps UNIV s2 s3"
    by (rule touches_keeps [OF touches_wipe w])
  have s3: "calm s3"
    using keepsD(2,3,6) [OF kw] s2 wf by (simp add: calm_def fault_free_def writable_cache_def world_ok_def)
  obtain s4 where wm: "write_manifest ?st s3 = (Inr (), s4)" "calm s4" using calm_manifest [OF s3] .
  obtain t where t: "tmp_name MANIFEST_NAME s3 = (Inr t, advance s3)" "is_hex (last t)"
    using tmp_name_last s3 by (metis calm_def)
  have kt: "keeps {t, MANIFEST_NAME} (advance s3) s4"
    using wm(1) t touches_keeps [OF touches_via_tmp [OF touches_write]]
    by (simp add: write_manifest_def via_tmp_def bind_act_def)
  have mf: "file_at s4 MANIFEST_NAME = Some (RegFile (dumps True (manifest_doc ?st)))"
    using write_manifest_outcome [OF wm(1)] s3 by (metis calm_def sum.distinct(1))
  have only: "file_at s4 n = None \<or> n = MANIFEST_NAME \<or> is_tmp_name n" for n
    using keepsD(1) [OF kt, of n] wf [of n] s2(2) tmp_name_is_tmp [OF t(1)] by (cases "n \<in> {t, MANIFEST_NAME}") auto
  have l: "load_or_invalidate_manifest h fp s1 = (Inr ?st, s4)"
    using q d w wm(1) by (simp add: load_or_invalidate_manifest_def bind_act_def then_act_def ret_def)
  have "fault_free s4" using wm(2) by (simp add: calm_def)
  from sweep_outcome [OF this] obtain s5 where sw: "sweep_orphan_tmps s4 = (Inr (), s5)"
    "\<And>n. file_at s5 n = (if is_tmp_name n \<and> file_at s4 n \<noteq> Some SubDir then None else file_at s4 n)" by blast
  have nt: "\<not> is_tmp_name MANIFEST_NAME" by (simp add: is_tmp_name_def MANIFEST_NAME_def sublist_code)
  have "file_at s4 n \<noteq> Some SubDir" for n using wm(2) by (simp add: calm_def writable_cache_def)
  then have "n = MANIFEST_NAME" if "file_at s5 n \<noteq> None" for n
    using that only [of n] sw(2) [of n] by (auto split: if_splits)
  with that [OF open_steps [OF m l sw(1) assms(4)]] sw(2) nt mf show ?thesis by simp
qed

section \<open>A directory with a manifest of ours\<close>

definition disk_valid :: "'r hooks \<Rightarrow> string \<Rightarrow> os \<Rightarrow> bool" where
  \<comment> \<open>the manifest on disk is one a store of this fingerprint wrote\<close>
  "disk_valid h fp s \<longleftrightarrow> (\<exists>st. manifest_ok h st \<and> fingerprint st = fp \<and> synced h st s)"

lemma disk_valid_file: "file_at s' MANIFEST_NAME = file_at s MANIFEST_NAME \<Longrightarrow> disk_valid h fp s' = disk_valid h fp s"
  by (simp add: disk_valid_def synced_def disk_entries_def)

lemma reopen_sound:
  assumes "disk_valid h fp t" and "fault_free t" and "fp \<noteq> []"
  obtains st t1 where "open_store h (Some True) fp t = (Inr st, t1)" and "fingerprint st = fp" and "fault_free t1"
    and "manifest_ok h st" and "synced h st t1"
    and "\<And>k. \<not> is_tmp_name (k @ suffix h) \<Longrightarrow> vouched h st t1 k = durable h fp t k"
proof -
  from assms(1) obtain st0 where st0: "manifest_ok h st0" "fingerprint st0 = fp" "synced h st0 t"
    by (auto simp: disk_valid_def)
  let ?es = "norm_entries (entries st0)" and ?st = "\<lparr>fingerprint = fp, entries = norm_entries (entries st0)\<rparr>"
  have es: "disk_entries h fp t = Some ?es" using st0(2,3) by (simp add: synced_def)
  from reopen_valid [OF assms(2,3) es] obtain t1 where o: "open_store h (Some True) fp t = (Inr ?st, t1)" "fault_free t1"
      and f: "\<And>n. file_at t1 n = (if is_tmp_name n \<and> file_at t n \<noteq> Some SubDir then None else file_at t n)" by blast
  have "st0\<lparr>entries := ?es\<rparr> = ?st" by (cases st0) (use st0(2) in simp)
  then have ok: "manifest_ok h ?st" using manifest_ok_norm [OF st0(1)] by simp
  have "\<not> is_tmp_name MANIFEST_NAME" by (simp add: is_tmp_name_def MANIFEST_NAME_def sublist_code)
  then have d1: "disk_entries h fp t1 = Some ?es" using disk_entries_keeps [of t1 t h fp] f es by simp
  then have sy: "synced h ?st t1" by (simp add: synced_def norm_entries_idem)
  have "vouched h ?st t1 k = durable h fp t k" if "\<not> is_tmp_name (k @ suffix h)" for k
  proof -
    have "payload_of h t1 k = payload_of h t k" using that f by (intro payload_of_same) simp
    then have "durable h fp t1 k = durable h fp t k" using d1 es by (intro durable_cong) simp_all
    with synced_durable [OF ok sy, of k] show ?thesis by simp
  qed
  with that [OF o(1) _ o(2) ok sy] show ?thesis by simp
qed

context store_codec
begin

lemma commit_valid:
  assumes "commit h st k ph r s = (res, st', s')" and "manifest_ok h st" and "synced h st s"
    and "clock_ok h s" and "utf8_ok ph"
  shows "disk_valid h (fingerprint st) s'"
proof -
  obtain r1 s1 where w: "write_payload h st k ph r s = (r1, s1)" by fastforce
  note pw = payload_written [OF w assms(4)]
  have v1: "disk_valid h (fingerprint st) s1"
    unfolding disk_valid_file [OF pw(1)] using assms(2,3) by (auto simp: disk_valid_def)
  show ?thesis
  proof (cases r1)
    case (Inl x)
    with assms(1) w v1 show ?thesis by (simp add: commit_def)
  next
    case (Inr e)
    from pw(4) [OF Inr] obtain body where b: "payload_new h s st k ph r e body" by blast
    let ?st1 = "st\<lparr>entries := dict_set k e (entries st)\<rparr>"
    have p: "publish st k e s1 = (res, st', s')" using assms(1) w Inr by (simp add: commit_def)
    from publish_durable(3) [OF p assms(2) commit_entry_ok [OF b assms(5,4)] pw(5)] have ok1: "manifest_ok h ?st1" .
    obtain r2 where m: "write_manifest ?st1 s1 = (r2, s')"
      using p by (auto simp: publish_def Let_def split: prod.splits sum.splits)
    from manifest_written(2) [OF m pw(5)] show ?thesis
    proof
      assume "file_at s' MANIFEST_NAME = Some (RegFile (dumps True (manifest_doc ?st1)))"
      from disk_entries_written [OF ok1 this] ok1 show ?thesis unfolding disk_valid_def by (intro exI [of _ ?st1]) simp
    next
      assume "(\<exists>x. r2 = Inl x) \<and> file_at s' MANIFEST_NAME = file_at s1 MANIFEST_NAME"
      then show ?thesis using v1 disk_valid_file by blast
    qed
  qed
qed

end

section \<open>Frames of commit and open\<close>

lemma touches_each: "touches UNIV (fs_write n b)" "touches UNIV (atomic_replace_file n m)" "touches UNIV (lift_result q)"
  using touches_mono [OF touches_write] touches_mono [OF touches_atomic_replace]
  by (auto simp: lift_result_def touches_def)

lemma touches_write_manifest: "touches UNIV (write_manifest st)"
  unfolding write_manifest_def by (intro touches_bind touches_then touches_draws touches_each)

lemma keeps_commit:
  assumes "commit h st k ph r s = (q, st', s')"
  shows "keeps UNIV s s'" and "fingerprint st' = fingerprint st"
proof -
  have p: "touches UNIV (write_payload h st k ph r)"
    unfolding write_payload_def write_file_def
    by (auto split: prod.split intro!: touches_bind touches_then touches_draws touches_each touches_ret)
  obtain q1 s1 where w: "write_payload h st k ph r s = (q1, s1)" by fastforce
  note k1 = touches_keeps [OF p w]
  show "keeps UNIV s s'"
    using assms w k1 touches_keeps [OF touches_write_manifest] keeps_trans [OF k1]
    by (auto simp: commit_def publish_def Let_def split: sum.splits prod.splits)
  show "fingerprint st' = fingerprint st"
    using assms by (auto simp: commit_def publish_def Let_def split: sum.splits prod.splits option.splits if_splits)
qed

lemma touches_sweep: "touches UNIV sweep_orphan_tmps"
  using touches_unlink_each [of _ UNIV] by (simp add: touches_def sweep_orphan_tmps_def)

lemma touches_open: "touches UNIV (bind_act (load_or_invalidate_manifest h fp) (\<lambda>st. then_act sweep_orphan_tmps (ret st)))"
  unfolding load_or_invalidate_manifest_def
  by (auto split: option.split intro!: touches_bind touches_then touches_read_manifest touches_wipe touches_sweep
      touches_write_manifest touches_ret)

lemma mkdir_clock: "mkdir s = (r, s1) \<Longrightarrow> clock_ok h s1 = clock_ok h s"
  by (auto simp: mkdir_def syscall_def Let_def clock_ok_def world_ok_def split: fault.splits option.splits)

lemma open_clock:
  assumes "open_store h lock fp s = (r, s')"
  shows "clock_ok h s' = clock_ok h s"
proof -
  let ?rest = "bind_act (load_or_invalidate_manifest h fp) (\<lambda>st. then_act sweep_orphan_tmps (ret st))"
  have k: "keeps UNIV s1 s2 \<Longrightarrow> clock_ok h s2 = clock_ok h s1" for s1 s2
    using keepsD(5,6,9) [of UNIV s1 s2] by (simp add: clock_ok_def world_ok_def)
  obtain u s1 where m: "mkdir s = (u, s1)" by fastforce
  from assms m consider "s' = s" | "s' = s1" | "?rest s1 = (r, s')"
    by (auto simp: open_store_def raise_def then_act_def bind_act_def [of mkdir] split: if_splits sum.splits)
  then show ?thesis
  proof cases
    case 3
    from k [OF touches_keeps [OF touches_open 3]] mkdir_clock [OF m, of h] show ?thesis by simp
  qed (simp_all add: mkdir_clock [OF m])
qed

section \<open>The type of a stored entry\<close>

inductive store_state :: "'r hooks \<Rightarrow> store \<Rightarrow> bool" for h where
  \<comment> \<open>what a store object can hold between two calls\<close>
  opened: "open_store h lock fp s = (Inr st, s') \<Longrightarrow> store_state h st"
| committed: "store_state h st \<Longrightarrow> commit h st k ph r s = (res, st', s') \<Longrightarrow> store_state h st'"

definition typed_entry :: "string \<Rightarrow> entry \<Rightarrow> bool" where
  "typed_entry k e \<longleftrightarrow> is_safe_key k \<and> (\<forall>f\<in>set required_fields. is_str (dict_get e f))"

definition typed_store :: "store \<Rightarrow> bool" where
  "typed_store st \<longleftrightarrow> (\<forall>(k, e)\<in>set (entries st). typed_entry k e)"

lemma dict_update_strings:
  "is_str (dict_get d f) \<Longrightarrow> is_str (dict_get (dict_update d (map (\<lambda>(k, v). (k, JStr v)) ex)) f)"
  by (induction ex arbitrary: d) (auto simp: is_str_def)

lemma commit_entry_typed: "is_safe_key k \<Longrightarrow> typed_entry k (commit_entry ph digest n c gen now ex)"
  unfolding typed_entry_def commit_entry_def
  by (auto simp: required_fields_def intro!: dict_update_strings) (simp_all add: is_str_def)

lemma write_payload_typed: "write_payload h st k ph r s = (Inr e, s') \<Longrightarrow> typed_entry k e"
  by (auto simp: write_payload_def then_act_def bind_act_Inr lift_result_def path_for_def ret_def split: if_splits
      intro!: commit_entry_typed)

lemma typed_set: "typed_store st \<Longrightarrow> typed_entry k e \<Longrightarrow> typed_store (st\<lparr>entries := dict_set k e (entries st)\<rparr>)"
  by (auto simp: typed_store_def dest!: dict_set_values)

lemma commit_typed:
  assumes "commit h st k ph r s = (res, st', s')" and "typed_store st"
  shows "typed_store st'"
proof (cases res)
  case (Inl x)
  show ?thesis
  proof (cases "is_Exception x")
    case True
    with commit_rollback [of h st k ph r s x st' s'] assms Inl show ?thesis by simp
  next
    case False
    from assms(1) Inl False consider "st' = st" | e s1 where "write_payload h st k ph r s = (Inr e, s1)"
        "st' = st\<lparr>entries := dict_set k e (entries st)\<rparr>"
      by (auto simp: commit_def publish_def Let_def split: prod.splits sum.splits if_splits)
    then show ?thesis
    proof cases
      case 2
      from typed_set [OF assms(2) write_payload_typed [OF 2(1)]] 2(2) show ?thesis by simp
    qed (use assms(2) in simp)
  qed
next
  case (Inr u)
  with assms(1) obtain e s1 where e: "write_payload h st k ph r s = (Inr e, s1)"
      "st' = st\<lparr>entries := dict_set k e (entries st)\<rparr>"
    by (auto simp: commit_def publish_def Let_def split: prod.splits sum.splits if_splits)
  from typed_set [OF assms(2) write_payload_typed [OF e(1)]] e(2) show ?thesis by simp
qed

lemma well_formed_typed: "entry_well_formed (k, v) \<Longrightarrow> typed_entry k (obj_fields v)"
  by (cases v) (simp_all add: entry_well_formed_def typed_entry_def obj_fields_def list_all_iff)

lemma open_typed:
  assumes "open_store h lock fp s = (Inr st, s')"
  shows "typed_store st"
  using open_outcome(4) [OF assms]
proof
  assume "disk_entries h fp s = Some (entries st) \<and> (\<forall>n. \<not> is_tmp_name n \<longrightarrow> file_at s' n = file_at s n)"
  then obtain t where "parse_manifest h fp t = Some (entries st)"
    by (auto simp: disk_entries_def split: option.splits node.splits)
  then obtain es where "entries_well_formed es" "entries st = map (\<lambda>(k, v). (k, obj_fields v)) es"
    by (auto simp: parse_manifest_def split: if_splits option.splits json.splits)
  then show ?thesis by (auto simp: typed_store_def entries_well_formed_def list_all_iff intro!: well_formed_typed)
qed (simp add: typed_store_def)

end
