(* ===== verification/Store_Theorems.thy ===== *)
theory Store_Theorems
  imports Jsonl_Live Store_Reopen
begin

text \<open>
  The properties of the manifest store and of the JSONL store, each on the model's own
  definitions, with witnesses on a small cache: one process, the manifest of an empty cache,
  and either no fault or a process killed in the middle of a commit.
\<close>

section \<open>A small cache\<close>

abbreviation demo_hooks :: "json list hooks" where
  "demo_hooks \<equiv> jsonl (\<lambda>b. ''d'') (\<lambda>t. t) (\<lambda>v. []) None"

definition demo_store :: store where
  "demo_store = \<lparr>fingerprint = ''f'', entries = []\<rparr>"

definition demo_os :: "(nat \<Rightarrow> fault) \<Rightarrow> os" where
  "demo_os faults =
     \<lparr>files = [(MANIFEST_NAME, RegFile (dumps True (manifest_doc demo_store)))], dir_exists = True, tick = 0,
      fault_at = faults, urandom_at = (\<lambda>n. [1, 2, 3, 4]), uuid4_at = (\<lambda>n. ''g''), time_at = (\<lambda>n. ''1.5''),
      pid = 7, is_windows = False\<rparr>"

definition demo_rows :: "json list" where
  "demo_rows = [JObj [(''a'', JInt 1)]]"

abbreviation quiet :: "nat \<Rightarrow> fault" where "quiet \<equiv> \<lambda>n. NoFault"

abbreviation dies :: "nat \<Rightarrow> fault" where "dies \<equiv> \<lambda>n. if n = 4 then Kills None else NoFault"

lemma demo_os_simps [simp]:
  "fault_at (demo_os f) = f" "dir_exists (demo_os f)" "urandom_at (demo_os f) = (\<lambda>n. [1, 2, 3, 4])"
  by (simp_all add: demo_os_def)

lemma demo_manifest_ok: "manifest_ok h demo_store"
  by (simp add: manifest_ok_def demo_store_def utf8_ok_printable printable_def)

lemma demo_synced: "synced h demo_store (demo_os f)"
  by (rule disk_entries_written [OF demo_manifest_ok]) (simp add: demo_os_def file_at_def)

lemma demo_clock: "clock_ok demo_hooks (demo_os f)"
proof -
  have "float_ok (\<lambda>t. t) ''1.5''" by code_simp
  then show ?thesis
    by (simp add: clock_ok_def world_ok_def demo_os_def jsonl_def utf8_ok_printable printable_def)
qed

lemma demo_accepts: "jsonl_accepts (\<lambda>t. t) None demo_rows"
  by (simp add: jsonl_accepts_def demo_rows_def jsonl_validate_def)

lemma demo_calm: "calm (demo_os quiet)"
  by (simp add: calm_def fault_free_def writable_cache_def world_ok_def demo_os_def file_at_def)

lemma safe_names: "is_safe_key ''k''" "\<not> is_safe_key ''../k''"
  by (simp_all add: is_safe_key_def key_char_def)

lemma ascii_names: "utf8_ok ''k''" "utf8_ok ''h''"
  by (simp_all add: utf8_ascii)

lemma demo_commit:
  obtains st' s' where "commit demo_hooks demo_store ''k'' ''h'' demo_rows (demo_os quiet) = (Inr (), st', s')"
    and "calm s'"
  by (rule jsonl_commit_returns [OF demo_calm demo_clock demo_manifest_ok safe_names(1) ascii_names(2), of demo_rows])
    (simp_all add: demo_rows_def utf8_ascii)

lemma demo_served:
  obtains st' s' where "calm s'" and "vouched demo_hooks st' s' ''k'' = Some (''h'', map jnorm demo_rows)"
proof -
  obtain st' s' where c: "commit demo_hooks demo_store ''k'' ''h'' demo_rows (demo_os quiet) = (Inr (), st', s')"
      "calm s'" by (rule demo_commit)
  note d = jsonl_store.commit_durable [OF c(1) demo_manifest_ok demo_synced demo_clock demo_accepts ascii_names(2)]
  have "vouched demo_hooks st' s' ''k'' = Some (''h'', map jnorm demo_rows)"
    using synced_durable [of demo_hooks st' s' "''k''"] d(3,4) by simp
  with c(2) show ?thesis by (rule that)
qed

lemma calm_fault_free: "calm s \<Longrightarrow> fault_free s"
  by (simp add: calm_def)

section \<open>Commit\<close>

text \<open>C6: A commit of the JSONL store is crash-atomic. Take a store whose memory is well formed, any
  records of Python values and a hash that is text, and let any system call of commit fail or be
  the one at which the process dies. Every other key keeps its durable result if memory and
  manifest agreed before; if they did not, as after an earlier commit that raised after its
  replace, it has the old durable result or the one memory vouched for. The committed key durably
  holds its old result, nothing, or the whole new result, which is served as JSON reads it back and
  only if the record_validator passes it then: commit does not ask the validator, so a result it
  rejects is committed and is a miss. When commit returns normally, that new value is the durable
  one, every other key has what memory vouched for, and the manifest in memory is the one on disk.\<close>
theorem commit_crash_atomic:
  assumes "commit (jsonl sha pf cs v) st k ph r s = (res, st', s')"
    and "manifest_ok (jsonl sha pf cs v) st" and "clock_ok (jsonl sha pf cs v) s"
    and "json_records pf r" and "utf8_ok ph"
    and "new = (if jsonl_validate v (map jnorm r) [] = Inr True then Some (ph, map jnorm r) else None)"
  shows "(\<forall>j. j \<noteq> k \<longrightarrow>
        durable (jsonl sha pf cs v) (fingerprint st) s' j
          \<in> {durable (jsonl sha pf cs v) (fingerprint st) s j, vouched (jsonl sha pf cs v) st s j} \<and>
        (synced (jsonl sha pf cs v) st s \<longrightarrow>
           durable (jsonl sha pf cs v) (fingerprint st) s' j = durable (jsonl sha pf cs v) (fingerprint st) s j)) \<and>
     durable (jsonl sha pf cs v) (fingerprint st) s' k
       \<in> {durable (jsonl sha pf cs v) (fingerprint st) s k, None, new} \<and>
     (res = Inr () \<longrightarrow>
        durable (jsonl sha pf cs v) (fingerprint st) s' k = new \<and>
        (\<forall>j. j \<noteq> k \<longrightarrow> durable (jsonl sha pf cs v) (fingerprint st) s' j = vouched (jsonl sha pf cs v) st s j) \<and>
        manifest_ok (jsonl sha pf cs v) st' \<and> synced (jsonl sha pf cs v) st' s')"
proof -
  have n: "seen (jsonl_served v) ph r = new" unfolding assms(6) by (simp add: seen_def jsonl_served_def)
  note o = jsonl_store.commit_outcome [OF assms(1-5), unfolded n]
  note y = jsonl_store.commit_synced [OF assms(1,2) _ assms(3-5)]
  show ?thesis using o(1,2) o(3,4) y by blast
qed

theorem commit_crash_atomic_witness:
  "\<exists>res st' s'. commit demo_hooks demo_store ''k'' ''h'' demo_rows (demo_os dies) = (res, st', s') \<and>
     durable demo_hooks ''f'' s' ''k'' \<in> {durable demo_hooks ''f'' (demo_os dies) ''k'', None, Some (''h'', map jnorm demo_rows)}"
proof -
  obtain res st' s' where c: "commit demo_hooks demo_store ''k'' ''h'' demo_rows (demo_os dies) = (res, st', s')"
    by (metis prod.collapse)
  have "json_records (\<lambda>t. t) demo_rows" and v: "jsonl_validate None rs [] = Inr True" for rs
    by (simp_all add: demo_rows_def jsonl_validate_def)
  from commit_crash_atomic [OF c demo_manifest_ok demo_clock this(1) ascii_names(2) refl] c
  show ?thesis by (simp add: demo_store_def v)
qed

text \<open>C13: A commit that raises an Exception leaves the store's memory exactly as it was, whether
  the key had an entry before or not: no instance reports a key whose commit failed.\<close>
theorem failed_commit_rolls_back:
  assumes "commit h st k ph r s = (Inl x, st', s')" and "is_Exception x"
  shows "st' = st"
  using assms by (rule commit_rollback)

theorem failed_commit_rolls_back_witness:
  "commit demo_hooks demo_store ''../k'' ''h'' demo_rows (demo_os quiet)
     = (Inl (unsafe_key ''../k''), demo_store, advance (demo_os quiet))"
proof -
  have c: "\<exists>st'. commit demo_hooks demo_store ''../k'' ''h'' demo_rows (demo_os quiet)
      = (Inl (unsafe_key ''../k''), st', advance (demo_os quiet))"
  proof -
    have "\<exists>d. digest_info demo_hooks demo_rows = Inr d"
      using jsonl_storable [OF safe_names(1), of demo_rows "\<lambda>t. t"] by (auto simp: storable_def demo_rows_def utf8_ascii)
    then show ?thesis
      by (auto simp: commit_def write_payload_def run_uuid4 path_for_def safe_names jsonl_def)
  qed
  then obtain st' where c: "commit demo_hooks demo_store ''../k'' ''h'' demo_rows (demo_os quiet)
      = (Inl (unsafe_key ''../k''), st', advance (demo_os quiet))" ..
  with failed_commit_rolls_back [OF c] show ?thesis by (simp add: unsafe_key_def)
qed

text \<open>A result committed by a call that returned normally is served: a later load and a
  later has of the same key and hash, with no faults in between, return the result as JSON reads
  it back, and True.\<close>
lemma commit_then_load:
  assumes "commit (jsonl sha pf cs v) st k ph r s = (Inr (), st', s')"
    and "manifest_ok (jsonl sha pf cs v) st" and "synced (jsonl sha pf cs v) st s"
    and "clock_ok (jsonl sha pf cs v) s" and "jsonl_accepts pf v r" and "utf8_ok ph" and "fault_free s'"
  shows "load (jsonl sha pf cs v) st' k ph s' = (Inr (map jnorm r), advance s') \<and>
     has (jsonl sha pf cs v) st' k ph s' = (Inr True, advance s')"
proof -
  note c = jsonl_store.commit_durable [OF assms(1-6)]
  have "vouched (jsonl sha pf cs v) st' s' k = Some (ph, map jnorm r)"
    using synced_durable [of "jsonl sha pf cs v" st' s' k] c(3,4) by simp
  from load_hit [OF assms(7) this] has_hit [OF assms(7) this] show ?thesis ..
qed

text \<open>C14: Without faults a JSONL commit always returns: for a safe key and any list of records
  whose strings encode, no branch of commit raises, and the cache stays usable.\<close>
theorem commit_succeeds:
  assumes "calm s" and "clock_ok (jsonl sha pf cs v) s" and "manifest_ok (jsonl sha pf cs v) st"
    and "is_safe_key k" and "utf8_ok ph" and "\<forall>r\<in>set rs. json_ok pf True r"
  shows "\<exists>st' s'. commit (jsonl sha pf cs v) st k ph rs s = (Inr (), st', s') \<and> calm s'"
  using jsonl_commit_returns [OF assms] by metis

theorem commit_succeeds_witness:
  "\<exists>st' s'. commit demo_hooks demo_store ''k'' ''h'' demo_rows (demo_os quiet) = (Inr (), st', s') \<and> calm s'"
  by (rule commit_succeeds [OF demo_calm demo_clock demo_manifest_ok safe_names(1) ascii_names(2)])
    (simp add: demo_rows_def utf8_ascii)

section \<open>Reading\<close>

text \<open>Whatever faults occur, load returns only what the manifest and the payload file both
  vouch for: the key has an entry with the expected hash, the file of the key parses to the
  result returned, its own metadata carries the key, the hash and the fingerprint, and digest,
  length and generation agree between the result itself, the file and the entry.\<close>
lemma load_is_vouched:
  assumes "load h st k x s = (Inr r, s')"
  shows "\<exists>e b m digest n c.
     dict_get (entries st) k = Some e \<and> entry_get e ''payload_hash'' = Some (JStr x) \<and>
     file_at s (k @ suffix h) = Some (RegFile b) \<and> read_body h b = Some (r, m) \<and>
     dict_get m ''content_key'' = Some k \<and> dict_get m ''payload_hash'' = Some x \<and>
     dict_get m ''fingerprint'' = Some (fingerprint st) \<and>
     validate_structure h r m = Inr True \<and> digest_info h r = Inr (digest, n, c) \<and>
     dict_get m ''result_digest'' = Some digest \<and> entry_get e ''result_digest'' = Some (JStr digest) \<and>
     dict_get m ''byte_len'' = Some (int_repr n) \<and> dict_get m ''record_count'' = Some (int_repr c) \<and>
     map_option JStr (dict_get m ''generation_id'') = entry_get e ''generation_id''"
  using load_outcome [OF assms] unfolding vouched_Some payload_of_Some check_Ok by blast

text \<open>C15: Without faults has and load agree: has returns True exactly when load returns a
  result, so a key the engine skips can be loaded when the results are combined.\<close>
theorem has_agrees_with_load:
  assumes "fault_free s"
  shows "fst (has h st k x s) = Inr True \<longleftrightarrow> (\<exists>r. fst (load h st k x s) = Inr r)"
proof
  assume "fst (has h st k x s) = Inr True"
  then have "\<exists>r. vouched h st s k = Some (x, r)" using has_outcome [of h st k x s True] by (metis prod.collapse)
  then show "\<exists>r. fst (load h st k x s) = Inr r" using load_hit [OF assms] by fastforce
next
  assume "\<exists>r. fst (load h st k x s) = Inr r"
  then have "\<exists>r. vouched h st s k = Some (x, r)" using load_outcome by (metis prod.collapse)
  then show "fst (has h st k x s) = Inr True" using has_hit [OF assms] by fastforce
qed

theorem has_agrees_with_load_witness:
  "fst (has demo_hooks demo_store ''k'' ''h'' (demo_os quiet)) = Inr True
     \<longleftrightarrow> (\<exists>r. fst (load demo_hooks demo_store ''k'' ''h'' (demo_os quiet)) = Inr r)"
  by (rule has_agrees_with_load) (use demo_calm in \<open>simp add: calm_def\<close>)

text \<open>C16: Reading never changes the cache: has, load, load_all and every step of iter_results
  leave every file as it was, whatever they return or raise and whatever faults occur.\<close>
theorem reads_change_no_file:
  "file_at (snd (has h st k x s)) = file_at s \<and> file_at (snd (load h st k x s)) = file_at s \<and>
   file_at (snd (load_all h st arg s)) = file_at s \<and>
   list_all (\<lambda>step. \<forall>t. file_at (snd (step t)) = file_at t) (iter_results h st arg)"
proof -
  have t: "touches {} m \<Longrightarrow> file_at (snd (m t)) = file_at t" for m :: "'b act" and t
    using keepsD(1) [of "{}" t "snd (m t)"] by (auto simp: touches_def)
  have e: "touches {} (load_each h st ks)" for ks
    by (induction ks) (auto intro!: touches_bind touches_load touches_ret)
  show ?thesis
    using t [OF touches_has, of h st k x s] t [OF touches_load] t [OF e]
    by (auto simp: load_all_def iter_results_def list_all_iff)
qed

text \<open>A key whose stored hash differs from the expected one is never a hit and never a
  miss: has and load raise ContentKeyCollisionError, without touching the disk, when the entry
  disagrees, and the check of the payload raises it when the file's own metadata does.\<close>
lemma hash_conflict_raises:
  assumes "y \<noteq> x" and "dict_get (entries st) k = Some e" and "entry_get e ''payload_hash'' = Some (JStr y)"
  shows "has h st k x s = (Inl (collision k), s) \<and> load h st k x s = (Inl (collision k), s) \<and>
     check h fp k x r (dict_set ''payload_hash'' y m) e' = Inl (collision k)"
  using assms(1) has_collision [OF assms(2,3,1), of h s] by (simp add: check_def)

text \<open>load_all returns the results in the order of the sorted keys, one per key, when every
  key is vouched for and no call fails.\<close>
lemma load_all_in_key_order:
  assumes "fault_free s" and "\<forall>(k, x)\<in>set d. vouched h st s k = Some (x, f k)"
  shows "fst (load_all h st (KeyMap d) s) = Inr (map (\<lambda>(k, x). f k) (sort d))"
proof -
  have "fst (load_each h st ks t) = Inr (map (\<lambda>(k, x). f k) ks)"
    if "set ks \<subseteq> set d" "fault_free t" "file_at t = file_at s" for ks t
    using that
  proof (induction ks arbitrary: t)
    case (Cons kx ks)
    obtain k x where kx: "kx = (k, x)" by fastforce
    have "vouched h st t k = Some (x, f k)"
      using assms(2) Cons.prems kx by (auto simp: vouched_def payload_of_def)
    from load_hit [OF Cons.prems(2) this] Cons.IH [of "advance t"] Cons.prems kx show ?case
      by (auto simp: bind_act_def ret_def split: prod.split sum.split)
  qed (simp add: ret_def)
  from this [of "sort d" s] assms(1) show ?thesis by (simp add: load_all_def pairs_def)
qed

section \<open>Opening\<close>

text \<open>Whatever faults occur, a store opens only under a held lock and with a non-empty
  fingerprint, and an opened store serves nothing but what was durable on disk: for every key
  whose file is no temporary file, the durable result or nothing.\<close>
lemma open_serves_only_durable:
  assumes "open_store h lock fp s = (Inr st, s')"
  shows "lock = Some True \<and> fp \<noteq> [] \<and> fingerprint st = fp \<and>
     (\<forall>k. vouched h st s' k = durable h fp s k \<or> vouched h st s' k = None \<or> is_tmp_name (k @ suffix h))"
  using open_outcome [OF assms] open_serves [OF assms] by blast

text \<open>C9: A committed result survives the process. When a commit of any records of Python values
  has returned, a new process, with its own clock, random numbers and identifiers, opens the
  directory under the same fingerprint with no system call failing, and the key's file name has no
  .tmp. in it, then load returns the committed records as JSON reads them back if the
  record_validator passes them, and has is True. If the validator does not, load raises and has is
  not True: a result commit never checked is lost to every later process.\<close>
theorem committed_result_survives_restart:
  assumes "commit (jsonl sha pf cs v) st k ph r s = (Inr (), st', s')"
    and "manifest_ok (jsonl sha pf cs v) st" and "clock_ok (jsonl sha pf cs v) s" and "json_records pf r" and "utf8_ok ph"
    and "fingerprint st \<noteq> []" and "file_at t = file_at s'" and "fault_free t" and "\<not> is_tmp_name (k @ ''.jsonl'')"
  shows "\<exists>st2 t2. open_store (jsonl sha pf cs v) (Some True) (fingerprint st) t = (Inr st2, t2) \<and>
     (if jsonl_validate v (map jnorm r) [] = Inr True
      then fst (load (jsonl sha pf cs v) st2 k ph t2) = Inr (map jnorm r) \<and> fst (has (jsonl sha pf cs v) st2 k ph t2) = Inr True
      else (\<exists>x. fst (load (jsonl sha pf cs v) st2 k ph t2) = Inl x) \<and> fst (has (jsonl sha pf cs v) st2 k ph t2) \<noteq> Inr True)"
proof -
  let ?h = "jsonl sha pf cs v"
  note c = jsonl_store.commit_outcome [OF assms(1-5)]
  have "disk_valid ?h (fingerprint st) s'" using c(4) by (auto simp: disk_valid_def)
  then have "disk_valid ?h (fingerprint st) t" by (subst disk_valid_file [of t s']) (simp_all add: assms(7))
  from reopen_sound [OF this assms(8,6)] obtain st2 t2
    where o: "open_store ?h (Some True) (fingerprint st) t = (Inr st2, t2)" "fault_free t2"
      and v: "\<And>j. \<not> is_tmp_name (j @ suffix ?h) \<Longrightarrow> vouched ?h st2 t2 j = durable ?h (fingerprint st) t j" by blast
  have "durable ?h (fingerprint st) t k = durable ?h (fingerprint st) s' k"
    by (rule durable_cong [OF disk_entries_keeps payload_of_same]) (simp_all add: assms(7))
  then have s: "vouched ?h st2 t2 k = seen (jsonl_served v) ph r" using v [of k] assms(9) c(3) by (simp add: jsonl_suffix)
  show ?thesis
  proof (cases "jsonl_validate v (map jnorm r) [] = Inr True")
    case True
    then have "vouched ?h st2 t2 k = Some (ph, map jnorm r)" using s by (simp add: seen_def jsonl_served_def)
    from load_hit [OF o(2) this] has_hit [OF o(2) this] True o(1) show ?thesis by auto
  next
    case False
    then have n: "vouched ?h st2 t2 k = None" using s by (simp add: seen_def jsonl_served_def)
    have "fst (load ?h st2 k ph t2) \<noteq> Inr r'" for r'
      using load_outcome [of ?h st2 k ph t2 r'] n by (metis option.distinct(1) prod.collapse)
    moreover have "fst (has ?h st2 k ph t2) \<noteq> Inr True"
      using has_outcome [of ?h st2 k ph t2 True] n by (metis option.distinct(1) prod.collapse)
    ultimately show ?thesis using False o(1) by (cases "fst (load ?h st2 k ph t2)") auto
  qed
qed

theorem committed_result_survives_restart_witness:
  "\<exists>st s st2 t2. fst (commit demo_hooks demo_store ''k'' ''h'' demo_rows (demo_os quiet)) = Inr () \<and>
     open_store demo_hooks (Some True) ''f'' s = (Inr st2, t2) \<and>
     fst (load demo_hooks st2 ''k'' ''h'' t2) = Inr (map jnorm demo_rows)"
proof -
  obtain st' s' where c: "commit demo_hooks demo_store ''k'' ''h'' demo_rows (demo_os quiet) = (Inr (), st', s')"
      "calm s'" by (rule demo_commit)
  have "\<not> is_tmp_name (''k'' @ ''.jsonl'')" by (simp add: is_tmp_name_def sublist_code)
  from committed_result_survives_restart [OF c(1) demo_manifest_ok demo_clock _ ascii_names(2) _ refl
      calm_fault_free [OF c(2)] this] c(1)
  show ?thesis by (auto simp: demo_store_def demo_rows_def jsonl_validate_def)
qed

text \<open>C17: A manifest that is missing, unreadable, malformed or written for another fingerprint or
  schema invalidates everything: when no system call fails and the cache has no subdirectory,
  opening returns an empty store and leaves exactly one file in the cache, the manifest of the
  empty store. (A file whose unlink fails stays, and so does a subdirectory; neither is an entry
  of the new manifest.)\<close>
theorem invalid_manifest_wipes:
  assumes "fault_free s" and "writable_cache s" and "world_ok s" and "fp \<noteq> []" and "disk_entries h fp s = None"
  shows "\<exists>s'. open_store h (Some True) fp s = (Inr \<lparr>fingerprint = fp, entries = []\<rparr>, s') \<and>
     (\<forall>n. file_at s' n =
        (if n = MANIFEST_NAME then Some (RegFile (dumps True (manifest_doc \<lparr>fingerprint = fp, entries = []\<rparr>))) else None))"
  using reopen_invalid [OF assms] by (metis option.exhaust)

theorem invalid_manifest_wipes_witness:
  "\<exists>s'. open_store demo_hooks (Some True) ''g'' (demo_os quiet\<lparr>files := [(''k.jsonl'', RegFile ''stale'')]\<rparr>)
     = (Inr \<lparr>fingerprint = ''g'', entries = []\<rparr>, s') \<and> file_at s' ''k.jsonl'' = None"
proof -
  let ?s = "demo_os quiet\<lparr>files := [(''k.jsonl'', RegFile ''stale'')]\<rparr>"
  have "calm ?s" by (simp add: calm_def fault_free_def writable_cache_def world_ok_def)
  moreover have "disk_entries demo_hooks ''g'' ?s = None" by (simp add: disk_entries_def MANIFEST_NAME_def)
  ultimately obtain s' where o: "open_store demo_hooks (Some True) ''g'' ?s = (Inr \<lparr>fingerprint = ''g'', entries = []\<rparr>, s')"
      and f: "\<forall>n. file_at s' n = (if n = MANIFEST_NAME
        then Some (RegFile (dumps True (manifest_doc \<lparr>fingerprint = ''g'', entries = []\<rparr>))) else None)"
    using invalid_manifest_wipes [of ?s "''g''" demo_hooks] unfolding calm_def by blast
  have "file_at s' ''k.jsonl'' = None" unfolding f [rule_format] by (simp add: MANIFEST_NAME_def)
  with o show ?thesis by blast
qed

text \<open>C18: A result committed under a key that contains .tmp. is lost at the next opening. Such a
  key is safe, its commit returns and its result is durable; but when a new process opens the
  directory, even with no system call failing, the sweep of orphaned temporary files deletes the
  payload: the reopened store has the entry, the file is gone, has is False and load raises.\<close>
theorem tmp_key_lost_on_reopen:
  assumes "commit (jsonl sha pf cs v) st k ph r s = (Inr (), st', s')"
    and "manifest_ok (jsonl sha pf cs v) st" and "clock_ok (jsonl sha pf cs v) s" and "jsonl_accepts pf v r" and "utf8_ok ph"
    and "fingerprint st \<noteq> []" and "file_at t = file_at s'" and "fault_free t" and "is_tmp_name (k @ ''.jsonl'')"
  shows "is_safe_key k \<and> durable (jsonl sha pf cs v) (fingerprint st) t k = Some (ph, map jnorm r) \<and>
     (\<exists>st2 t2. open_store (jsonl sha pf cs v) (Some True) (fingerprint st) t = (Inr st2, t2) \<and>
        k \<in> cached_keys st2 \<and> file_at t2 (k @ ''.jsonl'') = None \<and>
        fst (has (jsonl sha pf cs v) st2 k ph t2) = Inr False \<and>
        fst (load (jsonl sha pf cs v) st2 k ph t2) = Inl (unreadable k))"
proof -
  let ?h = "jsonl sha pf cs v"
  have r: "json_records pf r" "seen (jsonl_served v) ph r = Some (ph, map jnorm r)"
    using jsonl_accepts_served [OF assms(4)] by (simp_all add: seen_def)
  note c = jsonl_store.commit_outcome [OF assms(1-3) r(1) assms(5), unfolded r(2)]
  have ok: "manifest_ok ?h st'" and sy: "synced ?h st' s'" and fp: "fingerprint st' = fingerprint st" using c(4) by blast+
  have de: "disk_entries ?h f t = disk_entries ?h f s'" for f by (rule disk_entries_keeps) (simp add: assms(7))
  have "durable ?h (fingerprint st) t k = durable ?h (fingerprint st) s' k"
    by (rule durable_cong [OF de payload_of_same]) (simp add: assms(7))
  then have d: "durable ?h (fingerprint st) t k = Some (ph, map jnorm r)" using c(3) by simp
  have "vouched ?h st' s' k = Some (ph, map jnorm r)" using synced_durable [OF ok sy, of k] c(3) fp by simp
  then obtain e b where e: "dict_get (entries st') k = Some e" "entry_get e ''payload_hash'' = Some (JStr ph)"
    and b: "is_safe_key k" "file_at s' (k @ ''.jsonl'') = Some (RegFile b)"
    by (auto simp: vouched_Some payload_of_Some jsonl_suffix)
  let ?es = "norm_entries (entries st')" and ?st = "\<lparr>fingerprint = fingerprint st, entries = norm_entries (entries st')\<rparr>"
  have "disk_entries ?h (fingerprint st) t = Some ?es"
    using sy fp de by (simp add: synced_def)
  from reopen_valid [OF assms(8,6) this] obtain t2 where o: "open_store ?h (Some True) (fingerprint st) t = (Inr ?st, t2)"
    and f: "\<And>n. file_at t2 n = (if is_tmp_name n \<and> file_at t n \<noteq> Some SubDir then None else file_at t n)" and ff: "fault_free t2"
    by blast
  have gone: "file_at t2 (k @ ''.jsonl'') = None" using f [of "k @ ''.jsonl''"] assms(7,9) b(2) by simp
  have "dict_ok (entries st')" using ok by (simp add: manifest_ok_def)
  then have e2: "dict_get ?es k = Some (sort_key fst e)" "entry_get (sort_key fst e) ''payload_hash'' = Some (JStr ph)"
    using e entry_get_sort [OF entry_ok_dict [OF manifest_ok_entry [OF ok e(1)]]] by (simp_all add: norm_entries_get)
  have "fst (has ?h ?st k ph t2) = Inr False" using e2 b(1) gone by (simp add: has_def path_for_def jsonl_suffix)
  moreover have "fst (load ?h ?st k ph t2) = Inl (unreadable k)"
    using e2 b(1) gone ff by (simp add: load_def path_for_def jsonl_suffix bind_act_def read_file_def
        catch_OSError_def fs_read_def syscall_fault_free raise_def ret_def)
  moreover have "k \<in> cached_keys ?st" using e2(1) dict_get_in by (force simp: cached_keys_def)
  ultimately show ?thesis using b(1) d o gone by blast
qed

theorem tmp_key_lost_on_reopen_witness:
  "\<exists>st' s' st2 t2. commit demo_hooks demo_store ''a.tmp.b'' ''h'' demo_rows (demo_os quiet) = (Inr (), st', s') \<and>
     open_store demo_hooks (Some True) ''f'' s' = (Inr st2, t2) \<and> ''a.tmp.b'' \<in> cached_keys st2 \<and>
     fst (has demo_hooks st2 ''a.tmp.b'' ''h'' t2) = Inr False"
proof -
  have k: "is_safe_key ''a.tmp.b''" by (simp add: is_safe_key_def key_char_def)
  have rows: "\<forall>r\<in>set demo_rows. json_ok (\<lambda>t. t) True r" by (simp add: demo_rows_def utf8_ascii)
  obtain st' s' where c: "commit demo_hooks demo_store ''a.tmp.b'' ''h'' demo_rows (demo_os quiet) = (Inr (), st', s')"
      "calm s'" by (rule jsonl_commit_returns [OF demo_calm demo_clock demo_manifest_ok k ascii_names(2) rows])
  have "is_tmp_name (''a.tmp.b'' @ ''.jsonl'')" by (simp add: is_tmp_name_def sublist_code)
  from tmp_key_lost_on_reopen [OF c(1) demo_manifest_ok demo_clock demo_accepts ascii_names(2) _ refl
      calm_fault_free [OF c(2)] this] c(1)
  show ?thesis by (auto simp: demo_store_def)
qed

section \<open>Keys and files\<close>

text \<open>A key names one file inside the cache directory. Only a non-empty key of letters,
  digits, dots, dashes and underscores that starts with a letter or a digit has a path; the path
  is a single name, is neither the manifest's nor a special directory name, and different keys
  have different paths.\<close>
lemma payload_path_inside_cache:
  assumes "path_for (jsonl sha pf cs v) k = Inr p"
  shows "CHR ''/'' \<notin> set p \<and> bslash \<notin> set p \<and> p \<notin> {[], ''.'', ''..'', MANIFEST_NAME} \<and>
     (\<forall>j. path_for (jsonl sha pf cs v) j = Inr p \<longrightarrow> j = k)"
proof -
  have s: "suffix (jsonl sha pf cs v) = ''.jsonl''" by (simp add: jsonl_def)
  from assms have k: "is_safe_key k" "p = k @ ''.jsonl''" by (simp_all add: path_for_safe s)
  have "p \<noteq> MANIFEST_NAME" using jsonl_suffix_ok [of sha pf cs v] k(2) by (simp add: suffix_ok_def s)
  moreover have "CHR ''/'' \<notin> set p \<and> bslash \<notin> set p" using k by (simp add: is_safe_key_def)
  moreover have "p \<notin> {[], ''.'', ''..''}" using k(2) by (cases k) auto
  ultimately show ?thesis using k(2) by (auto simp: path_for_safe s)
qed

text \<open>C19: Replacing a file is all or nothing. Whichever of the calls fsync, rename and directory
  fsync fails or is the last one, the final name holds its old content or the whole new content,
  the new one if no call raised, and no name but the temporary and the final one changes.\<close>
theorem atomic_replace_all_or_nothing:
  assumes "atomic_replace_file tmp final s = (res, s')" and "file_at s tmp = Some (RegFile b)" and "tmp \<noteq> final"
  shows "(file_at s' final = Some (RegFile b) \<or> (\<exists>e. res = Inl e) \<and> file_at s' final = file_at s final) \<and>
     (\<forall>n. n \<notin> {tmp, final} \<longrightarrow> file_at s' n = file_at s n)"
  using atomic_replace_outcome [OF assms] touchesD(1) [OF touches_atomic_replace assms(1)] by blast

theorem atomic_replace_all_or_nothing_witness:
  "file_at (snd (atomic_replace_file ''t'' ''n'' (demo_os quiet\<lparr>files := [(''t'', RegFile ''new''), (''n'', RegFile ''old'')]\<rparr>))) ''n''
     = Some (RegFile ''new'')"
proof -
  let ?s = "demo_os quiet\<lparr>files := [(''t'', RegFile ''new''), (''n'', RegFile ''old'')]\<rparr>"
  have "fault_free ?s" "writable ''n'' ?s" by (simp_all add: fault_free_def writable_def)
  then have "fst (atomic_replace_file ''t'' ''n'' ?s) = Inr ()"
    using atomic_replace_succeeds [of ?s "''t''" "''new''" "''n''"] by simp
  then obtain s' where r: "atomic_replace_file ''t'' ''n'' ?s = (Inr (), s')" by (metis prod.collapse)
  from atomic_replace_all_or_nothing [OF r, of "''new''"] r show ?thesis by auto
qed

section \<open>Round trips\<close>

text \<open>What the JSON writer produces is read back as the same value with the keys of its
  objects in order, in both modes the stores use, and writing that value again gives the same
  text: the digest of a result read back is the digest of the result committed.\<close>
lemma json_round_trip:
  assumes "json_ok pf ascii v"
  shows "loads pf (dumps ascii v) = Some (jnorm v) \<and> dumps ascii (jnorm v) = dumps ascii v"
  using loads_dumps [OF assms] dumps_jnorm by blast

text \<open>C21: A JSONL file that was written completely is read back as the records, each with its
  keys in order, and the metadata of its header.\<close>
theorem jsonl_file_round_trip:
  assumes "\<forall>r\<in>set rs. json_ok pf False r" and "dict_ok m" and "jsonl_write rs m = (b, Inr ())"
  shows "jsonl_read pf cs b = Some (map jnorm rs, sort_key fst m)"
  using assms by (rule jsonl_reads_back)

theorem jsonl_file_round_trip_witness:
  "\<exists>b. jsonl_write demo_rows [(''m'', ''1'')] = (b, Inr ()) \<and>
     jsonl_read (\<lambda>t. t) (\<lambda>v. []) b = Some (demo_rows, [(''m'', ''1'')])"
proof -
  have "text_meta [(''m'', ''1'')]" by (simp add: text_meta_def utf8_ascii)
  then have "snd (jsonl_write demo_rows [(''m'', ''1'')]) = Inr ()"
    using jsonl_storable [OF safe_names(1), of demo_rows "\<lambda>t. t" "\<lambda>b. b" "\<lambda>v. []" None]
    by (simp add: storable_def jsonl_def demo_rows_def utf8_ascii)
  then obtain b where b: "jsonl_write demo_rows [(''m'', ''1'')] = (b, Inr ())" by (metis prod.collapse)
  from jsonl_file_round_trip [OF _ _ b, of "\<lambda>t. t" "\<lambda>v. []"] b show ?thesis by (simp add: demo_rows_def)
qed

text \<open>The manifest file is a faithful image of the entries in memory: parsing what was written
  gives the entries back, in key order, for the store's own fingerprint, and rejects the whole
  manifest for any other fingerprint.\<close>
lemma manifest_round_trip:
  assumes "manifest_ok h st"
  shows "parse_manifest h fp (dumps True (manifest_doc st))
     = (if fp = fingerprint st then Some (norm_entries (entries st)) else None)"
proof (cases "fp = fingerprint st")
  case False
  have "loads (float_repr h) (dumps True (manifest_doc st)) = Some (jnorm (manifest_doc st))"
    by (rule loads_dumps [OF manifest_doc_ok [OF assms]])
  with False show ?thesis
    unfolding parse_manifest_def jnorm_doc [OF manifest_ok_scalar [OF assms]] by (simp add: entry_get_def)
qed (simp add: parse_manifest_doc [OF assms])

section \<open>The entries\<close>

text \<open>C20: Every entry a store can ever hold has the type the readers rely on. Whatever the
  calls that opened the store and committed to it did, faults included, the key of an entry is one
  path_for accepts, so has and load, which find the entry first, never raise for its name, and its
  payload_hash, generation_id and result_digest are strings: whether the entry was parsed from a manifest of
  another process or was built by a commit of this one.\<close>
theorem entries_stay_typed:
  assumes "store_state h st" and "dict_get (entries st) k = Some e"
  shows "path_for h k = Inr (k @ suffix h) \<and>
     (\<forall>f\<in>{''payload_hash'', ''generation_id'', ''result_digest''}. \<exists>x. entry_get e f = Some (JStr x))"
proof -
  from assms(1) have "typed_store st"
  proof induction
    case (opened lock fp s st s')
    then show ?case by (rule open_typed)
  next
    case (committed st k ph r s res st' s')
    from committed(2) committed(3) show ?case by (rule commit_typed)
  qed
  with assms(2) have "typed_entry k e" by (auto simp: typed_store_def dest: dict_get_in)
  then show ?thesis
    by (auto simp: typed_entry_def path_for_def required_fields_def entry_get_def is_str_def split: option.splits json.splits)
qed

theorem entries_stay_typed_witness:
  "\<exists>st e. store_state demo_hooks st \<and> dict_get (entries st) ''k'' = Some e \<and> (\<exists>x. entry_get e ''payload_hash'' = Some (JStr x))"
proof -
  have d: "disk_entries demo_hooks ''f'' (demo_os quiet) = Some []"
    using demo_synced [of demo_hooks quiet] by (simp add: synced_def demo_store_def norm_entries_def)
  obtain s' where "open_store demo_hooks (Some True) ''f'' (demo_os quiet) = (Inr demo_store, s')"
    by (rule reopen_valid [OF calm_fault_free [OF demo_calm] _ d]) (simp_all add: demo_store_def)
  then have "store_state demo_hooks demo_store" by (rule store_state.opened)
  moreover obtain st' t where c: "commit demo_hooks demo_store ''k'' ''h'' demo_rows (demo_os quiet) = (Inr (), st', t)"
    by (rule demo_commit)
  ultimately have st: "store_state demo_hooks st'" by (rule store_state.committed)
  obtain e where e: "dict_get (entries st') ''k'' = Some e"
    using c by (auto simp: commit_def publish_def Let_def split: prod.splits sum.splits if_splits)
  from entries_stay_typed [OF st e] st e show ?thesis by blast
qed

end
