(* ===== verification/Engine_Theorems.thy ===== *)
theory Engine_Theorems
  imports Engine_Resume Store_Theorems
begin

text \<open>
  The properties of the orchestrator. Those about one step hold for every environment; those
  about whole runs are the facts of the locales \<open>fair_env\<close> and \<open>result_store\<close> on the thread pool
  and the JSONL store.
\<close>

section \<open>A small configuration\<close>

definition demo_cfg :: "(string, json list, json list, json list) config" where
  "demo_cfg =
     \<lparr>content_key_fn = (\<lambda>p. Inr (p, ''h'')), combine = Some (\<lambda>rs. Inr (concat rs)),
      is_oom = (\<lambda>x. Inr (default_is_oom x)), is_transient = (\<lambda>x. Inr (default_is_transient x)),
      split_policy = None, retry = default_retry_policy, concurrency = 2, cleanup_on_success = False,
      reduce = None, finalize = None, initial = [], split_size_fn = default_split_size, max_split_depth = 64\<rparr>"

definition demo_item :: "string \<Rightarrow> string checkpoint_item" where
  "demo_item p = \<lparr>payload = p, sched = default_sched_meta\<rparr>"

definition demo_world :: "store \<Rightarrow> os \<Rightarrow> (string, json list, unit) world" where
  "demo_world st s =
     \<lparr>instant = 0, ticks = 0, drift = (\<lambda>n. 1), rand = (\<lambda>n. 1 / 2), worker_setup = None,
      execute = (\<lambda>n p c. Inr demo_rows), worker_teardown = None, idle = (\<lambda>n. False), runs_on = (\<lambda>n. n),
      finishes = (\<lambda>n fs. fs), stranded = (\<lambda>n. False), cap = 2, threads = 0, created = [], broken = False,
      submitted = [], cancelled = {}, closed = False, cache = st, disk = s\<rparr>"

definition demo_admitted :: "string \<Rightarrow> string admitted" where
  "demo_admitted k = \<lparr>item = demo_item k, content_key = k, payload_hash = ''h'', depth = 0\<rparr>"

section \<open>Admission\<close>

text \<open>C24: Roots with a content key in common stop the run before any work: if some root's key
  equals an earlier root's, even with the same hash, run_checkpointed raises
  ContentKeyCollisionError, and the store, the pool and the clock are untouched.\<close>
theorem duplicate_roots_rejected:
  assumes "validate_mode cfg = Inr ()" and "list_all2 (admitted_as cfg 0) items ads"
    and "\<not> distinct (map content_key ads)"
  shows "\<exists>k\<in>content_key ` set ads. run_checkpointed cfg env items w = Some (Inl (duplicate_key k), w)"
proof -
  have "\<exists>k\<in>content_key ` set ads. fst (admit_roots cfg items e) = Inl (duplicate_key k)"
    if "list_all2 (admitted_as cfg 0) items ads"
      and "\<not> distinct (map content_key ads) \<or> content_key ` set ads \<inter> dict_keys (live_map e) \<noteq> {}" for e
    using that
  proof (induction items ads arbitrary: e rule: list_all2_induct)
    case (Cons it its ad ads)
    from Cons.hyps have k: "content_key_fn cfg (payload it) = Inr (content_key ad, payload_hash ad)"
      by (simp add: admitted_as_def)
    show ?case
    proof (cases "content_key ad \<in> dict_keys (live_map e)")
      case False
      let ?a = "\<lparr>item = it, content_key = content_key ad, payload_hash = payload_hash ad, depth = 0\<rparr>"
      let ?e = "enqueue_terminal ?a (e\<lparr>live_map := dict_set (content_key ad) (payload_hash ad) (live_map e)\<rparr>)"
      have "admit_roots cfg (it # its) e = admit_roots cfg its ?e"
        using k False by (simp add: admit_def)
      moreover have "\<not> distinct (map content_key ads) \<or> content_key ` set ads \<inter> dict_keys (live_map ?e) \<noteq> {}"
        using Cons.prems False by (auto simp: enqueue_terminal_def)
      ultimately show ?thesis using Cons.IH [of ?e] by auto
    qed (use k in \<open>simp add: admit_def\<close>)
  qed simp
  from this [OF assms(2), of initial_engine] assms(3)
  obtain k e where "k \<in> content_key ` set ads" "admit_roots cfg items initial_engine = (Inl (duplicate_key k), e)"
    by (metis prod.collapse)
  then show ?thesis using assms(1) by (auto simp: run_checkpointed_def)
qed

theorem duplicate_roots_rejected_witness:
  "run_checkpointed demo_cfg (pool_env demo_hooks) [demo_item ''k'', demo_item ''k''] (demo_world demo_store (demo_os quiet))
     = Some (Inl (duplicate_key ''k''), demo_world demo_store (demo_os quiet))"
proof -
  have "list_all2 (admitted_as demo_cfg 0) [demo_item ''k'', demo_item ''k''] [demo_admitted ''k'', demo_admitted ''k'']"
    by (simp add: admitted_as_def demo_cfg_def demo_admitted_def demo_item_def)
  from duplicate_roots_rejected [OF _ this, of "pool_env demo_hooks" "demo_world demo_store (demo_os quiet)"]
  show ?thesis by (simp add: validate_mode_def demo_cfg_def demo_admitted_def)
qed

text \<open>A run needs exactly one way to combine results. Neither combine nor reduce and
  finalize, both, or only one of reduce and finalize is a ValueError, before any item is
  admitted and with nothing touched.\<close>
lemma combine_mode_checked:
  assumes "\<not> (combine cfg \<noteq> None \<and> reduce cfg = None \<and> finalize cfg = None)"
    and "\<not> (combine cfg = None \<and> reduce cfg \<noteq> None \<and> finalize cfg \<noteq> None)"
  shows "\<exists>m. run_checkpointed cfg env items w = Some (Inl (Exn PyValueError m), w)"
  using assms by (auto simp: run_checkpointed_def validate_mode_def Let_def)

section \<open>Termination\<close>

text \<open>C7: Every run returns. Whatever the callbacks, the workers and the store do, and however
  the futures complete, run_checkpointed on the thread pool comes to an end, with a result or
  with an exception: retries are bounded per key, splits by the depth cap, and no wait is
  forever.\<close>
theorem run_terminates:
  "\<exists>out. run_checkpointed cfg (pool_env h) items w = Some out"
  by (rule pool.run_returns)

section \<open>The loop\<close>

lemma distinct_submset: "mset xs \<subseteq># mset ys \<Longrightarrow> distinct ys \<Longrightarrow> distinct xs"
proof -
  assume s: "mset xs \<subseteq># mset ys" and d: "distinct ys"
  from s obtain M where "mset ys = mset xs + M" by (auto simp: mset_subset_eq_exists_conv)
  moreover obtain zs where "mset zs = M" using ex_mset by blast
  ultimately have "mset ys = mset (xs @ zs)" by simp
  then have "distinct (xs @ zs)" using d mset_eq_imp_distinct_iff by blast
  then show ?thesis by simp
qed

text \<open>C11: At every turn of the main loop at most max_workers tasks are in flight; the terminal
  keys are exactly the keys of a frontier of the split tree over the roots, pairwise distinct,
  and each key is queued at most once, in ready, delayed or in flight; every key has its
  admission hash; and a key that waits for a retry has failed at least once and fewer than
  max_attempts times.\<close>
theorem loop_keeps_frontier:
  assumes "admit_roots cfg items initial_engine = (Inr (), e0)" and "loop_steps cfg env (e0, w0) (e, w)"
  shows "length (inflight e) \<le> max_workers cfg \<and>
     (\<exists>ls. frontier cfg items ls \<and> distinct (map content_key ls) \<and>
        terminal_keys e = content_key ` set ls \<and> distinct (map content_key (pending e)) \<and> set (pending e) \<subseteq> set ls \<and>
        (\<forall>ad\<in>set ls. dict_get (terminal_hash e) (content_key ad) = Some (payload_hash ad))) \<and>
     (\<forall>x\<in>set (delayed e). \<exists>n. dict_get (transient_attempts e) (content_key (snd (snd x))) = Some n \<and>
        1 \<le> n \<and> n < max_attempts (retry cfg))"
proof -
  from loop_steps_ok [OF assms(2) roots_ok [OF assms(1)]] obtain ls cur where i: "loop_inv cfg items ls cur e"
    unfolding engine_ok_def by blast
  then have k: "keys_inv cfg items ls cur e" and q: "queue_inv cfg e" by (simp_all add: loop_inv_def)
  have sub: "mset (pending e) \<subseteq># mset ls"
    using k subset_mset.order_trans [of "mset (pending e)" "mset (pending e @ cur)" "mset ls"] by (simp add: keys_inv_def)
  have "mset (map content_key (pending e)) \<subseteq># mset (map content_key ls)"
    using image_mset_subseteq_mono [OF sub, of content_key] by simp
  from distinct_submset [OF this] have d: "distinct (map content_key (pending e))"
    using k by (simp add: keys_inv_def)
  have t: "1 \<le> n" if "dict_get (transient_attempts e) j = Some n" for j n
    using q dict_get_in [OF that] by (auto simp: queue_inv_def)
  have "\<forall>x\<in>set (delayed e). \<exists>n. dict_get (transient_attempts e) (content_key (snd (snd x))) = Some n \<and>
        1 \<le> n \<and> n < max_attempts (retry cfg)"
    using q t unfolding queue_inv_def by blast
  moreover have "set (pending e) \<subseteq> set ls" using sub by (metis set_mset_mono set_mset_mset)
  moreover have "length (inflight e) \<le> max_workers cfg" using q by (simp add: queue_inv_def)
  ultimately show ?thesis using k d unfolding keys_inv_def by (intro conjI exI [of _ ls]) simp_all
qed

definition demo_start :: "string engine" where
  "demo_start = enqueue_terminal (demo_admitted ''k'') (initial_engine\<lparr>live_map := [(''k'', ''h'')]\<rparr>)"

lemma demo_roots: "admit_roots demo_cfg [demo_item ''k''] initial_engine = (Inr (), demo_start)"
  by (simp add: admit_def demo_start_def demo_cfg_def demo_item_def demo_admitted_def initial_engine_def)

theorem loop_keeps_frontier_witness:
  "length (inflight demo_start) \<le> max_workers demo_cfg \<and> distinct (map content_key (pending demo_start)) \<and>
   map content_key (pending demo_start) = [''k'']"
proof -
  have "map content_key (pending demo_start) = [''k'']"
    by (simp add: pending_def demo_start_def enqueue_terminal_def demo_admitted_def initial_engine_def)
  with loop_keeps_frontier [OF demo_roots rtranclp.rtrancl_refl]
  show ?thesis by blast
qed

text \<open>C22: The counters of a run add up at every turn of the loop while no error is fatal: every
  submitted attempt is a commit, a retry, a split or still in flight, and every leaf of the
  frontier is resumed, committed or pending.\<close>
theorem counters_add_up:
  assumes "admit_roots cfg items initial_engine = (Inr (), e0)" and "loop_steps cfg env (e0, w0) (e, w)"
    and "fatal_exc e = None"
  shows "attempts_total e = committed e + retried e + split_count e + int (length (inflight e)) \<and>
     int (card (terminal_keys e)) = resumed e + committed e + int (length (pending e))"
proof -
  from loop_steps_ok [OF assms(2) roots_ok [OF assms(1)]] assms(3)
  obtain ls where i: "loop_inv cfg items ls [] e" unfolding engine_ok_def by auto
  then have "terminal_keys e = set (map content_key ls)" "distinct (map content_key ls)"
    by (simp_all add: loop_inv_def keys_inv_def)
  then have "card (terminal_keys e) = length ls" by (metis distinct_card length_map)
  with i show ?thesis by (simp add: loop_inv_def count_inv_def)
qed

theorem counters_add_up_witness:
  "int (card (terminal_keys demo_start)) = resumed demo_start + committed demo_start + int (length (pending demo_start))"
  using counters_add_up [OF demo_roots rtranclp.rtrancl_refl]
  by (simp add: demo_start_def enqueue_terminal_def initial_engine_def)

text \<open>C29: Promotion moves exactly the delayed retries that are due, the earliest first and those
  of equal due time in the order of their requeueing, to the end of the ready queue, and keeps
  the others delayed.\<close>
theorem promotion_takes_due_retries:
  assumes "heap_ok (seq_counter e) (delayed e)" and "monotonic env w = (now, w1)"
  shows "promote_matured env e w =
     (e\<lparr>delayed := filter (\<lambda>x. now < fst x) (delayed e),
        ready := ready e @ map (\<lambda>x. snd (snd x)) (filter (\<lambda>x. fst x \<le> now) (delayed e))\<rparr>, w1) \<and>
     sorted_wrt due_before (filter (\<lambda>x. fst x \<le> now) (delayed e))"
proof -
  obtain ms q where t: "take_matured now (delayed e) = (ms, q)" by fastforce
  from take_matured_split [OF t] obtain p where p: "delayed e = p @ q" "ms = map (\<lambda>x. snd (snd x)) p"
    "\<forall>x\<in>set p. fst x \<le> now" by blast
  have "\<forall>x\<in>set q. now < fst x" using take_matured_complete [OF assms(1) t] by blast
  then have f: "filter (\<lambda>x. fst x \<le> now) (delayed e) = p" "filter (\<lambda>x. now < fst x) (delayed e) = q"
    using p by (auto simp: filter_id_conv filter_empty_conv)
  moreover have "sorted_wrt due_before p" using assms(1) p(1) by (simp add: heap_ok_def sorted_wrt_append)
  ultimately show ?thesis using p(2) t assms(2) by (simp add: promote_matured_def)
qed

theorem promotion_takes_due_retries_witness:
  "fst (promote_matured (pool_env demo_hooks)
      (initial_engine\<lparr>seq_counter := 2, delayed := [(1 / 2, 0, demo_admitted ''a''), (7, 1, demo_admitted ''b'')]\<rparr>)
      (demo_world demo_store (demo_os quiet)))
     = initial_engine\<lparr>seq_counter := 2, delayed := [(7, 1, demo_admitted ''b'')], ready := [demo_admitted ''a'']\<rparr>"
proof -
  let ?e = "initial_engine\<lparr>seq_counter := 2, delayed := [(1 / 2, 0, demo_admitted ''a''), (7, 1, demo_admitted ''b'')]\<rparr>"
  let ?w = "demo_world demo_store (demo_os quiet)"
  have "heap_ok (seq_counter ?e) (delayed ?e)" by (simp add: heap_ok_def due_before_def)
  moreover have "monotonic (pool_env demo_hooks) ?w = (1, elapse 0 ?w)"
    by (simp add: pool_env_def clock_def elapse_def demo_world_def)
  ultimately show ?thesis
    using promotion_takes_due_retries [of ?e "pool_env demo_hooks" ?w] by (simp add: initial_engine_def)
qed

section \<open>Routing a failure\<close>

abbreviation oom_then_timeout :: exn where
  "oom_then_timeout \<equiv> Exn PyRuntimeError ''Out Of Memory (timeout)''"

abbreviation timed_out :: exn where
  "timed_out \<equiv> Exn PyTimeoutError ''''"

lemma demo_classified:
  "is_oom demo_cfg oom_then_timeout = Inr True" "is_transient demo_cfg oom_then_timeout = Inr True"
  "is_oom demo_cfg timed_out = Inr False" "is_transient demo_cfg timed_out = Inr True"
proof -
  have "default_is_oom oom_then_timeout" "default_is_transient oom_then_timeout"
    "\<not> default_is_oom timed_out" "default_is_transient timed_out"
    by code_simp+
  then show "is_oom demo_cfg oom_then_timeout = Inr True" "is_transient demo_cfg oom_then_timeout = Inr True"
    "is_oom demo_cfg timed_out = Inr False" "is_transient demo_cfg timed_out = Inr True"
    by (simp_all add: demo_cfg_def)
qed

text \<open>C25: Memory exhaustion is classified first and is never retried as it is. When is_oom says
  yes, no retry is scheduled and no retry is counted, whatever is_transient would say: either
  the item is split, or the run fails with the original exception, or with the error of a split
  that could not be made.\<close>
theorem oom_is_never_retried:
  assumes "is_oom cfg exc = Inr True" and "route_exception cfg env ad exc e w = (Inr r, e1, w1)"
  shows "delayed e1 = delayed e \<and> retried e1 = retried e \<and> transient_attempts e1 = transient_attempts e \<and> w1 = w \<and>
     (wants_split cfg exc ad = Inr True \<and> (r = None \<and> split_count e1 = split_count e + 1 \<or>
         (\<exists>x. r = Some x \<and> isinstance x SplitFatal \<and> ready e1 = ready e)) \<or>
      wants_split cfg exc ad = Inr False \<and> r = Some exc \<and> e1 = e)"
  using assms(2)
proof (cases rule: route_cases)
  case (split sp)
  from handle_split_Inr [OF split(3)] obtain cads e2 children where "e1 = adopt ad cads e2"
      "admit_all cfg children (depth ad + 1) e = (Inr cads, e2)" by metis
  moreover from admit_all_Inr [OF this(2)] obtain lm where "e2 = e\<lparr>live_map := lm\<rparr>" by blast
  ultimately have "delayed e1 = delayed e" "retried e1 = retried e" "transient_attempts e1 = transient_attempts e"
      "split_count e1 = split_count e + 1"
    by (simp_all add: adopt_def enqueue_fold)
  with split show ?thesis by (simp add: wants_split_def)
next
  case (split_fails sp x)
  from handle_split_Inl [OF split_fails(3)] obtain lm where "e1 = e\<lparr>live_map := lm\<rparr>" unfolding grows_def by blast
  with split_fails show ?thesis by (simp add: wants_split_def)
qed (use assms(1) in auto)

theorem oom_is_never_retried_witness:
  "route_exception demo_cfg (pool_env demo_hooks) (demo_admitted ''k'') oom_then_timeout initial_engine
     (demo_world demo_store (demo_os quiet))
     = (Inr (Some oom_then_timeout), initial_engine, demo_world demo_store (demo_os quiet))"
proof -
  let ?w = "demo_world demo_store (demo_os quiet)"
  have ws: "wants_split demo_cfg oom_then_timeout (demo_admitted ''k'') = Inr False"
    by (simp add: wants_split_def demo_cfg_def)
  then obtain r e1 w1 where r: "route_exception demo_cfg (pool_env demo_hooks) (demo_admitted ''k'') oom_then_timeout initial_engine ?w
      = (Inr r, e1, w1)"
    by (simp add: route_exception_def demo_classified)
  from oom_is_never_retried [OF demo_classified(1) r] r ws show ?thesis by simp
qed

text \<open>C26: A retry stays within its budget. A failure is scheduled for a retry only when it is no
  memory failure, nothing asks for a split and is_transient says yes; then the count of exactly
  that key goes up by one and stays below max_attempts, the same item with the same key is
  queued, and no error is reported.\<close>
theorem retry_within_budget:
  assumes "route_exception cfg env ad exc e w = (Inr r, e1, w1)" and "retried e1 \<noteq> retried e"
  shows "r = None \<and> is_oom cfg exc = Inr False \<and> wants_split cfg exc ad = Inr False \<and> is_transient cfg exc = Inr True \<and>
     retried e1 = retried e + 1 \<and>
     (\<exists>due. delayed e1 = heappush (delayed e) (due, seq_counter e, ad)) \<and>
     transient_count e1 (content_key ad) = transient_count e (content_key ad) + 1 \<and>
     transient_count e1 (content_key ad) < max_attempts (retry cfg) \<and>
     (\<forall>k. k = content_key ad \<or> transient_count e1 k = transient_count e k)"
  using assms(1)
proof (cases rule: route_cases)
  case (split sp)
  from handle_split_Inr [OF split(3)] obtain cads e2 children where "e1 = adopt ad cads e2"
      "admit_all cfg children (depth ad + 1) e = (Inr cads, e2)" by metis
  moreover from admit_all_Inr [OF this(2)] obtain lm where "e2 = e\<lparr>live_map := lm\<rparr>" by blast
  ultimately have "retried e1 = retried e" by (simp add: adopt_def enqueue_fold)
  with assms(2) show ?thesis by simp
next
  case (split_fails sp x)
  from handle_split_Inl [OF split_fails(3)] obtain lm where "e1 = e\<lparr>live_map := lm\<rparr>" unfolding grows_def by blast
  with assms(2) show ?thesis by simp
next
  case fatal
  with assms(2) show ?thesis by simp
next
  case transient
  from transient(4) show ?thesis
  proof (cases rule: retry_later_cases)
    case (fatal x)
    with assms(2) show ?thesis by (simp add: count_failure_def)
  next
    case (requeued due)
    with transient show ?thesis
      by (auto simp: requeue_def count_failure_def transient_count_def)
  qed
qed

lemma demo_route_timeout:
  obtains e1 w1 where "route_exception demo_cfg (pool_env demo_hooks) (demo_admitted ''k'') timed_out
      initial_engine (demo_world demo_store (demo_os quiet)) = (Inr None, e1, w1)" and "retried e1 = 1"
proof -
  have "wants_split demo_cfg timed_out (demo_admitted ''k'') = Inr False"
    by (simp add: wants_split_def demo_cfg_def)
  moreover have "retry demo_cfg = default_retry_policy" by (simp add: demo_cfg_def)
  ultimately show ?thesis
    using that by (simp add: route_exception_def demo_classified retry_later_def server_delay_def backoff_delay_def
        float_pow_def Let_def initial_engine_def pool_env_def draw_def clock_def elapse_def default_retry_policy_def)
qed

theorem retry_within_budget_witness:
  "\<exists>e1 w1. route_exception demo_cfg (pool_env demo_hooks) (demo_admitted ''k'') timed_out
      initial_engine (demo_world demo_store (demo_os quiet)) = (Inr None, e1, w1) \<and> transient_count e1 ''k'' = 1"
proof -
  obtain e1 w1 where r: "route_exception demo_cfg (pool_env demo_hooks) (demo_admitted ''k'') timed_out
      initial_engine (demo_world demo_store (demo_os quiet)) = (Inr None, e1, w1)" "retried e1 = 1"
    by (rule demo_route_timeout)
  from retry_within_budget [OF r(1)] r(2) have "transient_count e1 ''k'' = transient_count (initial_engine :: string engine) ''k'' + 1"
    by (simp add: initial_engine_def demo_admitted_def)
  with r(1) show ?thesis by (auto simp: transient_count_def initial_engine_def)
qed

text \<open>C27: A server's Retry-After is honoured or refused, never guessed, as long as the retry budget of
  the item lasts and max_server_delay is finite. A finite value between zero and max_server_delay
  puts the retry at least that long after the clock; a negative, an infinite, a NaN or a larger value
  is a fatal RetryAfterError, and nothing is queued. (Once the budget is spent the header is not
  consulted.)\<close>
theorem retry_after_honoured_or_fatal:
  assumes "retry_after_fn (retry cfg) = Some f" and "f exc = Inr (Some v)"
    and "max_server_delay (retry cfg) = Fin m"
    and "transient_count e (content_key ad) + 1 < max_attempts (retry cfg)"
    and "retry_later cfg env ad exc e w = (Inr r, e1, w1)"
  shows "(if \<exists>s\<ge>0. s \<le> m \<and> v = Fin s
      then r = None \<and> (\<exists>s now due u. v = Fin s \<and> monotonic env u = (now, w1) \<and> now + s \<le> due \<and>
             delayed e1 = heappush (delayed e) (due, seq_counter e, ad))
      else (\<exists>why. r = Some (retry_after_error why)) \<and> delayed e1 = delayed e \<and> w1 = w)"
proof (cases v)
  case (Fin s)
  consider "s < 0" | "m < s" | "0 \<le> s" "s \<le> m" by linarith
  then show ?thesis
  proof cases
    case 3
    then have "server_delay (retry cfg) exc = Inr (Inr (Some s))"
      using assms(1-3) Fin by (simp add: server_delay_def)
    then obtain b u now where b: "backoff_delay env (retry cfg) (transient_count e (content_key ad) + 1) w = (Inr b, u)"
        "monotonic env u = (now, w1)" "r = None"
        "delayed e1 = heappush (delayed e) (now + max b s, seq_counter e, ad)"
      using assms(4,5) by (auto simp: retry_later_def transient_count_def Let_def split: prod.splits sum.splits)
    have "\<exists>s\<ge>0. s \<le> m \<and> v = Fin s" using 3 Fin by blast
    with b Fin show ?thesis
      by (simp only: if_True) (intro conjI exI [of _ s] exI [of _ now] exI [of _ "now + max b s"] exI [of _ u], auto)
  qed (use assms Fin in \<open>auto simp: retry_later_def transient_count_def server_delay_def Let_def split: if_splits\<close>)
qed (use assms in \<open>auto simp: retry_later_def transient_count_def server_delay_def Let_def split: if_splits\<close>)

theorem retry_after_honoured_or_fatal_witness:
  "\<exists>why. fst (retry_later (demo_cfg\<lparr>retry := default_retry_policy\<lparr>retry_after_fn := Some (\<lambda>x. Inr (Some NaN))\<rparr>\<rparr>)
       (pool_env demo_hooks) (demo_admitted ''k'') timed_out initial_engine
       (demo_world demo_store (demo_os quiet))) = Inr (Some (retry_after_error why))"
proof -
  let ?cfg = "demo_cfg\<lparr>retry := default_retry_policy\<lparr>retry_after_fn := Some (\<lambda>x. Inr (Some NaN))\<rparr>\<rparr>"
  obtain r e1 w1 where r: "retry_later ?cfg (pool_env demo_hooks) (demo_admitted ''k'') timed_out
      initial_engine (demo_world demo_store (demo_os quiet)) = (Inr r, e1, w1)"
    by (simp add: retry_later_def server_delay_def Let_def initial_engine_def default_retry_policy_def)
  have "transient_count initial_engine (content_key (demo_admitted ''k'')) + 1 < max_attempts (retry ?cfg)"
    by (simp add: transient_count_def initial_engine_def default_retry_policy_def)
  from retry_after_honoured_or_fatal [OF _ _ _ this r, where v = NaN and m = 300] r
  show ?thesis by (auto simp: default_retry_policy_def)
qed

section \<open>Backoff\<close>

text \<open>C30: Between attempts the engine waits a bounded time: with a jitter fraction of at most one,
  the delay is at least zero and at most max_delay times one plus the jitter, for every
  attempt number.\<close>
theorem backoff_is_bounded:
  assumes "backoff_delay (pool_env h) p n w = (Inr d, w1)"
    and "0 \<le> max_delay p" and "0 \<le> jitter p" and "jitter p \<le> 1" and "\<forall>k. 0 \<le> rand w k \<and> rand w k \<le> 1"
  shows "0 \<le> d \<and> d \<le> max_delay p * (1 + jitter p)"
proof -
  from assms(1) obtain f where f: "float_pow (multiplier p) (nat (n - 1)) = Inr f"
    by (auto simp: backoff_delay_def split: sum.splits)
  let ?c = "min (max_delay p) (base_delay p * f)" and ?u = "1 - jitter p + 2 * jitter p * rand w (ticks w)"
  have d: "d = (if jitter p \<noteq> 0 then max 0 (?c * ?u) else max 0 ?c)"
    using assms(1) f by (auto simp: backoff_delay_def Let_def pool_env_def draw_def algebra_simps split: if_splits)
  have u: "0 \<le> ?u" "?u \<le> 1 + jitter p"
    using assms(3-5) mult_left_mono [of "rand w (ticks w)" 1 "2 * jitter p"] by auto
  have "?c * ?u \<le> max_delay p * (1 + jitter p)"
  proof (cases "0 \<le> ?c")
    case True
    then show ?thesis using u assms(2) by (intro mult_mono) auto
  next
    case False
    then have "?c \<le> 0" by linarith
    then have "?c * ?u \<le> 0" using u(1) by (rule mult_nonpos_nonneg)
    also have "0 \<le> max_delay p * (1 + jitter p)" using assms(2,3) by simp
    finally show ?thesis .
  qed
  moreover have "?c \<le> max_delay p * (1 + jitter p)"
    using assms(2,3) mult_left_mono [of 1 "1 + jitter p" "max_delay p"] by auto
  moreover have "0 \<le> max_delay p * (1 + jitter p)" using assms(2,3) by simp
  ultimately show ?thesis using d by auto
qed

theorem backoff_is_bounded_witness:
  "\<exists>d w1. backoff_delay (pool_env demo_hooks) default_retry_policy 3 (demo_world demo_store (demo_os quiet)) = (Inr d, w1) \<and>
     0 \<le> d \<and> d \<le> 90"
proof -
  obtain d w1 where b: "backoff_delay (pool_env demo_hooks) default_retry_policy 3 (demo_world demo_store (demo_os quiet)) = (Inr d, w1)"
    by (simp add: backoff_delay_def float_pow_def default_retry_policy_def pool_env_def draw_def Let_def)
  from backoff_is_bounded [OF b] b show ?thesis by (simp add: default_retry_policy_def demo_world_def)
qed

text \<open>C31: The cap does not protect from overflow. The power is computed before max_delay is
  applied, so with a multiplier of two or more the computation of the delay before the retry that
  follows the 1025th failure raises OverflowError instead of giving a delay, however small the cap.\<close>
theorem backoff_overflows:
  assumes "2 \<le> multiplier p" and "1025 \<le> n"
  shows "backoff_delay env p n w = (Inl overflow_error, w)"
proof -
  have "(2 :: real) ^ 1024 \<le> 2 ^ nat (n - 1)" using assms(2) by (intro power_increasing) auto
  also have "\<dots> \<le> multiplier p ^ nat (n - 1)" using assms(1) by (intro power_mono) auto
  finally have "\<not> \<bar>multiplier p ^ nat (n - 1)\<bar> < 2 ^ 1024" by linarith
  then show ?thesis by (simp add: backoff_delay_def float_pow_def)
qed

theorem backoff_overflows_witness:
  "backoff_delay (pool_env demo_hooks) default_retry_policy 1025 (demo_world demo_store (demo_os quiet))
     = (Inl overflow_error, demo_world demo_store (demo_os quiet))"
  by (rule backoff_overflows) (simp_all add: default_retry_policy_def)

section \<open>Splitting\<close>

text \<open>C28: A split makes progress or changes nothing that matters. When a split succeeds the item
  has at least one child, the children's depth is within the cap, they are strictly smaller than
  their parent wherever all sizes are known, their keys are new and distinct, they take the
  parent's place among the terminal keys and join the ready queue. When it fails, at whatever
  step, the terminal keys, the queues and the counters are as before.\<close>
theorem split_makes_progress:
  "case handle_split cfg sp ad e of
     (Inl x, e1) \<Rightarrow> (\<exists>lm. e1 = e\<lparr>live_map := lm\<rparr>)
   | (Inr u, e1) \<Rightarrow>
       (\<exists>children cads psz szs.
          split_fn sp (item ad) = Inr children \<and> children \<noteq> [] \<and> depth ad + 1 \<le> max_split_depth cfg \<and>
          split_size_fn cfg (item ad) = Inr psz \<and> sizes (split_size_fn cfg) children = Inr szs \<and>
          (psz \<le> 0 \<or> list_ex (\<lambda>s. s \<le> 0) szs \<or> list_all (\<lambda>s. s < psz) szs) \<and>
          list_all2 (admitted_as cfg (depth ad + 1)) children cads \<and> distinct (map content_key cads) \<and>
          content_key ` set cads \<inter> dict_keys (live_map e) = {} \<and>
          terminal_keys e1 = (terminal_keys e - {content_key ad}) \<union> content_key ` set cads \<and>
          ready e1 = ready e @ cads \<and> split_count e1 = split_count e + 1)"
proof -
  obtain r e1 where h: "handle_split cfg sp ad e = (r, e1)" by fastforce
  show ?thesis
  proof (cases r)
    case (Inl x)
    with handle_split_Inl [of cfg sp ad e x e1] h show ?thesis by (auto simp: grows_def)
  next
    case (Inr u)
    then obtain children psz szs cads e2 where s: "split_fn sp (item ad) = Inr children" "children \<noteq> []"
        "depth ad + 1 \<le> max_split_depth cfg" "split_size_fn cfg (item ad) = Inr psz"
        "sizes (split_size_fn cfg) children = Inr szs" "\<not> not_shrinking psz szs"
        "admit_all cfg children (depth ad + 1) e = (Inr cads, e2)" "e1 = adopt ad cads e2"
      using h by (auto simp: handle_split_def split: if_splits sum.splits prod.splits)
    from admit_all_Inr [OF s(7)] obtain lm where a: "e2 = e\<lparr>live_map := lm\<rparr>"
        "list_all2 (admitted_as cfg (depth ad + 1)) children cads" "distinct (map content_key cads)"
        "content_key ` set cads \<inter> dict_keys (live_map e) = {}" by blast
    have "szs \<noteq> []" using s(2,5) by (cases children) (auto split: sum.splits)
    then have "psz \<le> 0 \<or> list_ex (\<lambda>s. s \<le> 0) szs \<or> list_all (\<lambda>s. s < psz) szs"
      using s(6) Max_less_iff [of "set szs" psz] by (auto simp: not_shrinking_def list_ex_iff list_all_iff not_le)
    moreover have "terminal_keys e1 = (terminal_keys e - {content_key ad}) \<union> content_key ` set cads"
      "ready e1 = ready e @ cads" "split_count e1 = split_count e + 1"
      by (simp_all add: s(8) a(1) adopt_def enqueue_fold)
    ultimately show ?thesis using h Inr s(1-5) a(2-4) by auto
  qed
qed

section \<open>Results\<close>

lemma demo_committed:
  obtains st s where "world_sound demo_hooks (jsonl_accepts (\<lambda>t. t) None) (demo_world st s)" and "fault_free s"
    and "vouched demo_hooks st s ''k'' = Some (''h'', map jnorm demo_rows)"
proof -
  obtain st s where c: "commit demo_hooks demo_store ''k'' ''h'' demo_rows (demo_os quiet) = (Inr (), st, s)"
      "calm s" by (rule demo_commit)
  note d = jsonl_store.commit_durable [OF c(1) demo_manifest_ok demo_synced demo_clock demo_accepts ascii_names(2)]
  have "vouched demo_hooks st s ''k'' = Some (''h'', map jnorm demo_rows)"
    using synced_durable [of demo_hooks st s "''k''"] d(3,4) by simp
  moreover have "world_sound demo_hooks (jsonl_accepts (\<lambda>t. t) None) (demo_world st s)"
    using d(4,5) demo_accepts by (simp add: world_sound_def demo_world_def)
  moreover have "fault_free s" using c(2) by (rule calm_fault_free)
  ultimately show ?thesis using that by blast
qed

lemma demo_valid: "validate_mode demo_cfg = Inr ()"
  by (simp add: validate_mode_def demo_cfg_def)

lemma demo_ready: "ready demo_start = [demo_admitted ''k'']"
  by (simp add: demo_start_def enqueue_terminal_def initial_engine_def)

lemma demo_outcome:
  "outcome_of demo_cfg (map (\<lambda>kx. map jnorm demo_rows) (leaf_map (ready demo_start))) = Inr (map jnorm demo_rows)"
  by (simp add: outcome_of_def demo_cfg_def demo_ready leaf_map_def)


text \<open>C32: Both ways of combining agree. Folding the results one by one as they are loaded gives
  what combine gives on the whole list when it is that fold, whenever every result can be
  loaded: the incremental mode only saves memory.\<close>
theorem incremental_combine_equivalent:
  assumes "fst (on_disk (load_all (jsonl sha pf cs v) (cache w) (KeyMap d)) w) = Inr rs"
  shows "fst (stitch (cfg\<lparr>combine := None, reduce := Some f, finalize := Some g, initial := a\<rparr>)
           (pool_env (jsonl sha pf cs v)) d w) =
     fst (stitch (cfg\<lparr>combine := Some (\<lambda>rs. case fold_pure f a rs of Inl x \<Rightarrow> Inl x | Inr acc \<Rightarrow> g acc),
             reduce := None, finalize := None\<rparr>) (pool_env (jsonl sha pf cs v)) d w)"
proof -
  let ?h = "jsonl sha pf cs v"
  obtain w1 where l: "load_seq (world_load ?h) (sort d) w = (Inr rs, w1)"
    using assms unfolding load_all_seq by (metis prod.collapse)
  obtain q w2 where f: "fold_results f a (map (world_load ?h) (sort d)) w = (q, w2)" by fastforce
  have "q = fold_pure f a rs" using jsonl_run.load_seq_fold [OF l, of f a] f by simp
  with l f show ?thesis
    by (simp add: stitch_def pool_env_def load_all_seq split: sum.split)
qed

theorem incremental_combine_equivalent_witness:
  "\<exists>w :: (string, json list, unit) world. fst (stitch (demo_cfg\<lparr>combine := None, reduce := Some (\<lambda>a r. Inr (a @ r)), finalize := Some Inr, initial := []\<rparr>)
      (pool_env demo_hooks) [(''k'', ''h'')] w) = Inr (map jnorm demo_rows)"
proof -
  obtain st s where c: "fault_free s" "vouched demo_hooks st s ''k'' = Some (''h'', map jnorm demo_rows)"
    by (rule demo_committed)
  let ?w = "demo_world st s"
  have k: "fault_free (disk ?w)" "\<forall>kx\<in>set [(''k'', ''h'')]. cached demo_hooks ?w (\<lambda>k. map jnorm demo_rows) kx"
    using c by (simp_all add: cached_def demo_world_def)
  from cached_seq [OF k] obtain w' where l: "load_seq (world_load demo_hooks) [(''k'', ''h'')] ?w = (Inr [map jnorm demo_rows], w')"
    by auto
  then have "fst (on_disk (load_all demo_hooks (cache ?w) (KeyMap [(''k'', ''h'')])) ?w) = Inr [map jnorm demo_rows]"
    unfolding load_all_seq by simp
  from incremental_combine_equivalent [OF this, where cfg = demo_cfg and f = "\<lambda>a r. Inr (a @ r)" and g = Inr and a = "[]"] l
  have "fst (stitch (demo_cfg\<lparr>combine := None, reduce := Some (\<lambda>a r. Inr (a @ r)), finalize := Some Inr, initial := []\<rparr>)
      (pool_env demo_hooks) [(''k'', ''h'')] ?w) = Inr (map jnorm demo_rows)"
    by (simp add: stitch_def pool_env_def load_all_seq)
  then show ?thesis by blast
qed

text \<open>C4: A run that returns a result has combined exactly the leaves. Over the JSONL store, when
  memory and disk agree at the start, the workers return records the store accepts and hashes
  are text: the leaves are a frontier of the split tree of the roots with distinct keys, the
  output is made of one vouched result per leaf, with the leaf's own hash, in the order of the
  keys, and the counters account for every leaf and every attempt.\<close>
theorem run_combines_exactly_the_leaves:
  assumes "run_checkpointed cfg (pool_env (jsonl sha pf cs v)) items w = Some (Inr res, w')"
    and "\<forall>p ck ph. content_key_fn cfg p = Inr (ck, ph) \<longrightarrow> utf8_ok ph"
    and "world_sound (jsonl sha pf cs v) (jsonl_accepts pf v) w"
  shows "\<exists>ls rs e0 e1 w1 w2. admit_roots cfg items initial_engine = (Inr (), e0) \<and>
     loop_steps cfg (pool_env (jsonl sha pf cs v)) (e0, w) (e1, w1) \<and>
     finally_block (pool_env (jsonl sha pf cs v)) w1 = (Inr (), w2) \<and>
     frontier cfg items ls \<and> distinct (map content_key ls) \<and>
     list_all2 (\<lambda>kh r. vouched (jsonl sha pf cs v) (cache w2) (disk w2) (fst kh) = Some (snd kh, r)) (leaf_map ls) rs \<and>
     outcome_of cfg rs = Inr (frame res) \<and>
     attempts res = committed_keys res + transient_retries res + splits res \<and>
     resumed_keys res + committed_keys res = int (length ls)"
  using jsonl_run.run_success [OF assms(1) _ assms(3)] assms(2)
  unfolding jsonl_run.hashes_ok_def world_serves_def by blast

theorem run_combines_exactly_the_leaves_witness:
  "\<exists>(w :: (string, json list, unit) world) res w' ls. run_checkpointed demo_cfg (pool_env demo_hooks) [demo_item ''k''] w = Some (Inr res, w') \<and>
     frontier demo_cfg [demo_item ''k''] ls \<and> resumed_keys res + committed_keys res = int (length ls) \<and>
     frame res = map jnorm demo_rows"
proof -
  obtain st s where c: "world_sound demo_hooks (jsonl_accepts (\<lambda>t. t) None) (demo_world st s)" "fault_free s"
    "vouched demo_hooks st s ''k'' = Some (''h'', map jnorm demo_rows)" by (rule demo_committed)
  let ?w = "demo_world st s"
  have "fault_free (disk ?w)" "created ?w = []" "\<not> cleanup_on_success demo_cfg"
    "\<forall>ad\<in>set (ready demo_start). cached demo_hooks ?w (\<lambda>k. map jnorm demo_rows) (content_key ad, payload_hash ad)"
    using c(2,3) by (simp_all add: demo_world_def demo_cfg_def demo_ready cached_def demo_admitted_def)
  from resume_run [OF demo_valid demo_roots this demo_outcome] obtain res w'
    where r: "run_checkpointed demo_cfg (pool_env demo_hooks) [demo_item ''k''] ?w = Some (Inr res, w')"
      "frame res = map jnorm demo_rows" by auto
  have "\<forall>p ck ph. content_key_fn demo_cfg p = Inr (ck, ph) \<longrightarrow> utf8_ok ph"
    using ascii_names(2) by (simp add: demo_cfg_def)
  from run_combines_exactly_the_leaves [OF r(1) this c(1)] obtain ls
    where "frontier demo_cfg [demo_item ''k''] ls" "resumed_keys res + committed_keys res = int (length ls)" by auto
  with r show ?thesis by (intro exI [of _ ?w] exI [of _ res] exI [of _ w'] exI [of _ ls]) simp
qed

text \<open>C12: A run that finds everything cached executes nothing. With a valid configuration that leaves
  cleanup_on_success off, when no system call fails, the pool has no threads yet, the roots are
  admitted, the store vouches for every root with its hash and the results combine:
  run_checkpointed submits no task, counts no attempt and no commit, changes no file, and returns the
  combination of the cached results in key order. (With cleanup_on_success it removes the cache at
  the end.)\<close>
theorem resume_executes_nothing:
  assumes "validate_mode cfg = Inr ()" and "admit_roots cfg items initial_engine = (Inr (), e0)"
    and "fault_free (disk w)" and "created w = []" and "\<not> cleanup_on_success cfg"
    and "\<forall>ad\<in>set (ready e0). vouched h (cache w) (disk w) (content_key ad) = Some (payload_hash ad, f (content_key ad))"
    and "outcome_of cfg (map (\<lambda>kx. f (fst kx)) (leaf_map (ready e0))) = Inr out"
  shows "\<exists>w'. run_checkpointed cfg (pool_env h) items w =
      Some (Inr \<lparr>frame = out, attempts = 0, committed_keys = 0, resumed_keys = int (length items),
                 transient_retries = 0, splits = 0\<rparr>, w') \<and>
     submitted w' = submitted w \<and> file_at (disk w') = file_at (disk w)"
  using resume_run [OF assms(1-5) _ assms(7)] assms(6) by (simp add: cached_def)

theorem resume_executes_nothing_witness:
  "\<exists>(w :: (string, json list, unit) world) w'. run_checkpointed demo_cfg (pool_env demo_hooks) [demo_item ''k''] w =
     Some (Inr \<lparr>frame = map jnorm demo_rows, attempts = 0, committed_keys = 0, resumed_keys = 1,
                transient_retries = 0, splits = 0\<rparr>, w') \<and> submitted w' = []"
proof -
  obtain st s where c: "fault_free s" "vouched demo_hooks st s ''k'' = Some (''h'', map jnorm demo_rows)"
    by (rule demo_committed)
  let ?w = "demo_world st s"
  have "fault_free (disk ?w)" "created ?w = []" "\<not> cleanup_on_success demo_cfg"
    "\<forall>ad\<in>set (ready demo_start). vouched demo_hooks (cache ?w) (disk ?w) (content_key ad)
        = Some (payload_hash ad, (\<lambda>k. map jnorm demo_rows) (content_key ad))"
    using c by (simp_all add: demo_world_def demo_cfg_def demo_ready demo_admitted_def)
  from resume_executes_nothing [OF demo_valid demo_roots this demo_outcome] obtain w'
    where r: "run_checkpointed demo_cfg (pool_env demo_hooks) [demo_item ''k''] ?w =
        Some (Inr \<lparr>frame = map jnorm demo_rows, attempts = 0, committed_keys = 0, resumed_keys = 1,
                transient_retries = 0, splits = 0\<rparr>, w')" "submitted w' = submitted ?w" by auto
  have "submitted ?w = []" by (simp add: demo_world_def)
  with r show ?thesis by (intro exI [of _ ?w] exI [of _ w']) simp
qed

section \<open>Failure\<close>

lemma cancel_keeps: "fold (fut_cancel (pool_env h)) fs w = w\<lparr>cancelled := set fs \<union> cancelled w\<rparr>"
  by (induction fs arbitrary: w) (simp_all add: pool_env_def)

lemma run_teardowns_quiet:
  "(\<And>c y. f c = Inl y \<Longrightarrow> is_Exception y) \<Longrightarrow> run_teardowns (map (\<lambda>c v. (f c, v)) cs) w = (Inr (), w)"
  by (induction cs) (auto split: sum.split)

text \<open>C23: The original error of a run is the one raised. When the loop ends with a fatal
  exception, that exception leaves run_checkpointed even if worker_teardown raises, and the
  checkpoints, in memory and on disk, are exactly those the loop left.\<close>
theorem fatal_error_not_masked:
  assumes "validate_mode cfg = Inr ()" and "admit_roots cfg items initial_engine = (Inr (), e0)"
    and "run_loop cfg (pool_env h) e0 w = Some (Inr (), e1, w1)" and "fatal_exc e1 = Some x"
    and "\<forall>f c y. worker_teardown w1 = Some f \<and> f c = Inl y \<longrightarrow> is_Exception y"
  shows "\<exists>w2. run_checkpointed cfg (pool_env h) items w = Some (Inl x, w2) \<and> cache w2 = cache w1 \<and> disk w2 = disk w1"
proof -
  let ?w2 = "(cancel_inflight (pool_env h) e1 w1)\<lparr>closed := True\<rparr>"
  obtain c where c: "cancel_inflight (pool_env h) e1 w1 = w1\<lparr>cancelled := c\<rparr>"
    unfolding cancel_inflight_def using cancel_keeps by blast
  have "run_teardowns (teardown_calls ?w2) ?w2 = (Inr (), ?w2)"
  proof (cases "worker_teardown w1")
    case (Some f)
    with assms(5) have "\<And>c y. f c = Inl y \<Longrightarrow> is_Exception y" by blast
    from run_teardowns_quiet [of f, OF this] show ?thesis by (simp add: teardown_calls_def c Some)
  qed (simp add: teardown_calls_def c)
  then have "finally_block (pool_env h) (cancel_inflight (pool_env h) e1 w1) = (Inr (), ?w2)"
    by (simp add: finally_block_def pool_env_def Let_def)
  then have "run_checkpointed cfg (pool_env h) items w = Some (Inl x, ?w2)"
    using assms(1-4) by (simp add: run_checkpointed_def conclude_def)
  then show ?thesis by (simp add: c)
qed

lemma demo_fatal_run:
  obtains w1 e1 where "run_loop demo_cfg (pool_env demo_hooks) demo_start
       (demo_world demo_store (demo_os quiet)\<lparr>execute := \<lambda>n p c. Inl (Exn PyValueError ''boom''),
          worker_teardown := Some (\<lambda>c. Inl (Exn PyRuntimeError ''teardown''))\<rparr>) = Some (Inr (), e1, w1)"
    and "fatal_exc e1 = Some (Exn PyValueError ''boom'')"
    and "worker_teardown w1 = Some (\<lambda>c. Inl (Exn PyRuntimeError ''teardown''))"
proof -
  let ?w = "demo_world demo_store (demo_os quiet)\<lparr>execute := \<lambda>n p c. Inl (Exn PyValueError ''boom''),
          worker_teardown := Some (\<lambda>c. Inl (Exn PyRuntimeError ''teardown''))\<rparr>"
  have c: "\<not> default_is_oom (Exn PyValueError ''boom'')" "\<not> default_is_transient (Exn PyValueError ''boom'')"
    by code_simp+
  have d: "ready demo_start = [demo_admitted ''k'']" "inflight demo_start = []" "attempts_total demo_start = 0"
    "delayed demo_start = []" "fatal_exc demo_start = None"
    by (simp_all add: demo_start_def enqueue_terminal_def initial_engine_def)
  have r: "route_exception demo_cfg env (demo_admitted ''k'') (Exn PyValueError ''boom'') e w
      = (Inr (Some (Exn PyValueError ''boom'')), e, w)" for env e w
    using c by (simp add: route_exception_def wants_split_def demo_cfg_def)
  have m: "max_workers demo_cfg = 2" by (simp add: max_workers_def demo_cfg_def)
  have "\<exists>e1 w1. iteration demo_cfg (pool_env demo_hooks) demo_start ?w = (Inr (), e1, w1) \<and>
      fatal_exc e1 = Some (Exn PyValueError ''boom'') \<and>
      worker_teardown w1 = Some (\<lambda>c. Inl (Exn PyRuntimeError ''teardown''))"
    by (simp add: r [unfolded demo_admitted_def demo_item_def] m iteration_def d await_def wait_timeout_def promote_matured_def demo_world_def on_disk_def has_def
        demo_store_def submit_def init_worker_def wait_first_def run_one_def clock_def elapse_def Let_def
        demo_admitted_def demo_item_def pool_env_def)
  then obtain e1 w1 where i: "iteration demo_cfg (pool_env demo_hooks) demo_start ?w = (Inr (), e1, w1)"
      "fatal_exc e1 = Some (Exn PyValueError ''boom'')"
      "worker_teardown w1 = Some (\<lambda>c. Inl (Exn PyRuntimeError ''teardown''))" by blast
  then have "\<not> unfinished e1" by (simp add: unfinished_def)
  then have "run_loop demo_cfg (pool_env demo_hooks) e1 w1 = Some (Inr (), e1, w1)" by (simp add: run_loop.simps)
  moreover have "unfinished demo_start" by (simp add: unfinished_def d)
  ultimately have "run_loop demo_cfg (pool_env demo_hooks) demo_start ?w = Some (Inr (), e1, w1)"
    using i(1) by (subst run_loop.simps) simp
  then show ?thesis using that i(2,3) by blast
qed

theorem fatal_error_not_masked_witness:
  "\<exists>w2. run_checkpointed demo_cfg (pool_env demo_hooks) [demo_item ''k'']
       (demo_world demo_store (demo_os quiet)\<lparr>execute := \<lambda>n p c. Inl (Exn PyValueError ''boom''),
          worker_teardown := Some (\<lambda>c. Inl (Exn PyRuntimeError ''teardown''))\<rparr>)
     = Some (Inl (Exn PyValueError ''boom''), w2)"
proof -
  obtain w1 e1 where l: "run_loop demo_cfg (pool_env demo_hooks) demo_start
       (demo_world demo_store (demo_os quiet)\<lparr>execute := \<lambda>n p c. Inl (Exn PyValueError ''boom''),
          worker_teardown := Some (\<lambda>c. Inl (Exn PyRuntimeError ''teardown''))\<rparr>) = Some (Inr (), e1, w1)"
    "fatal_exc e1 = Some (Exn PyValueError ''boom'')"
    "worker_teardown w1 = Some (\<lambda>c. Inl (Exn PyRuntimeError ''teardown''))" by (rule demo_fatal_run)
  have "validate_mode demo_cfg = Inr ()" by (simp add: validate_mode_def demo_cfg_def)
  from fatal_error_not_masked [OF this demo_roots l(1,2)] l(3) show ?thesis
    by (auto simp: is_Exception_def isinstance_def)
qed

end
