(* ===== verification/Engine_Restart.thy ===== *)
theory Engine_Restart
  imports Engine_Resume Store_Reopen
begin

text \<open>
  A run that ends anywhere, and the run after it. The first part follows what one turn of the
  main loop does to the disk, whatever its outcome: nothing but the keys of the items that were
  pending changes. The second part follows one key whose result the store vouches for: it is
  skipped when it is dispatched, so no task of it is ever submitted. \<open>leaf_survives\<close> joins the
  first part with the invariant of the loop.
\<close>

section \<open>What the steps of the engine leave alone\<close>

definition inert :: "('p, 'r, 'c) world \<Rightarrow> ('p, 'r, 'c) world \<Rightarrow> bool" where
  \<comment> \<open>the store, the workers' functions and the tasks are as they were\<close>
  "inert w w' \<longleftrightarrow> cache w' = cache w \<and> disk w' = disk w \<and> execute w' = execute w \<and> submitted w' = submitted w"

lemma inert_refl [simp]: "inert w w"
  by (simp add: inert_def)

lemma inert_trans: "inert u v \<Longrightarrow> inert v w \<Longrightarrow> inert u w"
  by (simp add: inert_def)

lemma inert_clock: "monotonic (pool_env h) w = (t, w') \<Longrightarrow> inert w w'"
  by (auto simp: inert_def pool_env_def clock_def Let_def elapse_def)

lemma inert_sleep: "inert w (sleep (pool_env h) d w)"
  by (simp add: inert_def pool_env_def elapse_def)

lemma inert_draw: "uniform (pool_env h) a b w = (u, w') \<Longrightarrow> inert w w'"
  by (auto simp: inert_def pool_env_def draw_def)

lemma inert_wait: "pool_wait (pool_env h) fs tm w = (dn, w') \<Longrightarrow> inert w w'"
  by (auto simp: inert_def pool_env_def wait_first_def Let_def elapse_def split: if_splits option.splits)

lemma inert_backoff: "backoff_delay (pool_env h) p n w = (q, w') \<Longrightarrow> inert w w'"
  using inert_draw by (fastforce simp: backoff_delay_def Let_def split: sum.splits prod.splits if_splits)

lemma inert_retry:
  assumes "retry_later cfg (pool_env h) ad exc e w = (q, e1, w1)"
  shows "inert w w1"
proof -
  from assms consider "w1 = w" | x v y where "backoff_delay (pool_env h) (retry cfg) y w = (x, v)" "v = w1"
    | x v y t where "backoff_delay (pool_env h) (retry cfg) y w = (x, v)" "monotonic (pool_env h) v = (t, w1)"
    by (auto simp: retry_later_def Let_def split: if_splits sum.splits prod.splits option.splits)
  then show ?thesis
  proof cases
    case (3 x v y t)
    then show ?thesis using inert_trans [OF inert_backoff inert_clock] by blast
  qed (auto intro: inert_backoff)
qed

lemma inert_route:
  assumes "route_exception cfg (pool_env h) ad exc e w = (q, e1, w1)"
  shows "inert w w1"
  using assms inert_retry
  by (auto simp: route_exception_def split: sum.splits if_splits prod.splits)

lemma inert_promote: "promote_matured (pool_env h) e w = (e1, w1) \<Longrightarrow> inert w w1"
  using inert_clock by (fastforce simp: promote_matured_def split: prod.splits)

lemma inert_timeout: "wait_timeout (pool_env h) e w = (tm, w1) \<Longrightarrow> inert w w1"
  using inert_clock by (fastforce simp: wait_timeout_def split: list.splits prod.splits)

lemma inert_doze:
  assumes "doze (pool_env h) e w = (e1, w1)"
  shows "inert w w1"
proof -
  obtain tm v where t: "wait_timeout (pool_env h) e w = (tm, v)" by fastforce
  let ?d = "case tm of None \<Rightarrow> 0 | Some t \<Rightarrow> t"
  let ?v = "if ?d > 0 then sleep (pool_env h) ?d v else v"
  have "promote_matured (pool_env h) e ?v = (e1, w1)" using assms t by (simp add: doze_def Let_def)
  then have "inert ?v w1" by (rule inert_promote)
  moreover have "inert v ?v" by (simp add: inert_sleep)
  ultimately show ?thesis using inert_timeout [OF t] inert_trans by metis
qed

definition reads :: "('p, 'r, 'c) world \<Rightarrow> ('p, 'r, 'c) world \<Rightarrow> bool" where
  \<comment> \<open>tasks may have been submitted, but no file has changed\<close>
  "reads w w' \<longleftrightarrow> cache w' = cache w \<and> execute w' = execute w \<and> keeps {} (disk w) (disk w')"

lemma inert_reads: "inert w w' \<Longrightarrow> reads w w'"
  by (simp add: inert_def reads_def)

lemma reads_refl [simp]: "reads w w"
  by (simp add: reads_def)

lemma reads_trans: "reads u v \<Longrightarrow> reads v w \<Longrightarrow> reads u w"
  by (auto simp: reads_def intro: keeps_trans)

lemma reads_has: "store_has (pool_env h) k x w = (q, w') \<Longrightarrow> reads w w' \<and> submitted w' = submitted w"
  using touches_keeps [OF touches_has]
  by (auto simp: pool_env_def on_disk_def reads_def split: prod.splits)

lemma reads_submit: "pool_submit (pool_env h) f p w = (q, w') \<Longrightarrow> reads w w'"
  by (auto simp: reads_def pool_env_def submit_def init_worker_def Let_def split: if_splits option.splits sum.splits)

lemma submit_tasks:
  "pool_submit (pool_env h) f p w = (q, w') \<Longrightarrow> snd ` set (submitted w') \<subseteq> insert p (snd ` set (submitted w))"
proof -
  assume s: "pool_submit (pool_env h) f p w = (q, w')"
  have "submitted w' = submitted w \<or> submitted w' = dict_set f p (submitted w)"
    using s by (auto simp: pool_env_def submit_def init_worker_def Let_def split: if_splits option.splits sum.splits)
  moreover have "snd ` set (dict_set f p (submitted w)) \<subseteq> insert p (snd ` set (submitted w))"
    using dict_set_values by fastforce
  ultimately show ?thesis by (metis subset_insertI)
qed

lemma reads_file: "reads w w' \<Longrightarrow> file_at (disk w') = file_at (disk w)"
  by (auto simp: reads_def keeps_def)

lemma reads_sound: "reads w w' \<Longrightarrow> world_sound h accepts w' = world_sound h accepts w"
proof -
  assume r: "reads w w'"
  then have k: "keeps {} (disk w) (disk w')" "cache w' = cache w" "execute w' = execute w" by (simp_all add: reads_def)
  have "clock_ok h (disk w') = clock_ok h (disk w)"
    using keepsD(5,6,9) [OF k(1)] by (simp add: clock_ok_def world_ok_def)
  with k(2,3) synced_files [OF reads_file [OF r], of h] show ?thesis by (simp add: world_sound_def)
qed

lemma reads_fault_free: "reads w w' \<Longrightarrow> fault_free (disk w') = fault_free (disk w)"
  by (simp add: reads_def keeps_def fault_free_def)

lemma reads_vouched: "reads w w' \<Longrightarrow> vouched h (cache w') (disk w') k = vouched h (cache w) (disk w) k"
  using vouched_files [OF reads_file [of w w']] by (simp add: reads_def)

section \<open>What one turn of the loop can change on disk\<close>

definition disk_moves :: "'r hooks \<Rightarrow> string set \<Rightarrow> ('p, 'r, 'c) world \<Rightarrow> ('p, 'r, 'c) world \<Rightarrow> bool" where
  \<comment> \<open>only the durable results of the keys in the set may differ\<close>
  "disk_moves h K w w' \<longleftrightarrow>
     fingerprint (cache w') = fingerprint (cache w) \<and>
     (disk_valid h (fingerprint (cache w)) (disk w) \<longrightarrow> disk_valid h (fingerprint (cache w)) (disk w')) \<and>
     (\<forall>k. k \<notin> K \<longrightarrow> durable h (fingerprint (cache w)) (disk w') k = durable h (fingerprint (cache w)) (disk w) k)"

lemma sound_valid: "world_sound h accepts w \<Longrightarrow> disk_valid h (fingerprint (cache w)) (disk w)"
  by (auto simp: disk_valid_def world_sound_def)

lemma disk_moves_refl [simp]: "disk_moves h K w w"
  by (simp add: disk_moves_def)

lemma disk_moves_trans: "disk_moves h K u v \<Longrightarrow> disk_moves h K v w \<Longrightarrow> disk_moves h K u w"
  by (simp add: disk_moves_def)

lemma disk_moves_mono: "disk_moves h K u v \<Longrightarrow> K \<subseteq> L \<Longrightarrow> disk_moves h L u v"
  by (auto simp: disk_moves_def)

lemma reads_moves:
  assumes "reads w w'"
  shows "disk_moves h K w w'"
proof -
  note f = reads_file [OF assms]
  have "durable h fp (disk w') k = durable h fp (disk w) k" for fp k
    by (rule durable_cong [OF disk_entries_keeps payload_of_same]) (simp_all add: f)
  moreover have "disk_valid h fp (disk w') = disk_valid h fp (disk w)" for fp by (rule disk_valid_file) (simp add: f)
  ultimately show ?thesis using assms by (simp add: disk_moves_def reads_def)
qed

lemma dispatch_reads:
  "dispatch cfg (pool_env h) rest e w = (q, e1, w1) \<Longrightarrow>
     reads w w1 \<and> snd ` set (inflight e1) \<subseteq> snd ` set (inflight e) \<union> set rest"
proof (induction rest arbitrary: e w)
  case (Cons ad rest)
  show ?case
  proof (cases "length (inflight e) < max_workers cfg")
    case True
    obtain b w2 where h: "store_has (pool_env h) (content_key ad) (payload_hash ad) w = (b, w2)" by fastforce
    note r = conjunct1 [OF reads_has [OF h]]
    consider (raised) x where "b = Inl x" | (hit) "b = Inr True" | (miss) "b = Inr False"
      by (cases b) auto
    then show ?thesis
    proof cases
      case raised
      then show ?thesis using Cons.prems True h r by auto
    next
      case hit
      then have "dispatch cfg (pool_env h) rest (e\<lparr>resumed := resumed e + 1\<rparr>) w2 = (q, e1, w1)"
        using Cons.prems True h by simp
      from Cons.IH [OF this] reads_trans [OF r] show ?thesis by auto
    next
      case miss
      let ?f = "nat (attempts_total e)"
      obtain u w3 where s: "pool_submit (pool_env h) ?f (payload (item ad)) w2 = (u, w3)" by fastforce
      note r3 = reads_trans [OF r reads_submit [OF s]]
      show ?thesis
      proof (cases u)
        case (Inl x)
        then show ?thesis using Cons.prems True h miss s r3 by (auto simp: Let_def)
      next
        case (Inr v)
        let ?e = "e\<lparr>attempts_total := attempts_total e + 1, inflight := dict_set ?f ad (inflight e)\<rparr>"
        have "dispatch cfg (pool_env h) rest ?e w3 = (q, e1, w1)"
          using Cons.prems True h miss s Inr by (simp add: Let_def)
        from Cons.IH [OF this] have i: "reads w3 w1" "snd ` set (inflight e1) \<subseteq> snd ` set (inflight ?e) \<union> set rest"
          by blast+
        have "snd ` set (inflight ?e) \<subseteq> insert ad (snd ` set (inflight e))" by (fastforce dest: dict_set_values)
        then have "snd ` set (inflight e1) \<subseteq> insert ad (snd ` set (inflight e)) \<union> set rest"
          by (rule order_trans [OF i(2) Un_mono [OF _ order_refl]])
        with reads_trans [OF r3 i(1)] show ?thesis by simp
      qed
    qed
  qed (use Cons.prems in auto)
qed auto

lemma dict_pop_subset: "set (dict_pop f d) \<subseteq> set d"
  by (auto simp: AList.delete_eq)

lemma process_done_cases:
  assumes "process_done cfg env (f # futs) e w = (q, e1, w1)"
  obtains (missing) x where "q = Inl x" and "w1 = w"
  | (committed) ad r w2 where "dict_get (inflight e) f = Some ad" and "fut_result env f w = Inr r"
      and "store_commit env (content_key ad) (payload_hash ad) r w = (Inr (), w2)"
      and "process_done cfg env futs (e\<lparr>inflight := dict_pop f (inflight e), committed := committed e + 1\<rparr>) w2 = (q, e1, w1)"
  | (commit_fails) ad r x where "dict_get (inflight e) f = Some ad" and "fut_result env f w = Inr r"
      and "store_commit env (content_key ad) (payload_hash ad) r w = (Inl x, w1)" and "q = Inl x"
  | (routed) ad exc e2 w2 where "dict_get (inflight e) f = Some ad"
      and "route_exception cfg env ad exc (e\<lparr>inflight := dict_pop f (inflight e)\<rparr>) w = (Inr None, e2, w2)"
      and "process_done cfg env futs e2 w2 = (q, e1, w1)"
  | (stopped) ad exc p e2 where "dict_get (inflight e) f = Some ad"
      and "route_exception cfg env ad exc (e\<lparr>inflight := dict_pop f (inflight e)\<rparr>) w = (p, e2, w1)"
      and "\<forall>u. q = Inr u \<longrightarrow> (\<exists>x. p = Inr (Some x) \<and> e1 = e2\<lparr>fatal_exc := Some x\<rparr>)"
proof (cases "dict_get (inflight e) f")
  case None
  with assms show ?thesis by (intro missing) auto
next
  case (Some ad)
  let ?e = "e\<lparr>inflight := dict_pop f (inflight e)\<rparr>"
  show ?thesis
  proof (cases "fut_result env f w")
    case (Inr r)
    obtain u w2 where c: "store_commit env (content_key ad) (payload_hash ad) r w = (u, w2)" by fastforce
    show ?thesis
    proof (cases u)
      case (Inl x)
      then show ?thesis using assms Some Inr c by (intro commit_fails [OF Some Inr, of x]) (auto simp: Let_def)
    next
      case u: (Inr v)
      then show ?thesis using assms Some Inr c by (intro committed [OF Some Inr, of w2]) (auto simp: Let_def)
    qed
  next
    case (Inl exc)
    show ?thesis
    proof (cases "is_Exception exc")
      case False
      then show ?thesis using assms Some Inl by (intro missing) (auto simp: Let_def)
    next
      case True
      obtain p e2 w2 where r: "route_exception cfg env ad exc ?e w = (p, e2, w2)" by (metis surj_pair)
      show ?thesis
      proof (cases "p = Inr None")
        case True
        then show ?thesis using assms Some Inl \<open>is_Exception exc\<close> r by (intro routed [OF Some, of exc e2 w2]) (simp_all add: Let_def)
      next
        case False
        then show ?thesis using assms Some Inl \<open>is_Exception exc\<close> r
          by (intro stopped [OF Some, of exc p e2]) (auto simp: Let_def split: sum.splits option.splits)
      qed
    qed
  qed
qed

lemma iteration_world:
  assumes "iteration cfg (pool_env h) e w = (q, e1, w1)"
  obtains (quiet) "reads w w1"
  | (completes) futs e2 v u e3 w3 where "reads w v" and "snd ` set (inflight e2) \<subseteq> set (pending e)"
      and "process_done cfg (pool_env h) futs e2 v = (u, e3, w3)" and "reads w3 w1"
proof -
  obtain p e2 w2 where d: "dispatch cfg (pool_env h) (ready e) e w = (p, e2, w2)" by (metis surj_pair)
  from dispatch_reads [OF d] have r: "reads w w2" and sub: "snd ` set (inflight e2) \<subseteq> set (pending e)"
    by (auto simp: pending_def)
  from assms d consider "w1 = w2" | "await cfg (pool_env h) e2 w2 = (q, e1, w1)" | "doze (pool_env h) e2 w2 = (e1, w1)"
    by (auto simp: iteration_def split: sum.splits if_splits prod.splits)
  then show ?thesis
  proof cases
    case 1
    then show ?thesis using quiet r by simp
  next
    case 3
    then show ?thesis using quiet reads_trans [OF r] inert_reads inert_doze by blast
  next
    case 2
    obtain tm v where t: "wait_timeout (pool_env h) e2 w2 = (tm, v)" by fastforce
    obtain dn v2 where n: "pool_wait (pool_env h) (map fst (inflight e2)) tm v = (dn, v2)" by fastforce
    obtain u e3 w3 where pd: "process_done cfg (pool_env h) dn e2 v2 = (u, e3, w3)" by (metis surj_pair)
    have rv: "reads w v2"
      by (rule reads_trans [OF r inert_reads [OF inert_trans [OF inert_timeout [OF t] inert_wait [OF n]]]])
    from 2 t n pd have "w1 = w3 \<or> promote_matured (pool_env h) e3 w3 = (e1, w1)"
      by (auto simp: await_def split: sum.splits prod.splits)
    then have "reads w3 w1" using inert_reads inert_promote reads_refl by blast
    with completes [OF rv sub pd] show ?thesis .
  qed
qed

lemma process_done_fingerprint:
  "process_done cfg (pool_env h) futs e w = (q, e1, w1) \<Longrightarrow> fingerprint (cache w1) = fingerprint (cache w)"
proof (induction futs arbitrary: e w)
  case (Cons f futs)
  have c: "store_commit (pool_env h) k x r w = (u, v) \<Longrightarrow> fingerprint (cache v) = fingerprint (cache w)" for k x r u v
    using keeps_commit(2) by (fastforce simp: pool_env_def world_commit_def split: prod.splits)
  have i: "inert w v \<Longrightarrow> fingerprint (cache v) = fingerprint (cache w)" for v by (simp add: inert_def)
  from Cons.prems show ?case
    by (cases rule: process_done_cases) (use Cons.IH c i [OF inert_route] in fastforce)+
qed simp

lemma loop_fingerprint:
  assumes "loop_steps cfg (pool_env h) (e, w) (e1, w1)"
  shows "fingerprint (cache w1) = fingerprint (cache w)"
  using assms
proof (induction rule: rtranclp_induct2)
  case (step e1 w1 e2 w2)
  from step(2) have "iteration cfg (pool_env h) e1 w1 = (Inr (), e2, w2)" by (rule loop_stepE)
  then have "fingerprint (cache w2) = fingerprint (cache w1)"
  proof (cases rule: iteration_world)
    case (completes futs e3 v u e4 w4)
    with process_done_fingerprint [OF completes(3)] show ?thesis by (simp add: reads_def)
  qed (simp add: reads_def)
  with step(3) show ?case by simp
qed simp

context payload_codec
begin

lemma fut_accepted: "world_sound h accepts w \<Longrightarrow> fut_result (pool_env h) f w = Inr r \<Longrightarrow> accepts r"
  by (auto simp: pool_env_def run_one_def world_sound_def split: if_splits option.splits)

lemma commit_moves:
  assumes "store_commit (pool_env h) k x r w = (q, w')" and "world_sound h accepts w" and "accepts r" and "utf8_ok x"
  shows "disk_moves h {k} w w'" and "submitted w' = submitted w" and "fault_free (disk w') = fault_free (disk w)"
    and "q = Inr () \<Longrightarrow> world_sound h accepts w'"
proof -
  obtain st s where c: "commit h (cache w) k x r (disk w) = (q, st, s)" and w': "w' = w\<lparr>cache := st, disk := s\<rparr>"
    using assms(1) by (auto simp: pool_env_def world_commit_def split: prod.splits)
  have ok: "manifest_ok h (cache w)" "synced h (cache w) (disk w)" "clock_ok h (disk w)"
    using assms(2) by (simp_all add: world_sound_def)
  note d = commit_durable [OF c ok assms(3,4)] and k = keeps_commit [OF c]
  show "disk_moves h {k} w w'"
    using d(1) k(2) w' commit_valid [OF c ok assms(4)] by (simp add: disk_moves_def)
  show "submitted w' = submitted w" by (simp add: w')
  show "fault_free (disk w') = fault_free (disk w)" using keepsD(3) [OF k(1)] by (simp add: w' fault_free_def)
  show "q = Inr () \<Longrightarrow> world_sound h accepts w'"
    using d(4,5) assms(2) by (simp add: world_sound_def w')
qed

lemma process_done_moves:
  "process_done cfg (pool_env h) futs e w = (q, e1, w1) \<Longrightarrow> world_sound h accepts w \<Longrightarrow>
     \<forall>ad\<in>snd ` set (inflight e). utf8_ok (payload_hash ad) \<Longrightarrow>
     disk_moves h (content_key ` snd ` set (inflight e)) w w1"
proof (induction futs arbitrary: e w)
  case (Cons f futs)
  let ?K = "content_key ` snd ` set (inflight e)"
  have rest: "disk_moves h ?K v w1"
    if "process_done cfg (pool_env h) futs e2 v = (q, e1, w1)" "inflight e2 = dict_pop f (inflight e)" "world_sound h accepts v"
    for e2 v
  proof -
    have "snd ` set (inflight e2) \<subseteq> snd ` set (inflight e)" using that(2) dict_pop_subset by fastforce
    then have "\<forall>ad\<in>snd ` set (inflight e2). utf8_ok (payload_hash ad)" "content_key ` snd ` set (inflight e2) \<subseteq> ?K"
      using Cons.prems(3) by blast+
    then show ?thesis using disk_moves_mono [OF Cons.IH [OF that(1,3)]] by simp
  qed
  have commit: "disk_moves h ?K w v \<and> (u = Inr () \<longrightarrow> world_sound h accepts v)"
    if "dict_get (inflight e) f = Some ad" "fut_result (pool_env h) f w = Inr r"
      "store_commit (pool_env h) (content_key ad) (payload_hash ad) r w = (u, v)" for ad r u v
  proof -
    have ad: "ad \<in> snd ` set (inflight e)" using dict_get_in [OF that(1)] by force
    note m = commit_moves [OF that(3) Cons.prems(2) fut_accepted [OF Cons.prems(2) that(2)]]
    show ?thesis using m(1,4) Cons.prems(3) ad disk_moves_mono [of h "{content_key ad}" w v ?K] by simp
  qed
  from Cons.prems(1) show ?case
  proof (cases rule: process_done_cases)
    case missing
    then show ?thesis by simp
  next
    case (committed ad r w2)
    from commit [OF committed(1-3)] have m: "disk_moves h ?K w w2" "world_sound h accepts w2" by simp_all
    from rest [OF committed(4) _ m(2)] have "disk_moves h ?K w2 w1" by simp
    with m(1) show ?thesis by (rule disk_moves_trans)
  next
    case (commit_fails ad r x)
    with commit show ?thesis by blast
  next
    case (routed ad exc e2 w2)
    note i = inert_reads [OF inert_route [OF routed(2)]]
    have "inflight e2 = dict_pop f (inflight e)" using route_keeps(2) [OF routed(2)] by simp
    moreover have "world_sound h accepts w2" using reads_sound [OF i, of h accepts] Cons.prems(2) by simp
    ultimately have "disk_moves h ?K w2 w1" by (rule rest [OF routed(3)])
    with reads_moves [OF i] show ?thesis by (rule disk_moves_trans)
  next
    case (stopped ad exc p e2)
    show ?thesis by (rule reads_moves [OF inert_reads [OF inert_route [OF stopped(2)]]])
  qed
qed simp

lemma iteration_moves:
  assumes "iteration cfg (pool_env h) e w = (q, e1, w1)" and "world_sound h accepts w"
    and "\<forall>ad\<in>set (pending e). utf8_ok (payload_hash ad)"
  shows "disk_moves h (content_key ` set (pending e)) w w1"
  using assms(1)
proof (cases rule: iteration_world)
  case quiet
  then show ?thesis by (rule reads_moves)
next
  case (completes futs e2 v u e3 w3)
  have "world_sound h accepts v" using assms(2) reads_sound [OF completes(1), of h accepts] by simp
  moreover have "\<forall>ad\<in>snd ` set (inflight e2). utf8_ok (payload_hash ad)" using completes(2) assms(3) by blast
  ultimately have "disk_moves h (content_key ` snd ` set (inflight e2)) v w3" by (rule process_done_moves [OF completes(3)])
  then have "disk_moves h (content_key ` set (pending e)) v w3"
    by (rule disk_moves_mono [OF _ image_mono [OF completes(2)]])
  from disk_moves_trans [OF disk_moves_trans [OF reads_moves [OF completes(1)] this] reads_moves [OF completes(4)]]
  show ?thesis .
qed

end

definition hashes_text :: "('p, 'r, 'acc, 'o) config \<Rightarrow> bool" where
  \<comment> \<open>payload hashes are text that encodes\<close>
  "hashes_text cfg \<longleftrightarrow> (\<forall>p ck ph. content_key_fn cfg p = Inr (ck, ph) \<longrightarrow> utf8_ok ph)"

definition untried :: "('p, 'r, 'acc, 'o) config \<Rightarrow> string \<Rightarrow> ('p, 'r, 'c) world \<Rightarrow> bool" where
  \<comment> \<open>no task of the key has been submitted\<close>
  "untried cfg k w \<longleftrightarrow> (\<forall>p\<in>snd ` set (submitted w). \<forall>x. content_key_fn cfg p \<noteq> Inr (k, x))"

definition keyed :: "('p, 'r, 'acc, 'o) config \<Rightarrow> 'p admitted \<Rightarrow> bool" where
  "keyed cfg ad \<longleftrightarrow> content_key_fn cfg (payload (item ad)) = Inr (content_key ad, payload_hash ad)"

definition waiting :: "'p engine \<Rightarrow> 'p admitted set" where
  \<comment> \<open>the items that run or wait for a retry\<close>
  "waiting e = (\<lambda>y. snd (snd y)) ` set (delayed e) \<union> snd ` set (inflight e)"

definition aside :: "('p, 'r, 'acc, 'o) config \<Rightarrow> string \<Rightarrow> string \<Rightarrow> 'p engine \<Rightarrow> bool" where
  \<comment> \<open>the key is neither running nor waiting for a retry, and no child can take it\<close>
  "aside cfg k x e \<longleftrightarrow>
     k \<in> dict_keys (live_map e) \<and>
     (\<forall>ad\<in>set (ready e). keyed cfg ad \<and> (content_key ad = k \<longrightarrow> payload_hash ad = x)) \<and>
     (\<forall>ad\<in>waiting e. keyed cfg ad \<and> content_key ad \<noteq> k)"

definition kept :: "'r hooks \<Rightarrow> ('r \<Rightarrow> bool) \<Rightarrow> string \<Rightarrow> string \<Rightarrow> 'r \<Rightarrow> ('p, 'r, 'c) world \<Rightarrow> bool" where
  \<comment> \<open>the store vouches for the key, and will say so\<close>
  "kept h accepts k x r w \<longleftrightarrow>
     world_sound h accepts w \<and> fault_free (disk w) \<and> vouched h (cache w) (disk w) k = Some (x, r)"

lemma reads_kept: "reads w w' \<Longrightarrow> kept h accepts k x r w' = kept h accepts k x r w"
  by (simp add: kept_def reads_sound [of w w'] reads_fault_free [of w w'] reads_vouched [of w w'])

lemma inert_untried: "inert w w' \<Longrightarrow> untried cfg k w' = untried cfg k w"
  by (simp add: inert_def untried_def)

lemma keyed_hash: "hashes_text cfg \<Longrightarrow> keyed cfg ad \<Longrightarrow> utf8_ok (payload_hash ad)"
  by (auto simp: hashes_text_def keyed_def)

section \<open>A key the store vouches for is never submitted\<close>

lemma dispatch_aside:
  "dispatch cfg (pool_env h) rest e w = (q, e1, w1) \<Longrightarrow> aside cfg k x (e\<lparr>ready := rest\<rparr>) \<Longrightarrow>
     kept h accepts k x r w \<Longrightarrow> untried cfg k w \<Longrightarrow>
     untried cfg k w1 \<and> (q = Inr () \<longrightarrow> aside cfg k x e1)"
proof (induction rest arbitrary: e w)
  case Nil
  then show ?case by simp
next
  case (Cons ad rest)
  show ?case
  proof (cases "length (inflight e) < max_workers cfg")
    case False
    then show ?thesis using Cons.prems by auto
  next
    case True
    obtain b w2 where h: "store_has (pool_env h) (content_key ad) (payload_hash ad) w = (b, w2)" by fastforce
    note rh = reads_has [OF h]
    have w2: "kept h accepts k x r w2" "untried cfg k w2"
      using rh Cons.prems(3,4) by (auto simp: untried_def reads_kept [of w w2])
    consider (raised) y where "b = Inl y" | (hit) "b = Inr True" | (miss) "b = Inr False"
      by (cases b) auto
    then show ?thesis
    proof cases
      case raised
      then show ?thesis using Cons.prems True h w2(2) by auto
    next
      case hit
      let ?e = "e\<lparr>resumed := resumed e + 1\<rparr>"
      have "dispatch cfg (pool_env h) rest ?e w2 = (q, e1, w1)" using Cons.prems(1) True h hit by simp
      moreover have "aside cfg k x (?e\<lparr>ready := rest\<rparr>)" using Cons.prems(2) by (simp add: aside_def waiting_def)
      ultimately show ?thesis using Cons.IH w2 by blast
    next
      case miss
      have ad: "keyed cfg ad" "content_key ad = k \<Longrightarrow> payload_hash ad = x"
        using Cons.prems(2) by (simp_all add: aside_def)
      have other: "content_key ad \<noteq> k"
      proof
        assume "content_key ad = k"
        with ad(2) have "store_has (pool_env h) (content_key ad) (payload_hash ad) w = (Inr True, w\<lparr>disk := advance (disk w)\<rparr>)"
          using Cons.prems(3) cached_has [of w h "\<lambda>_. r" k x] by (simp add: kept_def cached_def)
        with h miss show False by simp
      qed
      let ?f = "nat (attempts_total e)"
      obtain u w3 where s: "pool_submit (pool_env h) ?f (payload (item ad)) w2 = (u, w3)" by fastforce
      have "untried cfg k w3"
        using submit_tasks [OF s] w2(2) ad(1) other unfolding untried_def keyed_def by fastforce
      moreover have "kept h accepts k x r w3" using reads_kept [OF reads_submit [OF s]] w2(1) by blast
      moreover have "aside cfg k x (e\<lparr>attempts_total := attempts_total e + 1,
          inflight := dict_set ?f ad (inflight e), ready := rest\<rparr>)"
      proof -
        have "snd ` set (dict_set ?f ad (inflight e)) \<subseteq> insert ad (snd ` set (inflight e))"
          by (fastforce dest: dict_set_values)
        then have "waiting (e\<lparr>attempts_total := attempts_total e + 1, inflight := dict_set ?f ad (inflight e), ready := rest\<rparr>)
            \<subseteq> insert ad (waiting (e\<lparr>ready := ad # rest\<rparr>))"
          by (simp add: waiting_def) blast
        with Cons.prems(2) other ad(1) show ?thesis by (simp add: aside_def) blast
      qed
      ultimately show ?thesis
        using Cons.IH [of "e\<lparr>attempts_total := attempts_total e + 1, inflight := dict_set ?f ad (inflight e)\<rparr>" w3]
          Cons.prems(1) True h miss s by (cases u) (auto simp: Let_def)
    qed
  qed
qed

lemma aside_live:
  "aside cfg k x e \<Longrightarrow> ready e1 = ready e \<Longrightarrow> waiting e1 \<subseteq> waiting e \<Longrightarrow>
   dict_keys (live_map e) \<subseteq> dict_keys (live_map e1) \<Longrightarrow> aside cfg k x e1"
  unfolding aside_def by (simp only:) blast

lemma aside_grows: "grows e e1 \<Longrightarrow> aside cfg k x e \<Longrightarrow> aside cfg k x e1"
proof -
  assume "grows e e1" and a: "aside cfg k x e"
  then obtain lm where "e1 = e\<lparr>live_map := lm\<rparr>" "dict_keys (live_map e) \<subseteq> dict_keys lm" unfolding grows_def by blast
  then show ?thesis by (intro aside_live [OF a]) (simp_all add: waiting_def)
qed

lemma aside_pop:
  assumes "aside cfg k x e" and "dict_get (inflight e) f = Some ad"
  shows "aside cfg k x (e\<lparr>inflight := dict_pop f (inflight e)\<rparr>)" and "keyed cfg ad" and "content_key ad \<noteq> k"
proof -
  have "(f, ad) \<in> set (inflight e)" by (rule dict_get_in [OF assms(2)])
  then have "ad \<in> waiting e" by (force simp: waiting_def)
  with assms(1) show "keyed cfg ad" "content_key ad \<noteq> k" by (simp_all add: aside_def)
  have w: "waiting (e\<lparr>inflight := dict_pop f (inflight e)\<rparr>) \<subseteq> waiting e"
    using dict_pop_subset [of f "inflight e"] unfolding waiting_def by (simp add: image_mono le_supI2)
  show "aside cfg k x (e\<lparr>inflight := dict_pop f (inflight e)\<rparr>)"
    by (rule aside_live [OF assms(1) _ w]) simp_all
qed

lemma route_aside:
  assumes "route_exception cfg env ad exc e w = (Inr p, e1, w1)" and "aside cfg k x e"
    and "keyed cfg ad" and "content_key ad \<noteq> k"
  shows "aside cfg k x e1"
  using assms(1)
proof (cases rule: route_cases)
  case (split sp)
  from handle_split_Inr [OF split(3)] obtain children cads e2 where s:
    "admit_all cfg children (depth ad + 1) e = (Inr cads, e2)" "e1 = adopt ad cads e2" by metis
  from admit_all_Inr [OF s(1)] obtain lm where a: "e2 = e\<lparr>live_map := lm\<rparr>"
      "list_all2 (admitted_as cfg (depth ad + 1)) children cads"
      "dict_keys lm = dict_keys (live_map e) \<union> content_key ` set cads"
      "content_key ` set cads \<inter> dict_keys (live_map e) = {}" by blast
  have c: "keyed cfg c" "content_key c \<noteq> k" if "c \<in> set cads" for c
    using admitted_as_key [OF a(2) that] a(4) assms(2) that by (auto simp: keyed_def aside_def)
  have "ready e1 = ready e @ cads" "waiting e1 = waiting e" "dict_keys (live_map e1) = dict_keys lm"
    using s(2) a(1) by (simp_all add: adopt_def Let_def enqueue_fold waiting_def)
  then show ?thesis using assms(2) c a(3) by (auto simp: aside_def)
next
  case (split_fails sp y)
  then show ?thesis using aside_grows [OF handle_split_Inl] assms(2) by blast
next
  case fatal
  then show ?thesis using assms(2) by simp
next
  case transient
  from transient(4) show ?thesis
  proof (cases rule: retry_later_cases)
    case (fatal y)
    then show ?thesis using assms(2) by (simp add: count_failure_def aside_def waiting_def)
  next
    case (requeued due)
    then have "waiting e1 = insert ad (waiting e)" "ready e1 = ready e" "live_map e1 = live_map e"
      by (auto simp: requeue_def count_failure_def waiting_def heappush_set)
    then show ?thesis using assms(2-4) by (simp add: aside_def)
  qed
qed

definition shielded :: "('p, 'r, 'acc, 'o) config \<Rightarrow> 'r hooks \<Rightarrow> ('r \<Rightarrow> bool) \<Rightarrow> string \<Rightarrow> string \<Rightarrow> 'r \<Rightarrow>
    'p engine \<Rightarrow> ('p, 'r, 'c) world \<Rightarrow> bool" where
  "shielded cfg h accepts k x r e w \<longleftrightarrow> aside cfg k x e \<and> kept h accepts k x r w \<and> untried cfg k w"

lemma inert_kept: "inert w w' \<Longrightarrow> kept h accepts k x r w' = kept h accepts k x r w"
  by (rule reads_kept [OF inert_reads])

lemma shielded_inert:
  "shielded cfg h accepts k x r e w \<Longrightarrow> inert w w' \<Longrightarrow> aside cfg k x e1 \<Longrightarrow> shielded cfg h accepts k x r e1 w'"
  by (simp add: shielded_def inert_kept [of w w'] inert_untried [of w w'])

lemma promote_aside:
  assumes "promote_matured env e w = (e1, w1)" and "aside cfg k x e"
  shows "aside cfg k x e1"
proof -
  obtain now w2 where m: "monotonic env w = (now, w2)" by fastforce
  obtain ms q where t: "take_matured now (delayed e) = (ms, q)" by fastforce
  from take_matured_split [OF t] obtain p where p: "delayed e = p @ q" "ms = map (\<lambda>x. snd (snd x)) p" by blast
  have "e1 = e\<lparr>delayed := q, ready := ready e @ ms\<rparr>" using assms(1) m t by (simp add: promote_matured_def)
  with assms(2) p show ?thesis by (auto simp: aside_def waiting_def)
qed

context payload_codec
begin

lemma commit_kept:
  assumes "store_commit (pool_env h) j y r' w = (Inr (), w1)" and "fut_result (pool_env h) f w = Inr r'"
    and "utf8_ok y" and "j \<noteq> k" and "kept h accepts k x r w"
  shows "kept h accepts k x r w1"
proof -
  have ws: "world_sound h accepts w" using assms(5) by (simp add: kept_def)
  note m = commit_moves [OF assms(1) ws fut_accepted [OF ws assms(2)] assms(3)]
  have dv: "durable h (fingerprint (cache v)) (disk v) k = vouched h (cache v) (disk v) k" if "world_sound h accepts v"
    for v :: "('a, 'r, 'b) world"
    using that by (intro synced_durable) (simp_all add: world_sound_def)
  have ws1: "world_sound h accepts w1" using m(4) by simp
  have "vouched h (cache w1) (disk w1) k = vouched h (cache w) (disk w) k"
    using m(1) assms(4) dv [OF ws] dv [OF ws1] by (simp add: disk_moves_def)
  with ws1 m(3) assms(5) show ?thesis by (simp add: kept_def)
qed

lemma process_done_shielded:
  "process_done cfg (pool_env h) futs e w = (q, e1, w1) \<Longrightarrow> shielded cfg h accepts k x r e w \<Longrightarrow> hashes_text cfg \<Longrightarrow>
     untried cfg k w1 \<and> (q = Inr () \<longrightarrow> shielded cfg h accepts k x r e1 w1)"
proof (induction futs arbitrary: e w)
  case (Cons f futs)
  have s: "aside cfg k x e" "kept h accepts k x r w" "untried cfg k w" using Cons.prems(2) by (simp_all add: shielded_def)
  have tasks: "submitted v = submitted w \<and> (u = Inr () \<longrightarrow> kept h accepts k x r v)"
    if g: "dict_get (inflight e) f = Some ad" "fut_result (pool_env h) f w = Inr r'"
      "store_commit (pool_env h) (content_key ad) (payload_hash ad) r' w = (u, v)" for ad r' u v
  proof -
    note ad = aside_pop [OF s(1) g(1)]
    have h: "utf8_ok (payload_hash ad)" using keyed_hash Cons.prems(3) ad(2) by blast
    have "world_sound h accepts w" using s(2) by (simp add: kept_def)
    from commit_moves(2) [OF g(3) this fut_accepted [OF this g(2)] h] commit_kept [OF _ g(2) h ad(3) s(2)] g(3)
    show ?thesis by auto
  qed
  from Cons.prems(1) show ?case
  proof (cases rule: process_done_cases)
    case (missing y)
    with s(3) show ?thesis by simp
  next
    case (committed ad r' w2)
    from tasks [OF committed(1-3)] s(3) have "kept h accepts k x r w2" "untried cfg k w2"
      by (simp_all add: untried_def)
    moreover have "aside cfg k x (e\<lparr>inflight := dict_pop f (inflight e), committed := committed e + 1\<rparr>)"
      using aside_pop(1) [OF s(1) committed(1)] by (simp add: aside_def waiting_def)
    ultimately show ?thesis using Cons.IH [OF committed(4)] Cons.prems(3) by (simp add: shielded_def)
  next
    case (commit_fails ad r' y)
    with tasks [OF commit_fails(1-3)] s(3) show ?thesis by (simp add: untried_def)
  next
    case (routed ad exc e2 w2)
    note ad = aside_pop [OF s(1) routed(1)]
    have "shielded cfg h accepts k x r e2 w2"
      by (rule shielded_inert [OF Cons.prems(2) inert_route [OF routed(2)] route_aside [OF routed(2) ad]])
    with Cons.IH [OF routed(3)] Cons.prems(3) show ?thesis by blast
  next
    case (stopped ad exc p e2)
    note ad = aside_pop [OF s(1) stopped(1)] and i = inert_route [OF stopped(2)]
    have "shielded cfg h accepts k x r e1 w1" if "q = Inr ()"
    proof -
      from stopped(3) that obtain y where y: "p = Inr (Some y)" "e1 = e2\<lparr>fatal_exc := Some y\<rparr>" by blast
      have "aside cfg k x e2" by (rule route_aside [OF stopped(2) [unfolded y(1)] ad])
      then have "aside cfg k x e1" by (simp add: y(2) aside_def waiting_def)
      with Cons.prems(2) i show ?thesis by (rule shielded_inert)
    qed
    with s(3) inert_untried [OF i] show ?thesis by blast
  qed
qed (simp add: shielded_def)

lemma iteration_shielded:
  assumes "iteration cfg (pool_env h) e w = (q, e1, w1)" and "shielded cfg h accepts k x r e w" and "hashes_text cfg"
  shows "untried cfg k w1 \<and> (q = Inr () \<longrightarrow> shielded cfg h accepts k x r e1 w1)"
proof -
  have s: "aside cfg k x (e\<lparr>ready := ready e\<rparr>)" "kept h accepts k x r w" "untried cfg k w"
    using assms(2) by (simp_all add: shielded_def)
  obtain p e2 w2 where d: "dispatch cfg (pool_env h) (ready e) e w = (p, e2, w2)" by (metis surj_pair)
  note da = dispatch_aside [OF d s]
  have k2: "kept h accepts k x r w2" using reads_kept [OF conjunct1 [OF dispatch_reads [OF d]], of h accepts k x r] s(2) by simp
  show ?thesis
  proof (cases p)
    case (Inl y)
    then show ?thesis using assms(1) d da by (auto simp: iteration_def)
  next
    case (Inr u)
    then have sh: "shielded cfg h accepts k x r e2 w2" using da k2 by (simp add: shielded_def)
    obtain e4 w4 where dz: "doze (pool_env h) e2 w2 = (e4, w4)" by fastforce
    have "iteration cfg (pool_env h) e w =
        (if fatal_exc e2 = None \<and> inflight e2 \<noteq> [] then await cfg (pool_env h) e2 w2
         else if fatal_exc e2 = None \<and> delayed e2 \<noteq> [] then (Inr (), e4, w4) else (Inr (), e2, w2))"
      by (simp add: iteration_def d Inr dz)
    then consider "q = Inr ()" "e1 = e2" "w1 = w2" | "await cfg (pool_env h) e2 w2 = (q, e1, w1)"
      | "q = Inr ()" "doze (pool_env h) e2 w2 = (e1, w1)"
      unfolding assms(1) dz by (metis Pair_inject)
    then show ?thesis
    proof cases
      case 1
      with sh show ?thesis by (simp add: shielded_def)
    next
      case 3
      obtain v where v: "promote_matured (pool_env h) e2 v = (e1, w1)"
        using 3(2) by (auto simp: doze_def Let_def split: prod.splits)
      have "aside cfg k x e1" using promote_aside [OF v, of cfg k x] sh by (simp add: shielded_def)
      with shielded_inert [OF sh inert_doze [OF 3(2)]] show ?thesis by (simp add: shielded_def)
    next
      case 2
      obtain tm v where t: "wait_timeout (pool_env h) e2 w2 = (tm, v)" by fastforce
      obtain dn v2 where n: "pool_wait (pool_env h) (map fst (inflight e2)) tm v = (dn, v2)" by fastforce
      obtain u e3 w3 where pd: "process_done cfg (pool_env h) dn e2 v2 = (u, e3, w3)" by (metis surj_pair)
      have i: "inert w2 v2" by (rule inert_trans [OF inert_timeout [OF t] inert_wait [OF n]])
      have "shielded cfg h accepts k x r e2 v2"
        by (rule shielded_inert [OF sh i]) (use sh in \<open>simp add: shielded_def\<close>)
      note pd3 = process_done_shielded [OF pd this assms(3)]
      from 2 t n pd consider (raised) y where "u = Inl y" "q = Inl y" "w1 = w3"
        | (fine) "u = Inr ()" "promote_matured (pool_env h) e3 w3 = (e1, w1)"
        by (auto simp: await_def split: sum.splits prod.splits)
      then show ?thesis
      proof cases
        case raised
        with pd3 show ?thesis by simp
      next
        case fine
        then have s3: "shielded cfg h accepts k x r e3 w3" using pd3 by simp
        then have "aside cfg k x e1" using promote_aside [OF fine(2), of cfg k x] by (simp add: shielded_def)
        with shielded_inert [OF s3 inert_promote [OF fine(2)]] show ?thesis by (simp add: shielded_def)
      qed
    qed
  qed
qed

lemma loop_shielded:
  assumes "loop_steps cfg (pool_env h) (e, w) (e1, w1)" and "shielded cfg h accepts k x r e w" and "hashes_text cfg"
  shows "shielded cfg h accepts k x r e1 w1"
  using assms(1)
proof (induction rule: rtranclp_induct2)
  case (step e1 w1 e2 w2)
  from step(2) have "iteration cfg (pool_env h) e1 w1 = (Inr (), e2, w2)" by (rule loop_stepE)
  from iteration_shielded [OF this step(3) assms(3)] show ?case by simp
qed (rule assms(2))

end

section \<open>After the loop\<close>

lemma world_load_tasks: "world_load h kx w = (q, w') \<Longrightarrow> submitted w' = submitted w"
  by (auto simp: world_load_def on_disk_def split: prod.splits)

lemma load_seq_tasks: "load_seq (world_load h) ks w = (q, w') \<Longrightarrow> submitted w' = submitted w"
proof (induction ks arbitrary: w q w')
  case (Cons kx ks)
  obtain x v where l: "world_load h kx w = (x, v)" by fastforce
  obtain y v' where m: "load_seq (world_load h) ks v = (y, v')" by fastforce
  have "w' = v \<or> w' = v'" using Cons.prems l m by (auto split: sum.splits)
  then show ?case using Cons.IH [OF m] world_load_tasks [OF l] by auto
qed simp

lemma fold_results_tasks: "fold_results f a (map (world_load h) ks) w = (q, w') \<Longrightarrow> submitted w' = submitted w"
proof (induction ks arbitrary: w a)
  case (Cons kx ks)
  obtain x v where l: "world_load h kx w = (x, v)" by fastforce
  from Cons.prems l consider "w' = v" | b where "fold_results f b (map (world_load h) ks) v = (q, w')"
    by (auto split: sum.splits)
  then show ?case using Cons.IH world_load_tasks [OF l] by cases auto
qed simp

lemma stitch_tasks:
  fixes cfg :: "('p, 'r, 'acc, 'o) config"
  assumes "stitch cfg (pool_env h) d w = (x, v)"
  shows "submitted v = submitted w"
proof -
  obtain y u where l: "load_seq (world_load h) (sort d) w = (y, u)" by fastforce
  have env: "store_load_all (pool_env h) d w = load_seq (world_load h) (sort d) w"
    "store_iter (pool_env h) d = map (world_load h) (sort d)" by (simp_all add: pool_env_def load_all_seq)
  from assms consider "v = w" | "v = u"
    | f :: "'acc \<Rightarrow> 'r \<Rightarrow> 'acc result" and a z where "fold_results f a (map (world_load h) (sort d)) w = (z, v)"
    by (auto simp: stitch_def env l split: option.splits prod.splits sum.splits)
  then show ?thesis using load_seq_tasks [OF l] fold_results_tasks [of _ _ h "sort d" w _ v] by cases auto
qed

lemma conclude_tasks:
  assumes "conclude cfg (pool_env h) e w = (q, w')"
  shows "submitted w' = submitted w"
proof -
  have cl: "store_cleanup (pool_env h) v = (x, v') \<Longrightarrow> submitted v' = submitted v" for v x v'
    by (auto simp: pool_env_def on_disk_def split: prod.splits)
  from assms consider "w' = w" | d x where "stitch cfg (pool_env h) d w = (x, w')"
    | d x v y where "stitch cfg (pool_env h) d w = (x, v)" "store_cleanup (pool_env h) v = (y, w')"
    by (auto simp: conclude_def split: option.splits sum.splits prod.splits if_splits)
  then show ?thesis using stitch_tasks cl by cases fastforce+
qed

lemma finally_tasks: "finally_block (pool_env h) w = (q, w') \<Longrightarrow> submitted w' = submitted w"
proof -
  have "run_teardowns (map (\<lambda>c v. (f c, v)) cs) u = (q, u') \<Longrightarrow> u' = u" for f cs and u u' :: "('a, 'b, 'c) world"
    by (induction cs) (auto split: sum.splits if_splits)
  then show "finally_block (pool_env h) w = (q, w') \<Longrightarrow> submitted w' = submitted w"
    by (fastforce simp: finally_block_def pool_env_def teardown_calls_def Let_def split: option.splits)
qed

lemma cancel_tasks: "submitted (cancel_inflight (pool_env h) e w) = submitted w"
proof -
  have "submitted (fold (fut_cancel (pool_env h)) fs v) = submitted v" for fs v
    by (induction fs arbitrary: v) (simp_all add: pool_env_def)
  then show ?thesis by (simp add: cancel_inflight_def)
qed

lemma roots_queued:
  assumes "admit_roots cfg items initial_engine = (Inr (), e)"
  obtains ls where "loop_inv cfg items ls [] e" and "mset (ready e) = mset ls" and "waiting e = {}" and "fatal_exc e = None"
proof -
  from admit_roots_inv [OF assms initial_inv] obtain ls where i: "loop_inv cfg items ls [] e" and f: "fatal_exc e = None"
    by (auto simp: initial_engine_def)
  note q = roots_queues [OF assms, unfolded initial_engine_def, simplified]
  have "pending e = ready e" using q by (simp add: pending_def)
  then have "length ls = length (ready e)" "mset (ready e) \<subseteq># mset ls"
    using i q by (simp_all add: loop_inv_def count_inv_def keys_inv_def)
  then have "mset (ready e) = mset ls"
    by (metis size_mset subset_mset.le_imp_less_or_eq mset_subset_size order_less_irrefl)
  with that i q f show ?thesis by (simp add: waiting_def)
qed

lemma roots_aside:
  assumes "admit_roots cfg items initial_engine = (Inr (), e)" and "ad \<in> set (ready e)"
  shows "aside cfg (content_key ad) (payload_hash ad) e" and "keyed cfg ad"
proof -
  from roots_queued [OF assms(1)] obtain ls where i: "loop_inv cfg items ls [] e" and m: "mset (ready e) = mset ls"
    and w: "waiting e = {}" by blast
  have k: "frontier cfg items ls" "distinct (map content_key ls)" "content_key ` set ls \<subseteq> dict_keys (live_map e)"
    using i by (simp_all add: loop_inv_def keys_inv_def)
  have s: "set (ready e) = set ls" using m by (metis set_mset_mset)
  have keyed: "keyed cfg x" if "x \<in> set (ready e)" for x using frontier_leaf(1) [OF k(1)] that s by (simp add: keyed_def)
  then show "keyed cfg ad" using assms(2) by blast
  have "x = ad" if "x \<in> set (ready e)" "content_key x = content_key ad" for x
    using k(2) that assms(2) unfolding s distinct_map inj_on_def by blast
  moreover have "content_key ad \<in> dict_keys (live_map e)" using k(3) assms(2) unfolding s by blast
  ultimately show "aside cfg (content_key ad) (payload_hash ad) e" using keyed unfolding aside_def w by blast
qed

context payload_codec
begin

lemma run_untried:
  assumes "run_checkpointed cfg (pool_env h) items w = Some (out, w')"
    and "admit_roots cfg items initial_engine = (Inr (), e0)" and "ad \<in> set (ready e0)" and "hashes_text cfg"
    and "kept h accepts (content_key ad) (payload_hash ad) r w" and "untried cfg (content_key ad) w"
  shows "untried cfg (content_key ad) w'"
proof (cases "validate_mode cfg")
  case (Inl x)
  with assms(1,6) show ?thesis by (simp add: run_checkpointed_def)
next
  case (Inr u)
  have sh: "shielded cfg h accepts (content_key ad) (payload_hash ad) r e0 w"
    using roots_aside(1) [OF assms(2,3)] assms(5,6) by (simp add: shielded_def)
  obtain l3 where "run_loop cfg (pool_env h) e0 w = Some l3"
    using assms(1) by (cases "run_loop cfg (pool_env h) e0 w") (simp_all add: run_checkpointed_def Inr assms(2))
  then obtain q e1 w1 where l: "run_loop cfg (pool_env h) e0 w = Some (q, e1, w1)" by (cases l3) simp
  have u1: "untried cfg (content_key ad) w1"
  proof (cases q)
    case (Inl x)
    with run_loop_outcome [OF l] obtain e2 w2 where "loop_steps cfg (pool_env h) (e0, w) (e2, w2)"
        "iteration cfg (pool_env h) e2 w2 = (Inl x, e1, w1)" by (auto simp: loop_outcome_def)
    with iteration_shielded [OF _ loop_shielded [OF _ sh assms(4)] assms(4)] show ?thesis by blast
  next
    case (Inr v)
    with run_loop_outcome [OF l] have "loop_steps cfg (pool_env h) (e0, w) (e1, w1)" by (simp add: loop_outcome_def)
    from loop_shielded [OF this sh assms(4)] show ?thesis by (simp add: shielded_def)
  qed
  let ?w2 = "case q of Inl x \<Rightarrow> w1 | Inr u \<Rightarrow> if fatal_exc e1 = None then w1 else cancel_inflight (pool_env h) e1 w1"
  have "submitted ?w2 = submitted w1" by (simp add: cancel_tasks split: sum.split)
  moreover obtain f w3 where f: "finally_block (pool_env h) ?w2 = (f, w3)" by fastforce
  moreover have "submitted w' = submitted w3"
  proof -
    have "(out, w') = (case f of Inl x \<Rightarrow> (Inl x, w3)
        | Inr u \<Rightarrow> (case q of Inl x \<Rightarrow> (Inl x, w3) | Inr u \<Rightarrow> conclude cfg (pool_env h) e1 w3))"
      using assms(1) by (cases f) (simp_all add: run_checkpointed_def Inr assms(2) l f Let_def)
    then consider "w' = w3" | o1 where "conclude cfg (pool_env h) e1 w3 = (o1, w')"
      by (cases f; cases q) (simp_all, metis)
    then show ?thesis using conclude_tasks by cases auto
  qed
  ultimately show ?thesis using u1 finally_tasks [OF f] by (simp add: untried_def)
qed

end

section \<open>A run that is killed\<close>

context payload_codec
begin

lemma leaf_survives:
  assumes "admit_roots cfg items initial_engine = (Inr (), e0)"
    and "loop_steps cfg (pool_env h) (e0, w) (e1, w1)"
    and "iteration cfg (pool_env h) e1 w1 = (q, e2, w2)" and "fatal_exc e1 = None"
    and "world_sound h accepts w" and "hashes_text cfg"
  obtains ls where "loop_inv cfg items ls [] e1"
    and "disk_valid h (fingerprint (cache w)) (disk w2)"
    and "\<And>ad. ad \<in> set ls \<Longrightarrow> ad \<notin> set (pending e1) \<Longrightarrow>
        \<exists>r. vouched h (cache w1) (disk w1) (content_key ad) = Some (payload_hash ad, r) \<and>
            durable h (fingerprint (cache w)) (disk w2) (content_key ad) = Some (payload_hash ad, r)"
proof -
  have hk: "result_store.hashes_ok utf8_ok cfg"
    using assms(6) by (simp add: result_store.hashes_ok_def [OF pool_store] hashes_text_def)
  from result_store.loop_served [OF pool_store hk assms(2) result_store.roots_served [OF pool_store assms(1,5)]]
  obtain ls where li: "loop_inv cfg items ls [] e1" and lv: "result_store.leaves_served (world_serves h) ls (pending e1) w1"
    and ws: "world_sound h accepts w1"
    by (rule result_store.leaves_servedE [OF pool_store]) (rule assms(4))
  have k: "frontier cfg items ls" "distinct (map content_key ls)" "mset (pending e1) \<subseteq># mset ls"
    using li by (simp_all add: loop_inv_def keys_inv_def)
  have sub: "set (pending e1) \<subseteq> set ls" using set_mset_mono [OF k(3)] by simp
  have fp: "fingerprint (cache w1) = fingerprint (cache w)" by (rule loop_fingerprint [OF assms(2)])
  have "\<forall>ad\<in>set (pending e1). utf8_ok (payload_hash ad)"
    using sub frontier_leaf(1) [OF k(1)] assms(6) unfolding hashes_text_def by blast
  from iteration_moves [OF assms(3) ws this]
  have mv: "disk_moves h (content_key ` set (pending e1)) w1 w2" .
  have "disk_valid h (fingerprint (cache w)) (disk w2)"
    using mv sound_valid [OF ws] by (simp add: disk_moves_def fp)
  moreover have "\<exists>r. vouched h (cache w1) (disk w1) (content_key ad) = Some (payload_hash ad, r) \<and>
        durable h (fingerprint (cache w)) (disk w2) (content_key ad) = Some (payload_hash ad, r)"
    if ad: "ad \<in> set ls" "ad \<notin> set (pending e1)" for ad
  proof -
    from lv ad obtain r where r: "vouched h (cache w1) (disk w1) (content_key ad) = Some (payload_hash ad, r)"
      by (auto simp: result_store.leaves_served_def [OF pool_store] world_serves_def)
    have "content_key ad \<notin> content_key ` set (pending e1)"
      using k(2) ad sub unfolding distinct_map inj_on_def by blast
    then have "durable h (fingerprint (cache w)) (disk w2) (content_key ad) = durable h (fingerprint (cache w)) (disk w1) (content_key ad)"
      using mv by (simp add: disk_moves_def fp)
    also have "\<dots> = vouched h (cache w1) (disk w1) (content_key ad)"
      using synced_durable ws fp by (metis world_sound_def)
    finally show ?thesis using r by simp
  qed
  ultimately show ?thesis using that [OF li] by blast
qed

lemma same_files:
  assumes "file_at t = file_at s"
  shows "durable h fp t k = durable h fp s k" and "disk_valid h fp t = disk_valid h fp s"
  by (rule durable_cong [OF disk_entries_keeps payload_of_same]) (simp_all add: assms disk_valid_file [of t s])

lemma killed_run:
  assumes "admit_roots cfg items initial_engine = (Inr (), e0)"
    and "loop_steps cfg (pool_env h) (e0, w) (e1, w1)" and "fatal_exc e1 = None"
    and "iteration cfg (pool_env h) e1 w1 = (q, e2, w2)"
    and "world_sound h accepts w" and "hashes_text cfg" and "fingerprint (cache w) \<noteq> []"
    and "file_at t = file_at (disk w2)" and "fault_free t"
  shows "\<exists>ls st t1. frontier cfg items ls \<and> terminal_keys e1 = content_key ` set ls \<and>
     int (length ls) = resumed e1 + committed e1 + int (length (pending e1)) \<and>
     open_store h (Some True) (fingerprint (cache w)) t = (Inr st, t1) \<and>
     (\<forall>ad\<in>set ls. ad \<in> set (pending e1) \<or> is_tmp_name (content_key ad @ suffix h) \<or>
        (\<exists>r. vouched h (cache w1) (disk w1) (content_key ad) = Some (payload_hash ad, r) \<and>
             fst (load h st (content_key ad) (payload_hash ad) t1) = Inr r))"
proof -
  from leaf_survives [OF assms(1,2,4,3,5,6)] obtain ls where li: "loop_inv cfg items ls [] e1"
    and dv: "disk_valid h (fingerprint (cache w)) (disk w2)"
    and lv: "\<And>ad. ad \<in> set ls \<Longrightarrow> ad \<notin> set (pending e1) \<Longrightarrow>
        \<exists>r. vouched h (cache w1) (disk w1) (content_key ad) = Some (payload_hash ad, r) \<and>
            durable h (fingerprint (cache w)) (disk w2) (content_key ad) = Some (payload_hash ad, r)" by blast
  note same = same_files [OF assms(8)]
  have "disk_valid h (fingerprint (cache w)) t" using dv same(2) by simp
  from reopen_sound [OF this assms(9,7)] obtain st t1
    where o: "open_store h (Some True) (fingerprint (cache w)) t = (Inr st, t1)" "fault_free t1"
      and vo: "\<And>j. \<not> is_tmp_name (j @ suffix h) \<Longrightarrow> vouched h st t1 j = durable h (fingerprint (cache w)) t j" by blast
  have "\<exists>r. vouched h (cache w1) (disk w1) (content_key ad) = Some (payload_hash ad, r) \<and>
      fst (load h st (content_key ad) (payload_hash ad) t1) = Inr r"
    if "ad \<in> set ls" "ad \<notin> set (pending e1)" "\<not> is_tmp_name (content_key ad @ suffix h)" for ad
  proof -
    from lv [OF that(1,2)] obtain r where r: "vouched h (cache w1) (disk w1) (content_key ad) = Some (payload_hash ad, r)"
        "durable h (fingerprint (cache w)) (disk w2) (content_key ad) = Some (payload_hash ad, r)" by blast
    then have "vouched h st t1 (content_key ad) = Some (payload_hash ad, r)" using vo that(3) same(1) by simp
    from load_hit [OF o(2) this] r(1) show ?thesis by simp
  qed
  moreover have "frontier cfg items ls" "terminal_keys e1 = content_key ` set ls"
    "int (length ls) = resumed e1 + committed e1 + int (length (pending e1))"
    using li by (simp_all add: loop_inv_def keys_inv_def count_inv_def)
  ultimately show ?thesis using o(1) by blast
qed

lemma crashed_run:
  assumes "admit_roots cfg items initial_engine = (Inr (), e0)" and "ad \<in> set (ready e0)"
    and "loop_steps cfg (pool_env h) (e0, w) (e1, w1)" and "fatal_exc e1 = None"
    and "iteration cfg (pool_env h) e1 w1 = (q, e2, w2)"
    and "world_sound h accepts w" and "hashes_text cfg" and "fingerprint (cache w) \<noteq> []"
    and "dict_get (terminal_hash e1) (content_key ad) = Some (payload_hash ad)"
    and "content_key ad \<notin> content_key ` set (pending e1)" and "\<not> is_tmp_name (content_key ad @ suffix h)"
    and "file_at t = file_at (disk w2)" and "fault_free t"
    and "open_store h (Some True) (fingerprint (cache w)) t = (Inr (cache u), disk u)"
    and "clock_ok h t" and "\<forall>n p c r. execute u n p c = Inr r \<longrightarrow> accepts r"
    and "submitted u = []" and "run_checkpointed cfg (pool_env h) items u = Some (out, u')"
  shows "(\<exists>r. vouched h (cache w1) (disk w1) (content_key ad) = Some (payload_hash ad, r) \<and>
        fst (load h (cache u) (content_key ad) (payload_hash ad) (disk u)) = Inr r) \<and>
     payload (item ad) \<notin> snd ` set (submitted u')"
proof -
  from leaf_survives [OF assms(1,3,5,4,6,7)] obtain ls where li: "loop_inv cfg items ls [] e1"
    and dv: "disk_valid h (fingerprint (cache w)) (disk w2)"
    and lv: "\<And>ad. ad \<in> set ls \<Longrightarrow> ad \<notin> set (pending e1) \<Longrightarrow>
        \<exists>r. vouched h (cache w1) (disk w1) (content_key ad) = Some (payload_hash ad, r) \<and>
            durable h (fingerprint (cache w)) (disk w2) (content_key ad) = Some (payload_hash ad, r)" by blast
  have "content_key ad \<in> dict_keys (terminal_hash e1)" using assms(9) dict_get_None_iff [of "terminal_hash e1" "content_key ad"] by simp
  moreover have k: "dict_keys (terminal_hash e1) = content_key ` set ls"
    "\<forall>x\<in>set ls. dict_get (terminal_hash e1) (content_key x) = Some (payload_hash x)"
    using li by (simp_all add: loop_inv_def keys_inv_def)
  ultimately obtain l where l: "l \<in> set ls" "content_key l = content_key ad" by (metis imageE)
  with k(2) assms(9) have "payload_hash l = payload_hash ad" by (metis option.inject)
  moreover have "l \<notin> set (pending e1)" using l(2) assms(10) by (metis imageI)
  moreover note l
  ultimately obtain r where r: "vouched h (cache w1) (disk w1) (content_key ad) = Some (payload_hash ad, r)"
      "durable h (fingerprint (cache w)) (disk w2) (content_key ad) = Some (payload_hash ad, r)" using lv by metis
  note same = same_files [OF assms(12)]
  have "disk_valid h (fingerprint (cache w)) t" using dv same(2) by simp
  from reopen_sound [OF this assms(13,8)] assms(14) have o: "fault_free (disk u)" "manifest_ok h (cache u)" "synced h (cache u) (disk u)"
    and vo: "\<And>j. \<not> is_tmp_name (j @ suffix h) \<Longrightarrow> vouched h (cache u) (disk u) j = durable h (fingerprint (cache w)) t j"
    by auto
  have vu: "vouched h (cache u) (disk u) (content_key ad) = Some (payload_hash ad, r)"
    using vo assms(11) r(2) same(1) by simp
  have "kept h accepts (content_key ad) (payload_hash ad) r u"
    using o vu assms(15,16) open_clock [OF assms(14)] by (simp add: kept_def world_sound_def)
  from run_untried [OF assms(18,1,2,7) this] assms(17)
  have "untried cfg (content_key ad) u'" by (simp add: untried_def)
  then have "payload (item ad) \<notin> snd ` set (submitted u')"
    using roots_aside(2) [OF assms(1,2)] unfolding untried_def keyed_def by blast
  moreover have "fst (load h (cache u) (content_key ad) (payload_hash ad) (disk u)) = Inr r"
    using load_hit [OF o(1) vu] by simp
  ultimately show ?thesis using r(1) by blast
qed

end

end
