(* ===== verification/Locking.thy ===== *)
theory Locking
  imports Os_Files Complex_Main
begin

text \<open>
  The run-scope lock of \<open>src/resumable_batch/locking.py\<close>. The kernel keeps, for the lockfile's
  inode, its content, the open file descriptions and the one that holds the lock; a step of
  another process is an event on a description that is not this process's, and any number of
  them happens before each call this process makes. Which calls fail, how time passes and
  whether a signal interrupts a sleep are oracles indexed by a tick. The lockfile is never
  unlinked, which is what the module asks for by keeping it outside the cache tree.
\<close>

section \<open>The kernel's side of one lockfile\<close>

record kernel =
  content :: "string option" \<comment> \<open>\<open>None\<close>: the file does not exist\<close>
  descs :: "nat \<rightharpoonup> nat" \<comment> \<open>open file descriptions, with their process\<close>
  owner :: "nat option"
  next_desc :: nat

definition k_open :: "nat \<Rightarrow> kernel \<Rightarrow> nat result \<times> kernel" where
  "k_open p k =
     (Inr (next_desc k), k\<lparr>content := Some (case content k of None \<Rightarrow> [] | Some t \<Rightarrow> t),
        descs := (descs k)(next_desc k \<mapsto> p), next_desc := Suc (next_desc k)\<rparr>)"

definition k_close :: "nat \<Rightarrow> kernel \<Rightarrow> unit result \<times> kernel" where
  \<comment> \<open>closing a description gives up its lock\<close>
  "k_close d k =
     (Inr (), k\<lparr>descs := (descs k)(d := None), owner := if owner k = Some d then None else owner k\<rparr>)"

datatype lock_class = PosixFlockLock | WindowsLock

definition k_lock :: "lock_class \<Rightarrow> nat \<Rightarrow> kernel \<Rightarrow> unit result \<times> kernel" where
  \<comment> \<open>\<open>flock(LOCK_EX | LOCK_NB)\<close>, which a holder may repeat, or \<open>locking(LK_NBLCK)\<close>, which it may not\<close>
  "k_lock c d k =
     (if descs k d \<noteq> None \<and> (owner k = None \<or> c = PosixFlockLock \<and> owner k = Some d)
      then (Inr (), k\<lparr>owner := Some d\<rparr>) else (Inl os_error, k))"

definition k_unlock :: "lock_class \<Rightarrow> nat \<Rightarrow> kernel \<Rightarrow> unit result \<times> kernel" where
  \<comment> \<open>\<open>flock(LOCK_UN)\<close> of a description without the lock does nothing, \<open>locking(LK_UNLCK)\<close> fails\<close>
  "k_unlock c d k =
     (if owner k = Some d then (Inr (), k\<lparr>owner := None\<rparr>)
      else if c = PosixFlockLock \<and> descs k d \<noteq> None then (Inr (), k)
      else (Inl os_error, k))"

definition k_die :: "nat \<Rightarrow> kernel \<Rightarrow> kernel" where
  \<comment> \<open>the process ends: the kernel closes its descriptions\<close>
  "k_die p k =
     k\<lparr>descs := (\<lambda>d. if descs k d = Some p then None else descs k d),
       owner := (case owner k of None \<Rightarrow> None | Some d \<Rightarrow> if descs k d = Some p then None else Some d)\<rparr>"

definition k_truncate :: "kernel \<Rightarrow> unit result \<times> kernel" where
  "k_truncate k = (Inr (), k\<lparr>content := Some []\<rparr>)"

definition k_write :: "string \<Rightarrow> kernel \<Rightarrow> unit result \<times> kernel" where
  \<comment> \<open>at offset 0\<close>
  "k_write t k =
     (Inr (), k\<lparr>content := Some (t @ drop (length t) (case content k of None \<Rightarrow> [] | Some u \<Rightarrow> u))\<rparr>)"

definition k_read :: "lock_class \<Rightarrow> kernel \<Rightarrow> string result \<times> kernel" where
  \<comment> \<open>\<open>read_text\<close> opens the file anew. A lock of \<open>flock\<close> is advisory; one of \<open>locking\<close> is mandatory:
    while any handle has it, the first byte cannot be read through another\<close>
  "k_read c k =
     (case content k of
        None \<Rightarrow> (Inl os_error, k)
      | Some t \<Rightarrow> (if c = WindowsLock \<and> owner k \<noteq> None then (Inl os_error, k) else (Inr t, k)))"

section \<open>What the other processes do\<close>

datatype event =
  Opens nat | Locks lock_class nat | Unlocks lock_class nat | Closes nat | Dies nat | Truncates nat | Writes nat string

primrec foreign :: "nat \<Rightarrow> kernel \<Rightarrow> event \<Rightarrow> bool" where
  \<comment> \<open>a step of a process other than \<open>p\<close>\<close>
  "foreign p k (Opens q) = (q \<noteq> p)"
| "foreign p k (Locks c d) = (descs k d \<noteq> Some p)"
| "foreign p k (Unlocks c d) = (descs k d \<noteq> Some p)"
| "foreign p k (Closes d) = (descs k d \<noteq> Some p)"
| "foreign p k (Dies q) = (q \<noteq> p)"
| "foreign p k (Truncates d) = (descs k d \<noteq> Some p)"
| "foreign p k (Writes d t) = (descs k d \<noteq> Some p)"

primrec happen :: "event \<Rightarrow> kernel \<Rightarrow> kernel" where
  "happen (Opens q) k = snd (k_open q k)"
| "happen (Locks c d) k = snd (k_lock c d k)"
| "happen (Unlocks c d) k = snd (k_unlock c d k)"
| "happen (Closes d) k = snd (k_close d k)"
| "happen (Dies q) k = k_die q k"
| "happen (Truncates d) k = snd (k_truncate k)"
| "happen (Writes d t) k = snd (k_write t k)"

fun interfere :: "nat \<Rightarrow> event list \<Rightarrow> kernel \<Rightarrow> kernel" where
  "interfere p [] k = k"
| "interfere p (ev # evs) k = interfere p evs (if foreign p k ev then happen ev k else k)"

section \<open>The calls of one process\<close>

record lock_world =
  kernel :: kernel
  my_pid :: nat
  hostname :: "string result" \<comment> \<open>\<open>socket.gethostname()\<close>\<close>
  others :: "nat \<Rightarrow> event list"
  call_fails :: "nat \<Rightarrow> bool"
  signals :: "nat \<Rightarrow> exn option"
  lag :: "nat \<Rightarrow> real"
  lock_now :: real
  calls :: nat

type_synonym 'a lact = "lock_world \<Rightarrow> 'a result \<times> lock_world"

definition moment :: "real \<Rightarrow> lock_world \<Rightarrow> lock_world" where
  \<comment> \<open>time passes and the other processes run\<close>
  "moment t w =
     w\<lparr>lock_now := lock_now w + t + \<bar>lag w (calls w)\<bar>, calls := Suc (calls w),
       kernel := interfere (my_pid w) (others w (calls w)) (kernel w)\<rparr>"

definition kcall :: "(kernel \<Rightarrow> 'a result \<times> kernel) \<Rightarrow> 'a lact" where
  "kcall f w =
     (let w1 = moment 0 w
      in if call_fails w (calls w) then (Inl os_error, w1)
         else case f (kernel w1) of (r, k) \<Rightarrow> (r, w1\<lparr>kernel := k\<rparr>))"

definition close_call :: "nat \<Rightarrow> unit lact" where
  \<comment> \<open>\<open>os.close\<close>: the descriptor is gone also when the call reports an error\<close>
  "close_call d w =
     (let w1 = moment 0 w; w2 = w1\<lparr>kernel := snd (k_close d (kernel w1))\<rparr>
      in (if call_fails w (calls w) then Inl os_error else Inr (), w2))"

definition lseek_call :: "unit lact" where
  "lseek_call = kcall (\<lambda>k. (Inr (), k))"

definition lock_clock :: "lock_world \<Rightarrow> real \<times> lock_world" where
  "lock_clock w = (let w' = moment 0 w in (lock_now w', w'))"

definition negative_sleep :: exn where
  "negative_sleep = Exn PyValueError ''sleep length must be non-negative''"

definition lock_sleep :: "real \<Rightarrow> unit lact" where
  \<comment> \<open>\<open>time.sleep\<close>: a negative length is refused, a handler of a signal may raise\<close>
  "lock_sleep t w =
     (if t < 0 then (Inl negative_sleep, w)
      else case signals w (calls w) of
        Some x \<Rightarrow> (Inl x, moment 0 w)
      | None \<Rightarrow> (Inr (), moment t w))"

section \<open>The lock object\<close>

record provider =
  lock_class :: lock_class
  timeout :: real
  poll :: real
  lock_fd :: "nat option" \<comment> \<open>\<open>_fd\<close>\<close>
  held :: bool

definition make_lock :: "bool \<Rightarrow> real \<Rightarrow> real \<Rightarrow> provider" where
  \<comment> \<open>\<open>make_lock\<close>; \<open>30\<close> and \<open>0.5\<close> by default\<close>
  "make_lock windows t p =
     \<lparr>lock_class = (if windows then WindowsLock else PosixFlockLock), timeout = t, poll = p,
      lock_fd = None, held = False\<rparr>"

definition posix_try_lock :: "nat \<Rightarrow> lock_world \<Rightarrow> bool \<times> lock_world" where
  \<comment> \<open>\<open>PosixFlockLock._try_lock\<close>; every \<open>OSError\<close> means that it is held\<close>
  "posix_try_lock d w =
     (case kcall (k_lock PosixFlockLock d) w of (Inl x, w1) \<Rightarrow> (False, w1) | (Inr u, w1) \<Rightarrow> (True, w1))"

definition posix_unlock :: "nat \<Rightarrow> unit lact" where
  "posix_unlock d = kcall (k_unlock PosixFlockLock d)"

definition windows_try_lock :: "nat \<Rightarrow> lock_world \<Rightarrow> bool \<times> lock_world" where
  \<comment> \<open>\<open>WindowsLock._try_lock\<close>: seek to the first byte, then lock it\<close>
  "windows_try_lock d w =
     (case lseek_call w of
        (Inl x, w1) \<Rightarrow> (False, w1)
      | (Inr u, w1) \<Rightarrow>
          (case kcall (k_lock WindowsLock d) w1 of (Inl x, w2) \<Rightarrow> (False, w2) | (Inr u, w2) \<Rightarrow> (True, w2)))"

definition windows_unlock :: "nat \<Rightarrow> unit lact" where
  \<comment> \<open>\<open>WindowsLock._unlock\<close>: an \<open>OSError\<close> is ignored\<close>
  "windows_unlock d w =
     (case lseek_call w of
        (Inl x, w1) \<Rightarrow> (Inr (), w1)
      | (Inr u, w1) \<Rightarrow> (case kcall (k_unlock WindowsLock d) w1 of (r, w2) \<Rightarrow> (Inr (), w2)))"

definition try_lock :: "lock_class \<Rightarrow> nat \<Rightarrow> lock_world \<Rightarrow> bool \<times> lock_world" where
  "try_lock c = (case c of PosixFlockLock \<Rightarrow> posix_try_lock | WindowsLock \<Rightarrow> windows_try_lock)"

definition unlock :: "lock_class \<Rightarrow> nat \<Rightarrow> unit lact" where
  "unlock c = (case c of PosixFlockLock \<Rightarrow> posix_unlock | WindowsLock \<Rightarrow> windows_unlock)"

section \<open>Text of the lockfile\<close>

definition py_spaces :: "string list" where
  \<comment> \<open>the characters \<open>str.strip\<close> removes, in UTF-8\<close>
  "py_spaces =
     map (\<lambda>n. [char_of n]) ([9 ..< 14] @ [28 ..< 33]) @
     [[CHR 0xC2, CHR 0x85], [CHR 0xC2, CHR 0xA0], [CHR 0xE1, CHR 0x9A, CHR 0x80]] @
     map (\<lambda>n. [CHR 0xE2, CHR 0x80, char_of n]) ([128 ..< 139] @ [168, 169, 175 :: nat]) @
     [[CHR 0xE2, CHR 0x81, CHR 0x9F], [CHR 0xE3, CHR 0x80, CHR 0x80]]"

function lstrip_any :: "string list \<Rightarrow> string \<Rightarrow> string" where
  "lstrip_any ps s =
     (case find (\<lambda>p. p \<noteq> [] \<and> prefix p s) ps of None \<Rightarrow> s | Some p \<Rightarrow> lstrip_any ps (drop (length p) s))"
  by pat_completeness auto
termination
  by (relation "measure (length \<circ> snd)")
    (auto simp: find_Some_iff diff_less dest: prefix_length_le intro!: diff_less)

declare lstrip_any.simps [simp del]

definition py_strip :: "string \<Rightarrow> string" where
  "py_strip s = rev (lstrip_any (map rev py_spaces) (rev (lstrip_any py_spaces s)))"

definition codec_error :: exn where
  "codec_error = Exn PyUnicodeError ''utf-8''"

definition holder_name :: "string \<Rightarrow> string" where
  "holder_name t = (let h = py_strip (universal_newlines t) in if h = [] then ''unknown'' else h)"

definition read_holder :: "lock_class \<Rightarrow> string lact" where
  \<comment> \<open>\<open>_read_holder\<close>: only \<open>OSError\<close> is caught, not the error of a decoder\<close>
  "read_holder c w =
     (case kcall (k_read c) w of
        (Inl x, w1) \<Rightarrow> (Inr ''unknown'', w1)
      | (Inr t, w1) \<Rightarrow>
          (if utf8_ok t then Inr (holder_name t) else Inl codec_error, w1))"

section \<open>Acquire\<close>

definition locked_error :: "string \<Rightarrow> exn" where
  "locked_error holder = Exn CacheLockedError (''cache lock held by '' @ holder)"

definition give_up :: "lock_class \<Rightarrow> nat \<Rightarrow> unit lact" where
  \<comment> \<open>the deadline has passed\<close>
  "give_up c d w =
     (case read_holder c w of
        (Inl x, w1) \<Rightarrow> (Inl x, w1)
      | (Inr h, w1) \<Rightarrow>
          (case close_call d w1 of
             (Inl x, w2) \<Rightarrow> (Inl x, w2)
           | (Inr u, w2) \<Rightarrow> (Inl (locked_error h), w2)))"

partial_function (option) acquire_loop :: "provider \<Rightarrow> nat \<Rightarrow> real \<Rightarrow> lock_world \<Rightarrow> (unit result \<times> lock_world) option" where
  "acquire_loop p d deadline w =
     (case try_lock (lock_class p) d w of (locked, w1) \<Rightarrow>
        if locked then Some (Inr (), w1)
        else (case lock_clock w1 of (now, w2) \<Rightarrow>
           if deadline \<le> now then Some (give_up (lock_class p) d w2)
           else (case lock_sleep (poll p) w2 of (r, w3) \<Rightarrow>
             (case r of Inl x \<Rightarrow> Some (Inl x, w3) | Inr u \<Rightarrow> acquire_loop p d deadline w3))))"

definition identity_of :: "lock_world \<Rightarrow> string result" where
  \<comment> \<open>the text \<open>pid@host\<close>, encoded\<close>
  "identity_of w =
     (case hostname w of
        Inl x \<Rightarrow> Inl x
      | Inr n \<Rightarrow> let t = nat_repr (my_pid w) @ ''@'' @ n in if utf8_ok t then Inr t else Inl codec_error)"

definition write_holder :: "nat \<Rightarrow> unit lact" where
  \<comment> \<open>truncate, write, fsync\<close>
  "write_holder d w =
     (case kcall k_truncate w of
        (Inl x, w1) \<Rightarrow> (Inl x, w1)
      | (Inr u, w1) \<Rightarrow>
          (case identity_of w1 of
             Inl x \<Rightarrow> (Inl x, w1)
           | Inr t \<Rightarrow>
               (case kcall (k_write t) w1 of
                  (Inl x, w2) \<Rightarrow> (Inl x, w2)
                | (Inr v, w2) \<Rightarrow> kcall (\<lambda>k. (Inr (), k)) w2)))"

definition record_holder :: "nat \<Rightarrow> unit lact" where
  \<comment> \<open>best effort: an \<open>OSError\<close> is ignored\<close>
  "record_holder d w =
     (case write_holder d w of
        (Inl x, w1) \<Rightarrow> (if isinstance x PyOSError then Inr () else Inl x, w1)
      | (Inr u, w1) \<Rightarrow> (Inr (), w1))"

definition settle :: "provider \<Rightarrow> nat \<Rightarrow> unit result \<times> lock_world \<Rightarrow> unit result \<times> provider \<times> lock_world" where
  \<comment> \<open>what \<open>acquire\<close> does after its loop\<close>
  "settle p d out =
     (case out of
        (Inl x, w) \<Rightarrow> (Inl x, p, w)
      | (Inr u, w) \<Rightarrow>
          (case record_holder d w of
             (Inl x, w1) \<Rightarrow> (Inl x, p, w1)
           | (Inr v, w1) \<Rightarrow> (Inr (), p\<lparr>lock_fd := Some d, held := True\<rparr>, w1)))"

definition acquire :: "provider \<Rightarrow> lock_world \<Rightarrow> (unit result \<times> provider \<times> lock_world) option" where
  "acquire p w =
     (case kcall (\<lambda>k. (Inr (), k)) w of \<comment> \<open>\<open>lockfile.parent.mkdir\<close>\<close>
        (Inl x, w1) \<Rightarrow> Some (Inl x, p, w1)
      | (Inr u, w1) \<Rightarrow>
          (case kcall (k_open (my_pid w1)) w1 of
             (Inl x, w2) \<Rightarrow> Some (Inl x, p, w2)
           | (Inr d, w2) \<Rightarrow>
               (case lock_clock w2 of (now, w3) \<Rightarrow>
                  map_option (settle p d) (acquire_loop p d (now + timeout p) w3))))"

section \<open>Release\<close>

definition release :: "provider \<Rightarrow> lock_world \<Rightarrow> unit result \<times> provider \<times> lock_world" where
  "release p w =
     (case lock_fd p of
        None \<Rightarrow> (Inr (), p, w)
      | Some d \<Rightarrow>
          (case unlock (lock_class p) d w of (r, w1) \<Rightarrow>
             (case close_call d w1 of
                (Inl x, w2) \<Rightarrow> (Inl x, p, w2)
              | (Inr u, w2) \<Rightarrow> (r, p\<lparr>lock_fd := None, held := False\<rparr>, w2))))"

definition with_lock :: "provider \<Rightarrow> (provider \<Rightarrow> lock_world \<Rightarrow> 'a result \<times> lock_world) \<Rightarrow> lock_world \<Rightarrow>
    ('a result \<times> provider \<times> lock_world) option" where
  \<comment> \<open>\<open>with lock: body\<close>, by \<open>__enter__\<close> and \<open>__exit__\<close>\<close>
  "with_lock p body w =
     (case acquire p w of
        None \<Rightarrow> None
      | Some (Inl x, p1, w1) \<Rightarrow> Some (Inl x, p1, w1)
      | Some (Inr u, p1, w1) \<Rightarrow>
          (case body p1 w1 of (r, w2) \<Rightarrow>
             (case release p1 w2 of
                (Inl x, p2, w3) \<Rightarrow> Some (Inl x, p2, w3)
              | (Inr v, p2, w3) \<Rightarrow> Some (r, p2, w3))))"

end
