(* ===== verification/Lock_Inv.thy ===== *)
theory Lock_Inv
  imports Locking
begin

text \<open>
  What a process can rely on while others use the same lockfile, and what its own calls do to
  the lock: the outcomes of \<open>acquire\<close> and \<open>release\<close> for every interleaving and every failure, and
  the bound on the wait.
\<close>

section \<open>The kernel's invariant and the rely condition\<close>

definition kernel_ok :: "kernel \<Rightarrow> bool" where
  "kernel_ok k \<longleftrightarrow>
     (\<forall>d. next_desc k \<le> d \<longrightarrow> descs k d = None) \<and> (\<forall>d. owner k = Some d \<longrightarrow> descs k d \<noteq> None)"

definition own :: "nat \<Rightarrow> kernel \<Rightarrow> nat set" where
  "own p k = {d. descs k d = Some p}"

definition rely :: "nat \<Rightarrow> kernel \<Rightarrow> kernel \<Rightarrow> bool" where
  "rely p k k' \<longleftrightarrow>
     kernel_ok k' \<and> own p k' = own p k \<and> (\<forall>d\<in>own p k. owner k' = Some d \<longleftrightarrow> owner k = Some d)"

lemmas kernel_defs = k_open_def k_close_def k_lock_def k_unlock_def k_die_def k_truncate_def k_write_def

lemma happen_ok: "kernel_ok k \<Longrightarrow> kernel_ok (happen ev k)"
  by (cases ev) (auto simp: kernel_ok_def kernel_defs split: option.splits)

lemma foreign_rely:
  assumes "kernel_ok k" and "foreign p k ev"
  shows "rely p k (happen ev k)"
proof -
  have "descs k (next_desc k) = None" using assms(1) by (simp add: kernel_ok_def)
  then have "own p (happen ev k) = own p k \<and> (\<forall>d\<in>own p k. owner (happen ev k) = Some d \<longleftrightarrow> owner k = Some d)"
    using assms(2) by (cases ev) (auto simp: own_def kernel_defs split: option.splits)
  with happen_ok [OF assms(1)] show ?thesis by (simp add: rely_def)
qed

lemma rely_refl: "kernel_ok k \<Longrightarrow> rely p k k"
  by (simp add: rely_def)

lemma rely_trans: "rely p k1 k2 \<Longrightarrow> rely p k2 k3 \<Longrightarrow> rely p k1 k3"
  by (simp add: rely_def)

lemma interfere_rely: "kernel_ok k \<Longrightarrow> rely p k (interfere p evs k)"
proof (induction evs arbitrary: k)
  case (Cons ev evs)
  let ?k = "if foreign p k ev then happen ev k else k"
  have "rely p k ?k" using foreign_rely rely_refl Cons.prems by simp
  with Cons.IH [of ?k] show ?case using rely_trans by (auto simp: rely_def)
qed (simp add: rely_refl)

section \<open>Calls\<close>

definition same_process :: "lock_world \<Rightarrow> lock_world \<Rightarrow> bool" where
  \<comment> \<open>the oracles are those of the same process, and time did not run backwards\<close>
  "same_process w w' \<longleftrightarrow>
     my_pid w' = my_pid w \<and> hostname w' = hostname w \<and> others w' = others w \<and> call_fails w' = call_fails w \<and>
     signals w' = signals w \<and> lock_now w \<le> lock_now w'"

lemma same_process_refl [simp]: "same_process w w"
  by (simp add: same_process_def)

lemma same_process_trans: "same_process w1 w2 \<Longrightarrow> same_process w2 w3 \<Longrightarrow> same_process w1 w3"
  by (auto simp: same_process_def)

lemma same_processD:
  assumes "same_process w w'"
  shows "my_pid w' = my_pid w" and "lock_now w \<le> lock_now w'" and "hostname w' = hostname w"
    and "others w' = others w" and "call_fails w' = call_fails w" and "signals w' = signals w"
  using assms by (simp_all add: same_process_def)

lemma moment_same: "0 \<le> t \<Longrightarrow> same_process w (moment t w)"
  by (simp add: same_process_def moment_def)

lemma same_process_kernel [simp]: "same_process w (w'\<lparr>kernel := k\<rparr>) = same_process w w'"
  by (simp add: same_process_def)

lemma moment_rely: "kernel_ok (kernel w) \<Longrightarrow> rely (my_pid w) (kernel w) (kernel (moment t w))"
  by (simp add: moment_def interfere_rely)

lemma moment_now: "0 \<le> t \<Longrightarrow> lock_now w + t \<le> lock_now (moment t w)"
  by (simp add: moment_def)

lemma moment_calls [simp]: "calls (moment t w) = Suc (calls w)"
  by (simp add: moment_def)

lemma kcall_cases:
  assumes "kcall f w = (r, w')"
  obtains (fails) "r = Inl os_error" "w' = moment 0 w"
  | (runs) k where "f (kernel (moment 0 w)) = (r, k)" "w' = (moment 0 w)\<lparr>kernel := k\<rparr>"
proof (cases "call_fails w (calls w)")
  case True
  with assms fails show ?thesis by (simp add: kcall_def Let_def)
next
  case False
  obtain q k where f: "f (kernel (moment 0 w)) = (q, k)" by fastforce
  from assms False have "r = q" "w' = (moment 0 w)\<lparr>kernel := k\<rparr>" by (simp_all add: kcall_def Let_def f)
  with f runs show ?thesis by blast
qed

lemma kcall_same: "kcall f w = (r, w') \<Longrightarrow> same_process w w' \<and> calls w' = Suc (calls w)"
  by (elim kcall_cases) (auto simp: moment_same)

definition lseek_then :: "lock_class \<Rightarrow> 'a lact \<Rightarrow> 'a lact" where
  \<comment> \<open>the call of either class, on Windows after a seek\<close>
  "lseek_then c m w =
     (case c of
        PosixFlockLock \<Rightarrow> m w
      | WindowsLock \<Rightarrow> (case lseek_call w of (Inl x, w1) \<Rightarrow> (Inl x, w1) | (Inr u, w1) \<Rightarrow> m w1))"

lemma try_lock_lseek:
  "try_lock c d w =
     (case lseek_then c (kcall (k_lock c d)) w of (Inl x, w1) \<Rightarrow> (False, w1) | (Inr u, w1) \<Rightarrow> (True, w1))"
  by (cases c)
    (auto simp: try_lock_def posix_try_lock_def windows_try_lock_def lseek_then_def split: sum.split prod.split)

lemma unlock_lseek:
  "unlock c d w =
     (case lseek_then c (kcall (k_unlock c d)) w of
        (Inl x, w1) \<Rightarrow> (if c = WindowsLock then Inr () else Inl x, w1)
      | (Inr u, w1) \<Rightarrow> (Inr (), w1))"
  by (cases c)
    (auto simp: unlock_def posix_unlock_def windows_unlock_def lseek_then_def split: sum.split prod.split)

lemma lseek_then_cases:
  assumes "lseek_then c m w = (r, w')" and "kernel_ok (kernel w)"
  obtains (fails) "r = Inl os_error" "rely (my_pid w) (kernel w) (kernel w')" "same_process w w'"
      "calls w' = Suc (calls w)"
  | (runs) w1 where "m w1 = (r, w')" "rely (my_pid w) (kernel w) (kernel w1)" "same_process w w1"
      "calls w1 \<le> Suc (calls w)"
proof (cases c)
  case PosixFlockLock
  with assms that(2) [of w] show ?thesis by (simp add: lseek_then_def rely_refl)
next
  case WindowsLock
  obtain r1 w1 where l: "lseek_call w = (r1, w1)" by fastforce
  then have s: "same_process w w1" "calls w1 = Suc (calls w)" using kcall_same by (auto simp: lseek_call_def)
  have k: "rely (my_pid w) (kernel w) (kernel w1)" "r1 = Inr () \<or> r1 = Inl os_error"
    using l moment_rely [OF assms(2), of 0] unfolding lseek_call_def by (auto elim!: kcall_cases)
  with assms(1) WindowsLock l s that show ?thesis by (auto simp: lseek_then_def)
qed

lemma rely_own: "rely p k k' \<Longrightarrow> own p k' = own p k"
  by (simp add: rely_def)

lemma rely_owner: "rely p k k' \<Longrightarrow> d \<in> own p k \<Longrightarrow> owner k' = Some d \<longleftrightarrow> owner k = Some d"
  by (simp add: rely_def)

lemma rely_ok: "rely p k k' \<Longrightarrow> kernel_ok k'"
  by (simp add: rely_def)

definition undisturbed :: "lock_world \<Rightarrow> lock_world \<Rightarrow> bool" where
  \<comment> \<open>our descriptors and what they lock are as before\<close>
  "undisturbed w w' \<longleftrightarrow> same_process w w' \<and> rely (my_pid w) (kernel w) (kernel w')"

lemma undisturbed_trans: "undisturbed w1 w2 \<Longrightarrow> undisturbed w2 w3 \<Longrightarrow> undisturbed w1 w3"
  using same_process_trans [of w1 w2 w3] same_processD(1) [of w1 w2] by (simp add: undisturbed_def rely_def)

definition waiting :: "nat \<Rightarrow> lock_world \<Rightarrow> bool" where
  "waiting d w \<longleftrightarrow> kernel_ok (kernel w) \<and> d \<in> own (my_pid w) (kernel w) \<and> owner (kernel w) \<noteq> Some d"

lemma waiting_later: "waiting d w \<Longrightarrow> undisturbed w w' \<Longrightarrow> waiting d w'"
  using same_processD(1) [of w w'] by (simp add: undisturbed_def waiting_def rely_def)

lemma try_lock_outcome:
  assumes "try_lock c d w = (b, w')" and "kernel_ok (kernel w)" and "d \<in> own (my_pid w) (kernel w)"
  shows "calls w' \<le> calls w + 2 \<and>
     (if b then same_process w w' \<and> kernel_ok (kernel w') \<and>
          own (my_pid w) (kernel w') = own (my_pid w) (kernel w) \<and> owner (kernel w') = Some d
      else undisturbed w w')"
proof -
  obtain r where l: "lseek_then c (kcall (k_lock c d)) w = (r, w')" "b = (case r of Inl x \<Rightarrow> False | Inr u \<Rightarrow> True)"
    using assms(1) by (auto simp: try_lock_lseek split: prod.splits sum.splits)
  from l(1) assms(2) show ?thesis
  proof (cases rule: lseek_then_cases)
    case fails
    with l(2) show ?thesis by (simp add: undisturbed_def)
  next
    case (runs w1)
    have p: "my_pid w1 = my_pid w" and ok: "kernel_ok (kernel w1)"
      using runs same_processD(1) rely_ok by blast+
    have m: "rely (my_pid w) (kernel w) (kernel (moment 0 w1))"
      using rely_trans [OF runs(2)] moment_rely [OF ok] p by metis
    have "same_process w w'" "calls w' \<le> calls w + 2"
      using kcall_same [OF runs(1)] runs(3,4) same_process_trans by auto
    moreover from runs(1) have "if b then kernel_ok (kernel w') \<and>
        own (my_pid w) (kernel w') = own (my_pid w) (kernel w) \<and> owner (kernel w') = Some d
      else rely (my_pid w) (kernel w) (kernel w')"
    proof (cases rule: kcall_cases)
      case fails
      with m l(2) show ?thesis by simp
    next
      case (runs k)
      have "if b then kernel_ok k \<and> own (my_pid w) k = own (my_pid w) (kernel (moment 0 w1)) \<and> owner k = Some d
        else k = kernel (moment 0 w1)"
        using runs(1) rely_ok [OF m] l(2) by (auto simp: k_lock_def own_def kernel_ok_def split: if_splits)
      with runs(2) m rely_own [OF m] show ?thesis by (simp split: if_splits)
    qed
    ultimately show ?thesis by (simp add: undisturbed_def)
  qed
qed

section \<open>Waiting\<close>

definition wait_failed :: "nat \<Rightarrow> real \<Rightarrow> lock_world \<Rightarrow> exn \<Rightarrow> lock_world \<Rightarrow> bool" where
  \<comment> \<open>the lock is not ours; past the deadline the descriptor is closed, unless reading the holder raised\<close>
  "wait_failed d dl w x w' \<longleftrightarrow>
     owner (kernel w') \<noteq> Some d \<and>
     (\<forall>j\<in>own (my_pid w) (kernel w). j \<noteq> d \<longrightarrow> (owner (kernel w') = Some j \<longleftrightarrow> owner (kernel w) = Some j)) \<and>
     (((\<exists>h. x = locked_error h) \<or> x = os_error) \<and> dl \<le> lock_now w' \<and> own (my_pid w) (kernel w') = own (my_pid w) (kernel w) - {d} \<or>
      (x = codec_error \<or> x = negative_sleep \<or> (\<exists>n. signals w n = Some x)) \<and>
        own (my_pid w) (kernel w') = own (my_pid w) (kernel w))"

definition wait_outcome :: "nat \<Rightarrow> real \<Rightarrow> lock_world \<Rightarrow> unit result \<times> lock_world \<Rightarrow> bool" where
  "wait_outcome d dl w out \<longleftrightarrow>
     same_process w (snd out) \<and> kernel_ok (kernel (snd out)) \<and>
     (case fst out of
        Inr u \<Rightarrow> own (my_pid w) (kernel (snd out)) = own (my_pid w) (kernel w) \<and> owner (kernel (snd out)) = Some d
      | Inl x \<Rightarrow> wait_failed d dl w x (snd out))"

lemma close_call_outcome:
  assumes "close_call d w = (r, w')" and "kernel_ok (kernel w)"
  shows "same_process w w' \<and> calls w' = Suc (calls w) \<and> kernel_ok (kernel w') \<and>
     own (my_pid w) (kernel w') = own (my_pid w) (kernel w) - {d} \<and> owner (kernel w') \<noteq> Some d \<and>
     (\<forall>j\<in>own (my_pid w) (kernel w). j \<noteq> d \<longrightarrow> (owner (kernel w') = Some j \<longleftrightarrow> owner (kernel w) = Some j)) \<and>
     (r = Inr () \<or> r = Inl os_error)"
proof -
  let ?k = "kernel (moment 0 w)"
  have m: "rely (my_pid w) (kernel w) ?k" using assms(2) by (rule moment_rely)
  have w': "w' = (moment 0 w)\<lparr>kernel := snd (k_close d ?k)\<rparr>" "r = Inr () \<or> r = Inl os_error"
    using assms(1) by (auto simp: close_call_def Let_def)
  have "own (my_pid w) (snd (k_close d ?k)) = own (my_pid w) ?k - {d}" "owner (snd (k_close d ?k)) \<noteq> Some d"
    "\<And>j. j \<noteq> d \<Longrightarrow> owner (snd (k_close d ?k)) = Some j \<longleftrightarrow> owner ?k = Some j"
    by (auto simp: k_close_def own_def)
  moreover have "kernel_ok (snd (k_close d ?k))" using happen_ok [OF rely_ok [OF m], of "Closes d"] by simp
  ultimately show ?thesis using w' rely_own [OF m] rely_owner [OF m] moment_same [of 0 w] by simp
qed

lemma read_holder_outcome:
  assumes "read_holder c w = (r, w')" and "kernel_ok (kernel w)"
  shows "same_process w w' \<and> calls w' = Suc (calls w) \<and> rely (my_pid w) (kernel w) (kernel w') \<and>
     (\<forall>x. r = Inl x \<longrightarrow> x = codec_error)"
proof -
  obtain q where k: "kcall (k_read c) w = (q, w')" using assms(1) by (auto simp: read_holder_def split: prod.splits sum.splits)
  from k have "kernel w' = kernel (moment 0 w)"
  proof (cases rule: kcall_cases)
    case (runs j)
    from runs(1) have "j = kernel (moment 0 w)" unfolding k_read_def by (simp split: option.splits if_splits)
    with runs(2) show ?thesis by simp
  qed simp
  then have "rely (my_pid w) (kernel w) (kernel w')" using moment_rely [OF assms(2)] by simp
  moreover have "x = codec_error" if "r = Inl x" for x
  proof (cases q)
    case (Inl y)
    have "read_holder c w = (Inr ''unknown'', w')" unfolding read_holder_def k Inl by simp
    with assms(1) that show ?thesis by simp
  next
    case (Inr t)
    have "read_holder c w = (if utf8_ok t then Inr (holder_name t) else Inl codec_error, w')"
      unfolding read_holder_def k Inr by simp
    with assms(1) have "r = (if utf8_ok t then Inr (holder_name t) else Inl codec_error)" by simp
    with that show ?thesis by (simp split: if_splits)
  qed
  ultimately show ?thesis using kcall_same [OF k] by blast
qed

lemma give_up_outcome:
  assumes "give_up c d w = out" and "waiting d w" and "dl \<le> lock_now w"
  shows "wait_outcome d dl w out \<and> calls (snd out) \<le> calls w + 2"
proof -
  obtain q w1 where r: "read_holder c w = (q, w1)" by fastforce
  have k: "kernel_ok (kernel w)" using assms(2) by (simp add: waiting_def)
  note h = read_holder_outcome [OF r k]
  then have u: "undisturbed w w1" by (simp add: undisturbed_def)
  note k1 = waiting_later [OF assms(2) this]
  obtain q2 w2 where cl: "close_call d w1 = (q2, w2)" by fastforce
  have p: "my_pid w1 = my_pid w" using h by (simp add: same_process_def)
  have own1: "own (my_pid w) (kernel w1) = own (my_pid w) (kernel w)"
    "\<And>j. j \<in> own (my_pid w) (kernel w) \<Longrightarrow> owner (kernel w1) = Some j \<longleftrightarrow> owner (kernel w) = Some j"
    using u by (simp_all add: undisturbed_def rely_def)
  show ?thesis
  proof (cases q)
    case (Inl x)
    then have "out = (Inl codec_error, w1)" using assms(1) r h by (simp add: give_up_def)
    with h k1 own1 show ?thesis by (simp add: wait_outcome_def wait_failed_def waiting_def)
  next
    case (Inr t)
    then have "out = (Inl (case q2 of Inl x \<Rightarrow> x | Inr u \<Rightarrow> locked_error t), w2)"
      using assms(1) r cl by (cases q2) (simp_all add: give_up_def)
    moreover from cl k1 have c2: "same_process w1 w2" "calls w2 = Suc (calls w1)" "kernel_ok (kernel w2)"
      "own (my_pid w) (kernel w2) = own (my_pid w) (kernel w) - {d}" "owner (kernel w2) \<noteq> Some d"
      "\<forall>j\<in>own (my_pid w) (kernel w). j \<noteq> d \<longrightarrow> (owner (kernel w2) = Some j \<longleftrightarrow> owner (kernel w) = Some j)"
      "q2 = Inr () \<or> q2 = Inl os_error"
      using close_call_outcome [OF cl] own1 by (simp_all add: waiting_def p)
    moreover have "same_process w w2" using h c2(1) same_process_trans by blast
    moreover from this have "dl \<le> lock_now w2" using assms(3) by (simp add: same_process_def)
    ultimately show ?thesis using h by (auto simp: wait_outcome_def wait_failed_def)
  qed
qed

lemma lock_clock_outcome:
  assumes "lock_clock w = (now, w')" and "kernel_ok (kernel w)"
  shows "same_process w w' \<and> calls w' = Suc (calls w) \<and> rely (my_pid w) (kernel w) (kernel w') \<and>
     now = lock_now w'"
  using assms moment_same [of 0 w] moment_rely [of w 0] by (auto simp: lock_clock_def Let_def)

lemma lock_sleep_outcome:
  assumes "lock_sleep t w = (r, w')" and "kernel_ok (kernel w)"
  shows "same_process w w' \<and> calls w' \<le> Suc (calls w) \<and> rely (my_pid w) (kernel w) (kernel w') \<and>
     (case r of Inl x \<Rightarrow> x = negative_sleep \<or> (\<exists>n. signals w n = Some x) | Inr u \<Rightarrow> lock_now w + t \<le> lock_now w')"
  using assms moment_same moment_rely [OF assms(2)] moment_now [of t w] rely_refl [OF assms(2)]
  by (auto simp: lock_sleep_def split: if_splits option.splits)

lemma wait_outcome_later:
  assumes "undisturbed w w1" and "wait_outcome d dl w1 out"
  shows "wait_outcome d dl w out"
proof -
  have "my_pid w1 = my_pid w" "signals w1 = signals w" "own (my_pid w) (kernel w1) = own (my_pid w) (kernel w)"
    "\<And>j. j \<in> own (my_pid w) (kernel w) \<Longrightarrow> owner (kernel w1) = Some j \<longleftrightarrow> owner (kernel w) = Some j"
    "same_process w w1" using assms(1) same_processD by (auto simp: undisturbed_def rely_def)
  with assms(2) show ?thesis
    using same_process_trans [OF \<open>same_process w w1\<close>]
    by (cases "fst out") (simp_all add: wait_outcome_def wait_failed_def)
qed

lemma loop_body_cases:
  \<comment> \<open>one turn of the loop of \<open>acquire\<close>\<close>
  assumes "waiting d w"
  obtains (locks) w1 where "try_lock c d w = (True, w1)" "same_process w w1" "calls w1 \<le> calls w + 2"
      "kernel_ok (kernel w1)" "own (my_pid w) (kernel w1) = own (my_pid w) (kernel w)" "owner (kernel w1) = Some d"
  | (late) w1 w2 where "try_lock c d w = (False, w1)" "lock_clock w1 = (lock_now w2, w2)" "dl \<le> lock_now w2"
      "undisturbed w w2" "calls w2 \<le> calls w + 3"
  | (sleeps) w1 w2 r w3 where "try_lock c d w = (False, w1)" "lock_clock w1 = (lock_now w2, w2)" "lock_now w2 < dl" "lock_now w \<le> lock_now w2"
      "lock_sleep t w2 = (r, w3)" "undisturbed w w3" "calls w3 \<le> calls w + 4"
      "case r of Inl x \<Rightarrow> x = negative_sleep \<or> (\<exists>n. signals w n = Some x) | Inr u \<Rightarrow> lock_now w + t \<le> lock_now w3"
proof -
  have k: "kernel_ok (kernel w)" "d \<in> own (my_pid w) (kernel w)" using assms by (simp_all add: waiting_def)
  obtain b w1 where t: "try_lock c d w = (b, w1)" by fastforce
  note o1 = try_lock_outcome [OF t k]
  show ?thesis
  proof (cases b)
    case True
    with t o1 locks show ?thesis by simp
  next
    case False
    with o1 have u1: "undisturbed w w1" "calls w1 \<le> calls w + 2" by simp_all
    have k1: "kernel_ok (kernel w1)" using u1(1) by (simp add: undisturbed_def rely_def)
    obtain now w2 where c: "lock_clock w1 = (now, w2)" by fastforce
    note o2 = lock_clock_outcome [OF c k1]
    then have "undisturbed w1 w2" by (simp add: undisturbed_def)
    with u1(1) have u2: "undisturbed w w2" by (rule undisturbed_trans)
    have k2: "kernel_ok (kernel w2)" using u2 by (simp add: undisturbed_def rely_def)
    have n2: "now = lock_now w2" "calls w2 \<le> calls w + 3" using o2 u1(2) by simp_all
    show ?thesis
    proof (cases "dl \<le> lock_now w2")
      case True
      with late t c n2 u2 False show ?thesis by simp
    next
      case nl: False
      obtain r w3 where s: "lock_sleep t w2 = (r, w3)" by fastforce
      note o3 = lock_sleep_outcome [OF s k2]
      then have "undisturbed w2 w3" by (simp add: undisturbed_def)
      with u2 have u3: "undisturbed w w3" by (rule undisturbed_trans)
      have "signals w2 = signals w" "lock_now w \<le> lock_now w2" using u2 same_processD by (simp_all add: undisturbed_def)
      with o3 have "case r of Inl x \<Rightarrow> x = negative_sleep \<or> (\<exists>n. signals w n = Some x) | Inr u \<Rightarrow> lock_now w + t \<le> lock_now w3"
        by (cases r) auto
      with sleeps [OF _ _ _ _ s u3] t c n2 nl o3 False \<open>lock_now w \<le> lock_now w2\<close> show ?thesis by simp
    qed
  qed
qed

lemma acquire_loop_outcome:
  assumes "acquire_loop p d dl w = Some out" and "waiting d w"
  shows "wait_outcome d dl w out"
proof -
  let ?P = "\<lambda>p d dl w out. waiting d w \<longrightarrow> wait_outcome d dl w out"
  have "?P p d dl w out"
  proof (rule acquire_loop.raw_induct [where P = ?P, OF _ assms(1)], rule impI)
    fix rec p d dl w out
    assume IH: "\<And>p d dl w out. rec p d dl w = Some out \<Longrightarrow> ?P p d dl w out"
      and body: "(case try_lock (lock_class p) d w of (locked, w1) \<Rightarrow>
        if locked then Some (Inr (), w1)
        else (case lock_clock w1 of (now, w2) \<Rightarrow>
           if dl \<le> now then Some (give_up (lock_class p) d w2)
           else (case lock_sleep (poll p) w2 of (r, w3) \<Rightarrow>
             (case r of Inl x \<Rightarrow> Some (Inl x, w3) | Inr u \<Rightarrow> rec p d dl w3)))) = Some out"
      and k: "waiting d w"
    from k show "wait_outcome d dl w out"
    proof (cases rule: loop_body_cases [where c = "lock_class p" and dl = dl and t = "poll p"])
      case (locks w1)
      with body show ?thesis by (auto simp: wait_outcome_def)
    next
      case (late w1 w2)
      then have "give_up (lock_class p) d w2 = out" using body by simp
      with give_up_outcome [OF _ _ late(3)] waiting_later [OF k late(4)] have "wait_outcome d dl w2 out" by blast
      with late(4) show ?thesis by (rule wait_outcome_later)
    next
      case (sleeps w1 w2 r w3)
      show ?thesis
      proof (cases r)
        case (Inl x)
        then have "out = (Inl x, w3)" using body sleeps by simp
        with sleeps(6,8) Inl k show ?thesis
          by (simp add: wait_outcome_def wait_failed_def undisturbed_def waiting_def rely_def)
      next
        case (Inr u)
        then have "rec p d dl w3 = Some out" using body sleeps by simp
        with IH waiting_later [OF k sleeps(6)] have "wait_outcome d dl w3 out" by blast
        with sleeps(6) show ?thesis by (rule wait_outcome_later)
      qed
    qed
  qed
  with assms show ?thesis by blast
qed

text \<open>
  The loop ends: every sleep brings the clock forward by the poll interval, so the number of
  turns is at most the number of intervals that fit before the deadline, plus one.
\<close>

lemma acquire_loop_returns:
  assumes "0 < poll p" and "waiting d w"
  shows "\<exists>r w'. acquire_loop p d dl w = Some (r, w') \<and>
     calls w' \<le> calls w + 4 * nat \<lceil>(dl - lock_now w) / poll p\<rceil> + 5"
  using assms(2)
proof (induction "nat \<lceil>(dl - lock_now w) / poll p\<rceil>" arbitrary: w rule: less_induct)
  case less
  from less.prems show ?case
  proof (cases rule: loop_body_cases [where c = "lock_class p" and dl = dl and t = "poll p"])
    case (locks w1)
    then show ?thesis by (subst acquire_loop.simps) simp
  next
    case (late w1 w2)
    obtain q w3 where g: "give_up (lock_class p) d w2 = (q, w3)" by fastforce
    have "calls w3 \<le> calls w2 + 2"
      using give_up_outcome [OF g _ late(3)] waiting_later [OF less.prems late(4)] by simp
    with late g show ?thesis by (subst acquire_loop.simps) simp
  next
    case (sleeps w1 w2 r w3)
    show ?thesis
    proof (cases r)
      case (Inl x)
      with sleeps show ?thesis by (subst acquire_loop.simps) simp
    next
      case (Inr u)
      let ?n = "\<lambda>v. nat \<lceil>(dl - lock_now v) / poll p\<rceil>"
      from sleeps(3,4) have pos: "0 < (dl - lock_now w) / poll p" using assms(1) by simp
      have "(dl - lock_now w3) / poll p \<le> (dl - (lock_now w + poll p)) / poll p"
        using sleeps(8) Inr assms(1) by (intro divide_right_mono) auto
      also have "\<dots> = (dl - lock_now w) / poll p - 1" using assms(1) by (simp add: field_simps)
      finally have "\<lceil>(dl - lock_now w3) / poll p\<rceil> \<le> \<lceil>(dl - lock_now w) / poll p\<rceil> - 1" by linarith
      moreover have "0 < \<lceil>(dl - lock_now w) / poll p\<rceil>" using pos by simp
      ultimately have "Suc (?n w3) \<le> ?n w" by linarith
      moreover from \<open>Suc (?n w3) \<le> ?n w\<close> obtain q w4 where "acquire_loop p d dl w3 = Some (q, w4)" "calls w4 \<le> calls w3 + 4 * ?n w3 + 5"
        using less.hyps [OF _ waiting_later [OF less.prems sleeps(6)]] by (auto simp: Suc_le_eq)
      ultimately show ?thesis using sleeps(1-5,7) Inr by (subst acquire_loop.simps) simp
    qed
  qed
qed

section \<open>Acquire and release\<close>

definition acquired :: "provider \<Rightarrow> lock_world \<Rightarrow> provider \<Rightarrow> lock_world \<Rightarrow> bool" where
  \<comment> \<open>a new descriptor of this process holds the lock, and the object knows it\<close>
  "acquired p w p' w' \<longleftrightarrow>
     (\<exists>d. p' = p\<lparr>lock_fd := Some d, held := True\<rparr> \<and> d \<notin> own (my_pid w) (kernel w) \<and>
        own (my_pid w) (kernel w') = insert d (own (my_pid w) (kernel w)) \<and> owner (kernel w') = Some d)"

lemma content_call:
  \<comment> \<open>a call that changes at most the content of the file\<close>
  assumes "kcall f w = (r, w')" and "kernel_ok (kernel w)" and "\<And>k. \<exists>t. f k = (Inr (), k\<lparr>content := t\<rparr>)"
  shows "undisturbed w w' \<and> (r = Inr () \<or> r = Inl os_error)"
  using assms(1)
proof (cases rule: kcall_cases)
  case fails
  with moment_rely [OF assms(2)] moment_same [of 0 w] show ?thesis by (simp add: undisturbed_def)
next
  case (runs k)
  from assms(3) obtain t where "f (kernel (moment 0 w)) = (Inr (), (kernel (moment 0 w))\<lparr>content := t\<rparr>)" by blast
  with runs have "r = Inr ()" "kernel w' = (kernel (moment 0 w))\<lparr>content := t\<rparr>" "same_process w w'"
    using moment_same [of 0 w] by simp_all
  with moment_rely [OF assms(2), of 0] show ?thesis
    by (simp add: undisturbed_def rely_def kernel_ok_def own_def)
qed

lemma same_content: "\<exists>t. (Inr (), k) = (Inr (), k\<lparr>content := t\<rparr> :: kernel)"
  by (rule exI [of _ "content k"]) simp

lemmas idle_call = content_call [OF _ _ same_content]

lemma record_holder_outcome:
  assumes "record_holder d w = (r, w')" and "kernel_ok (kernel w)"
  shows "undisturbed w w' \<and> (\<forall>x. r = Inl x \<longrightarrow> x = codec_error \<or> hostname w = Inl x)"
proof -
  have t: "\<exists>t. k_truncate k = (Inr (), k\<lparr>content := t\<rparr>)" "\<exists>t. k_write u k = (Inr (), k\<lparr>content := t\<rparr>)" for k u
    by (auto simp: k_truncate_def k_write_def)
  obtain q w1 where w: "write_holder d w = (q, w1)" by fastforce
  then have r: "w' = w1" "r = (case q of Inl x \<Rightarrow> if isinstance x PyOSError then Inr () else Inl x | Inr u \<Rightarrow> Inr ())"
    using assms(1) by (auto simp: record_holder_def split: sum.splits)
  obtain q1 v1 where c1: "kcall k_truncate w = (q1, v1)" by fastforce
  note u1 = content_call [OF c1 assms(2) t(1)]
  then have k1: "kernel_ok (kernel v1)" by (simp add: undisturbed_def rely_def)
  have h: "identity_of v1 = Inl x \<Longrightarrow> x = codec_error \<or> hostname w = Inl x" for x
    using u1 by (auto simp: identity_of_def Let_def undisturbed_def same_process_def split: sum.splits if_splits)
  have "undisturbed w w1 \<and> (\<forall>x. q = Inl x \<longrightarrow> x = os_error \<or> x = codec_error \<or> hostname w = Inl x)"
  proof (cases q1)
    case (Inl x)
    with w c1 u1 show ?thesis by (auto simp: write_holder_def)
  next
    case (Inr a)
    show ?thesis
    proof (cases "identity_of v1")
      case (Inl x)
      with w c1 Inr u1 h show ?thesis by (auto simp: write_holder_def)
    next
      case i: (Inr t)
      obtain q2 v2 where c2: "kcall (k_write t) v1 = (q2, v2)" by fastforce
      note u2 = content_call [OF c2 k1 t(2)]
      then have k2: "kernel_ok (kernel v2)" by (simp add: undisturbed_def rely_def)
      obtain q3 v3 where c3: "kcall (\<lambda>k. (Inr (), k)) v2 = (q3, v3)" by fastforce
      note u3 = idle_call [OF c3 k2]
      have "undisturbed w v2" "undisturbed w v3" using u1 u2 u3 undisturbed_trans by blast+
      with w c1 Inr i c2 c3 u2 u3 show ?thesis
        by (cases q2; cases q3) (auto simp: write_holder_def)
    qed
  qed
  then show ?thesis unfolding r by (cases q) auto
qed

lemma acquire_opens:
  assumes "kernel_ok (kernel w)" and "kcall (\<lambda>k. (Inr (), k)) w = (q, w1)" and "kcall (k_open (my_pid w1)) w1 = (q2, w2)"
  shows "same_process w w2 \<and>
     (q2 = Inl os_error \<and> rely (my_pid w) (kernel w) (kernel w2) \<or>
      (\<exists>d w3. q2 = Inr d \<and> lock_clock w2 = (lock_now w3, w3) \<and> waiting d w3 \<and> same_process w w3 \<and>
         calls w3 = calls w + 3 \<and> d \<notin> own (my_pid w) (kernel w) \<and>
         own (my_pid w) (kernel w3) = insert d (own (my_pid w) (kernel w)) \<and>
         (\<forall>j\<in>own (my_pid w) (kernel w). owner (kernel w3) = Some j \<longleftrightarrow> owner (kernel w) = Some j)))"
proof -
  note u1 = idle_call [OF assms(2,1)]
  then have k1: "kernel_ok (kernel w1)" "my_pid w1 = my_pid w"
    by (simp_all add: undisturbed_def rely_def same_process_def)
  let ?k = "kernel (moment 0 w1)"
  have m: "rely (my_pid w) (kernel w) ?k"
    using rely_trans [of "my_pid w" "kernel w" "kernel w1"] u1 moment_rely [OF k1(1)] k1(2) by (simp add: undisturbed_def)
  have s2: "same_process w w2" and c2: "calls w2 = calls w + 2"
    using same_process_trans kcall_same [OF assms(3)] kcall_same [OF assms(2)] by auto
  from assms(3) show ?thesis
  proof (cases rule: kcall_cases)
    case fails
    with m s2 show ?thesis by simp
  next
    case (runs k)
    let ?d = "next_desc ?k"
    have k2: "kernel w2 = snd (k_open (my_pid w) ?k)" "q2 = Inr ?d" using runs k1(2) by (simp_all add: k_open_def)
    have fresh: "descs ?k ?d = None" "owner ?k \<noteq> Some ?d" using rely_ok [OF m] by (auto simp: kernel_ok_def)
    have ok2: "kernel_ok (kernel w2)" using happen_ok [OF rely_ok [OF m], of "Opens (my_pid w)"] k2 by simp
    have nd: "?d \<notin> own (my_pid w) (kernel w)" using fresh(1) unfolding rely_own [OF m, symmetric] by (simp add: own_def)
    have o2: "own (my_pid w) (kernel w2) = insert ?d (own (my_pid w) (kernel w))" "owner (kernel w2) = owner ?k"
      using rely_own [OF m] k2 by (auto simp: own_def k_open_def)
    obtain w3 where c3: "lock_clock w2 = (lock_now w3, w3)" by (simp add: lock_clock_def Let_def)
    have u3: "undisturbed w2 w3" "calls w3 = calls w + 3"
      using lock_clock_outcome [OF c3 ok2] c2 by (simp_all add: undisturbed_def)
    then have "waiting ?d w3" "same_process w w3"
        "own (my_pid w) (kernel w3) = insert ?d (own (my_pid w) (kernel w))"
        "\<And>j. j \<in> own (my_pid w) (kernel w) \<Longrightarrow> owner (kernel w3) = Some j \<longleftrightarrow> owner (kernel w) = Some j"
      using waiting_later [of ?d w2 w3] ok2 o2 fresh same_process_trans [OF s2] same_processD(1) [OF s2] rely_owner [OF m]
      by (auto simp: undisturbed_def waiting_def rely_def)
    with s2 k2(2) c3 u3(2) nd show ?thesis by blast
  qed
qed

lemma acquire_outcome:
  assumes "acquire p w = Some (r, p', w')" and "kernel_ok (kernel w)"
  shows "same_process w w' \<and> kernel_ok (kernel w') \<and>
     (case r of
        Inr u \<Rightarrow> acquired p w p' w'
      | Inl x \<Rightarrow> p' = p \<and>
          (rely (my_pid w) (kernel w) (kernel w') \<and> (x = os_error \<or> (\<exists>h. x = locked_error h) \<and> lock_now w + timeout p \<le> lock_now w') \<or>
           x = codec_error \<or> x = negative_sleep \<or> hostname w = Inl x \<or> (\<exists>n. signals w n = Some x)))"
proof -
  obtain q1 w1 where c1: "kcall (\<lambda>k. (Inr (), k)) w = (q1, w1)" by fastforce
  note u1 = idle_call [OF c1 assms(2)]
  obtain q2 w2 where c2: "kcall (k_open (my_pid w1)) w1 = (q2, w2)" by fastforce
  note o2 = acquire_opens [OF assms(2) c1 c2]
  consider "q1 = Inl os_error" | "q1 = Inr ()" "q2 = Inl os_error" "rely (my_pid w) (kernel w) (kernel w2)"
    | d w3 where "q1 = Inr ()" "q2 = Inr d" "lock_clock w2 = (lock_now w3, w3)" "waiting d w3" "same_process w w3"
        "d \<notin> own (my_pid w) (kernel w)" "own (my_pid w) (kernel w3) = insert d (own (my_pid w) (kernel w))"
        "\<forall>j\<in>own (my_pid w) (kernel w). owner (kernel w3) = Some j \<longleftrightarrow> owner (kernel w) = Some j"
    using u1 o2 by blast
  then show ?thesis
  proof cases
    case 1
    with assms(1) c1 u1 show ?thesis by (auto simp: acquire_def settle_def undisturbed_def rely_def)
  next
    case 2
    with assms(1) c1 c2 o2 show ?thesis by (auto simp: acquire_def settle_def rely_def)
  next
    case w3: 3
    have p3: "my_pid w3 = my_pid w" "hostname w3 = hostname w" "signals w3 = signals w" "lock_now w \<le> lock_now w3"
      using same_processD [OF w3(5)] by simp_all
    obtain q4 w4 where l: "acquire_loop p d (lock_now w3 + timeout p) w3 = Some (q4, w4)"
      using assms(1) c1 c2 w3(1-3) by (auto simp: acquire_def)
    note o4 = acquire_loop_outcome [OF l w3(4)]
    then have s4: "same_process w w4" "kernel_ok (kernel w4)"
      using same_process_trans [OF w3(5)] by (simp_all add: wait_outcome_def)
    show ?thesis
    proof (cases q4)
      case (Inl x)
      then have "r = Inl x" "p' = p" "w' = w4" using assms(1) c1 c2 w3(1-3) l by (simp_all add: acquire_def settle_def)
      moreover have "rely (my_pid w) (kernel w) (kernel w4) \<and> (x = os_error \<or> (\<exists>h. x = locked_error h) \<and> lock_now w + timeout p \<le> lock_now w4) \<or>
          x = codec_error \<or> x = negative_sleep \<or> (\<exists>n. signals w n = Some x)"
        using o4 Inl w3(6,7,8) s4(2) p3 by (auto simp: wait_outcome_def wait_failed_def rely_def)
      ultimately show ?thesis using s4 by auto
    next
      case (Inr b)
      obtain q5 w5 where c5: "record_holder d w4 = (q5, w5)" by fastforce
      note u5 = record_holder_outcome [OF c5 s4(2)]
      have p4: "my_pid w4 = my_pid w" "hostname w4 = hostname w" using same_processD [OF s4(1)] by simp_all
      have s5: "same_process w w5" "kernel_ok (kernel w5)"
        using u5 same_process_trans [OF s4(1)] by (simp_all add: undisturbed_def rely_def)
      have "own (my_pid w) (kernel w5) = insert d (own (my_pid w) (kernel w))" "owner (kernel w5) = Some d"
        using o4 Inr u5 w3(7) p3 p4 by (auto simp: wait_outcome_def undisturbed_def rely_def)
      then have "acquired p w (p\<lparr>lock_fd := Some d, held := True\<rparr>) w5" using w3(6) by (auto simp: acquired_def)
      with assms(1) c1 c2 w3(1-3) l Inr c5 s5 u5 p4 show ?thesis
        by (cases q5) (auto simp: acquire_def settle_def)
    qed
  qed
qed

lemma record_holder_calls: "calls (snd (record_holder d w)) \<le> calls w + 3"
proof -
  have k: "calls (snd (kcall f v)) = Suc (calls v)" for f :: "kernel \<Rightarrow> unit result \<times> kernel" and v
    using kcall_same [of f v "fst (kcall f v)" "snd (kcall f v)"] by simp
  obtain q1 v1 where c1: "kcall k_truncate w = (q1, v1)" by fastforce
  with k [of k_truncate w] have n1: "calls v1 = Suc (calls w)" by simp
  have n2: "calls v = Suc (calls v1)" if "kcall (k_write t) v1 = (q, v)" for t q v
    using that k [of "k_write t" v1] by simp
  have "calls (snd (write_holder d w)) \<le> calls w + 3"
    using c1 n1 by (auto simp: write_holder_def k dest!: n2 split: sum.split prod.split)
  then show ?thesis by (auto simp: record_holder_def split: sum.split prod.split)
qed

lemma acquire_returns:
  assumes "0 < poll p" and "kernel_ok (kernel w)"
  shows "\<exists>r p' w'. acquire p w = Some (r, p', w') \<and> calls w' \<le> calls w + 4 * nat \<lceil>timeout p / poll p\<rceil> + 11"
proof -
  obtain q1 w1 where c1: "kcall (\<lambda>k. (Inr (), k)) w = (q1, w1)" by fastforce
  then have n1: "calls w1 = Suc (calls w)" using kcall_same by blast
  obtain q2 w2 where c2: "kcall (k_open (my_pid w1)) w1 = (q2, w2)" by fastforce
  then have n2: "calls w2 = Suc (calls w1)" using kcall_same by blast
  show ?thesis
  proof (cases q1)
    case (Inl x)
    with c1 n1 show ?thesis by (simp add: acquire_def settle_def)
  next
    case q1: (Inr u)
    show ?thesis
    proof (cases q2)
      case (Inl x)
      with q1 c1 c2 n1 n2 show ?thesis by (simp add: acquire_def settle_def)
    next
      case (Inr d)
      with acquire_opens [OF assms(2) c1 c2] obtain w3 where w3: "lock_clock w2 = (lock_now w3, w3)" "waiting d w3"
          "calls w3 = calls w + 3" by auto
      obtain q4 w4 where l: "acquire_loop p d (lock_now w3 + timeout p) w3 = Some (q4, w4)"
          "calls w4 \<le> calls w3 + 4 * nat \<lceil>timeout p / poll p\<rceil> + 5"
        using acquire_loop_returns [OF assms(1) w3(2), of "lock_now w3 + timeout p"] by auto
      obtain q5 w5 where c5: "record_holder d w4 = (q5, w5)" by fastforce
      then have "calls w5 \<le> calls w4 + 3" using record_holder_calls [of d w4] by simp
      with q1 Inr c1 c2 w3 l c5 show ?thesis by (cases q4; cases q5) (simp_all add: acquire_def settle_def)
    qed
  qed
qed

lemma unlock_outcome:
  assumes "unlock c d w = (r, w')" and "kernel_ok (kernel w)"
  shows "same_process w w' \<and> kernel_ok (kernel w') \<and> own (my_pid w) (kernel w') = own (my_pid w) (kernel w)"
proof -
  obtain q where "lseek_then c (kcall (k_unlock c d)) w = (q, w')"
    using assms(1) by (auto simp: unlock_lseek split: prod.splits sum.splits)
  then show ?thesis using assms(2)
  proof (cases rule: lseek_then_cases)
    case fails
    then show ?thesis by (simp add: rely_def)
  next
    case (runs w1)
    have m: "rely (my_pid w) (kernel w) (kernel (moment 0 w1))"
      using rely_trans [OF runs(2)] moment_rely [OF rely_ok [OF runs(2)]] same_processD(1) [OF runs(3)] by metis
    have s: "same_process w w'" using same_process_trans [OF runs(3)] kcall_same [OF runs(1)] by blast
    from runs(1) show ?thesis
    proof (cases rule: kcall_cases)
      case fails
      with m s show ?thesis by (simp add: rely_def)
    next
      case (runs k)
      have "k = snd (k_unlock c d (kernel (moment 0 w1)))" using runs(1) by simp
      then have "kernel_ok k" "own (my_pid w) k = own (my_pid w) (kernel (moment 0 w1))"
        using happen_ok [OF rely_ok [OF m], of "Unlocks c d"] by (auto simp: k_unlock_def own_def)
      with runs(2) m s show ?thesis by (simp add: rely_def)
    qed
  qed
qed

lemma release_outcome:
  assumes "release p w = (r, p', w')" and "lock_fd p = Some d" and "kernel_ok (kernel w)"
  shows "same_process w w' \<and> kernel_ok (kernel w') \<and> own (my_pid w) (kernel w') = own (my_pid w) (kernel w) - {d} \<and>
     owner (kernel w') \<noteq> Some d \<and>
     (p' = p\<lparr>lock_fd := None, held := False\<rparr> \<or> r = Inl os_error \<and> p' = p)"
proof -
  obtain q w1 where u: "unlock (lock_class p) d w = (q, w1)" by fastforce
  note o1 = unlock_outcome [OF u assms(3)]
  obtain q2 w2 where c: "close_call d w1 = (q2, w2)" by fastforce
  note o2 = close_call_outcome [OF c]
  have w2: "w' = w2" "p' = p\<lparr>lock_fd := None, held := False\<rparr> \<or> r = Inl os_error \<and> p' = p"
    using assms(1,2) u c o2 o1 by (auto simp: release_def split: sum.splits)
  with o1 o2 show ?thesis
    using same_process_trans [of w w1 w2] same_processD(1) [of w w1] by simp
qed

section \<open>A lock that another process holds\<close>

definition held_by :: "nat \<Rightarrow> nat \<Rightarrow> kernel \<Rightarrow> bool" where
  "held_by q d k \<longleftrightarrow> kernel_ok k \<and> owner k = Some d \<and> descs k d = Some q"

definition frees :: "nat \<Rightarrow> nat \<Rightarrow> event \<Rightarrow> bool" where
  \<comment> \<open>process \<open>q\<close> unlocks, closes or dies\<close>
  "frees q d ev \<longleftrightarrow> ev = Dies q \<or> ev = Closes d \<or> ev \<in> {Unlocks PosixFlockLock d, Unlocks WindowsLock d}"

definition guarded :: "nat \<Rightarrow> nat \<Rightarrow> lock_world \<Rightarrow> bool" where
  \<comment> \<open>another process holds the lock and keeps it\<close>
  "guarded q d w \<longleftrightarrow> held_by q d (kernel w) \<and> q \<noteq> my_pid w \<and> (\<forall>n. \<forall>ev\<in>set (others w n). \<not> frees q d ev)"

lemma happen_held: "held_by q d k \<Longrightarrow> \<not> frees q d ev \<Longrightarrow> held_by q d (happen ev k)"
proof -
  assume h: "held_by q d k" "\<not> frees q d ev"
  then have "descs k (next_desc k) = None" by (simp add: held_by_def kernel_ok_def)
  moreover have "\<And>c. ev \<noteq> Unlocks c d"
  proof
    fix c assume "ev = Unlocks c d"
    with h(2) show False by (cases c) (simp_all add: frees_def)
  qed
  ultimately show ?thesis
    using h happen_ok [of k ev] by (cases ev) (auto simp: held_by_def frees_def kernel_defs)
qed

lemma interfere_held:
  "held_by q d k \<Longrightarrow> \<forall>ev\<in>set evs. \<not> frees q d ev \<Longrightarrow> held_by q d (interfere p evs k)"
  by (induction evs arbitrary: k) (auto simp: happen_held)

lemma guarded_moment: "guarded q d w \<Longrightarrow> guarded q d (moment t w)"
  by (simp add: guarded_def moment_def interfere_held)

lemma guarded_kernel: "guarded q d w \<Longrightarrow> held_by q d k \<Longrightarrow> guarded q d (w\<lparr>kernel := k\<rparr>)"
  by (simp add: guarded_def)

lemma guarded_kcall:
  assumes "kcall f w = (r, w')" and "guarded q d w" and "\<And>k. held_by q d k \<Longrightarrow> held_by q d (snd (f k))"
  shows "guarded q d w'"
  using assms(1)
proof (cases rule: kcall_cases)
  case fails
  with guarded_moment [OF assms(2)] show ?thesis by simp
next
  case (runs k)
  have "held_by q d (kernel (moment 0 w))" using guarded_moment [OF assms(2)] by (simp add: guarded_def)
  with assms(3) runs(1) have "held_by q d k" by (metis snd_conv)
  with runs(2) guarded_moment [OF assms(2)] guarded_kernel show ?thesis by simp
qed

lemma k_lock_held: "held_by q d k \<Longrightarrow> j \<noteq> d \<Longrightarrow> k_lock c j k = (Inl os_error, k)"
  by (auto simp: k_lock_def held_by_def)

lemma guarded_try:
  assumes "try_lock c j w = (b, w')" and "guarded q d w" and "j \<noteq> d"
  shows "\<not> b \<and> guarded q d w'"
proof -
  have step: "(\<exists>x. r = Inl x) \<and> guarded q d v'" if "kcall (k_lock c j) v = (r, v')" "guarded q d v" for v r v'
  proof -
    have "guarded q d v'" by (rule guarded_kcall [OF that]) (simp add: k_lock_held assms(3))
    moreover from that(1) have "\<exists>x. r = Inl x"
    proof (cases rule: kcall_cases)
      case (runs k)
      have "held_by q d (kernel (moment 0 v))" using guarded_moment [OF that(2)] by (simp add: guarded_def)
      with runs(1) k_lock_held [OF _ assms(3), of q _ c] show ?thesis by auto
    qed simp
    ultimately show ?thesis by simp
  qed
  show ?thesis
  proof (cases c)
    case PosixFlockLock
    with assms(1) step [of w] assms(2) show ?thesis
      by (auto simp: try_lock_lseek lseek_then_def split: prod.splits sum.splits)
  next
    case WindowsLock
    obtain r w1 where l: "lseek_call w = (r, w1)" by fastforce
    then have "guarded q d w1" unfolding lseek_call_def by (rule guarded_kcall [OF _ assms(2)]) simp
    with assms(1) step [of w1] l WindowsLock show ?thesis
      by (auto simp: try_lock_lseek lseek_then_def split: prod.splits sum.splits)
  qed
qed

lemma guarded_give_up:
  assumes "guarded q d w" and "j \<noteq> d"
  shows "guarded q d (snd (give_up c j w)) \<and> (\<exists>x. fst (give_up c j w) = Inl x)"
proof -
  obtain r w1 where r: "kcall (k_read c) w = (r, w1)" by fastforce
  then have g: "guarded q d w1"
    by (rule guarded_kcall [OF _ assms(1)]) (simp add: k_read_def split: option.split)
  obtain h where h: "read_holder c w = (h, w1)"
    using r by (cases r) (simp_all add: read_holder_def split: if_splits)
  obtain a w2 where cl: "close_call j w1 = (a, w2)" by fastforce
  have "held_by q d (kernel (moment 0 w1))" using guarded_moment [OF g] by (simp add: guarded_def)
  then have "held_by q d (happen (Closes j) (kernel (moment 0 w1)))"
    by (rule happen_held) (use assms(2) in \<open>simp add: frees_def\<close>)
  then have "guarded q d w2"
    using cl guarded_moment [OF g] by (auto simp: close_call_def Let_def intro: guarded_kernel)
  with g h cl show ?thesis by (cases h; cases a) (simp_all add: give_up_def)
qed

lemma guarded_loop:
  assumes "acquire_loop p j dl w = Some out" and "guarded q d w" and "j \<noteq> d"
  shows "guarded q d (snd out) \<and> (\<exists>x. fst out = Inl x)"
proof -
  let ?P = "\<lambda>p j dl w out. guarded q d w \<and> j \<noteq> d \<longrightarrow> guarded q d (snd out) \<and> (\<exists>x. fst out = Inl x)"
  have "?P p j dl w out"
  proof (rule acquire_loop.raw_induct [where P = ?P, OF _ assms(1)], rule impI)
    fix rec p j dl w out
    assume IH: "\<And>p j dl w out. rec p j dl w = Some out \<Longrightarrow> ?P p j dl w out"
      and body: "(case try_lock (lock_class p) j w of (locked, w1) \<Rightarrow>
        if locked then Some (Inr (), w1)
        else (case lock_clock w1 of (now, w2) \<Rightarrow>
           if dl \<le> now then Some (give_up (lock_class p) j w2)
           else (case lock_sleep (poll p) w2 of (r, w3) \<Rightarrow>
             (case r of Inl x \<Rightarrow> Some (Inl x, w3) | Inr u \<Rightarrow> rec p j dl w3)))) = Some out"
      and k: "guarded q d w \<and> j \<noteq> d"
    obtain b w1 where t: "try_lock (lock_class p) j w = (b, w1)" by fastforce
    with guarded_try [OF t] k have g1: "\<not> b" "guarded q d w1" by blast+
    define w2 where "w2 = moment 0 w1"
    have c: "lock_clock w1 = (lock_now w2, w2)" "guarded q d w2"
      using guarded_moment [OF g1(2)] by (simp_all add: w2_def lock_clock_def Let_def)
    show "guarded q d (snd out) \<and> (\<exists>x. fst out = Inl x)"
    proof (cases "dl \<le> lock_now w2")
      case True
      with body t g1(1) c(1) have "out = give_up (lock_class p) j w2" by simp
      with guarded_give_up [OF c(2)] k show ?thesis by simp
    next
      case False
      obtain r w3 where s: "lock_sleep (poll p) w2 = (r, w3)" by fastforce
      then have g3: "guarded q d w3"
        using guarded_moment c(2) by (auto simp: lock_sleep_def split: if_splits option.splits)
      show ?thesis
      proof (cases r)
        case (Inl x)
        with body t g1(1) c(1) False s have "out = (Inl x, w3)" by simp
        with g3 show ?thesis by simp
      next
        case (Inr u)
        with body t g1(1) c(1) False s have "rec p j dl w3 = Some out" by simp
        with IH g3 k show ?thesis by blast
      qed
    qed
  qed
  with assms show ?thesis by blast
qed

lemma guarded_acquire:
  assumes "acquire p w = Some (r, p', w')" and "guarded q d w"
  shows "(\<exists>x. r = Inl x) \<and> p' = p \<and> guarded q d w'"
proof -
  obtain q1 w1 where c1: "kcall (\<lambda>k. (Inr (), k)) w = (q1, w1)" by fastforce
  then have g1: "guarded q d w1" by (rule guarded_kcall [OF _ assms(2)]) simp
  show ?thesis
  proof (cases q1)
    case (Inl x)
    with assms(1) c1 g1 show ?thesis by (auto simp: acquire_def settle_def)
  next
    case q1: (Inr a)
    obtain q2 w2 where c2: "kcall (k_open (my_pid w1)) w1 = (q2, w2)" by fastforce
    have g2: "guarded q d w2"
    proof (rule guarded_kcall [OF c2 g1])
      fix k assume "held_by q d k"
      then have "held_by q d (happen (Opens (my_pid w1)) k)"
        by (rule happen_held) (simp add: frees_def)
      then show "held_by q d (snd (k_open (my_pid w1) k))" by simp
    qed
    have ne: "j \<noteq> d" if "q2 = Inr j" for j
      using c2
    proof (cases rule: kcall_cases)
      case (runs k)
      have "held_by q d (kernel (moment 0 w1))" using guarded_moment [OF g1] by (simp add: guarded_def)
      then have "descs (kernel (moment 0 w1)) (next_desc (kernel (moment 0 w1))) \<noteq> descs (kernel (moment 0 w1)) d"
        by (simp add: held_by_def kernel_ok_def)
      with runs(1) that show ?thesis by (auto simp: k_open_def)
    qed (use that in simp)
    show ?thesis
    proof (cases q2)
      case (Inl x)
      with assms(1) c1 q1 c2 g2 show ?thesis by (auto simp: acquire_def settle_def)
    next
      case (Inr j)
      let ?w3 = "moment 0 w2"
      obtain q4 w4 where l: "acquire_loop p j (lock_now ?w3 + timeout p) ?w3 = Some (q4, w4)"
        using assms(1) c1 q1 c2 Inr by (auto simp: acquire_def lock_clock_def Let_def)
      from guarded_loop [OF l guarded_moment [OF g2] ne [OF Inr]]
      obtain x where "q4 = Inl x" "guarded q d w4" by auto
      with assms(1) c1 q1 c2 Inr l show ?thesis by (auto simp: acquire_def settle_def lock_clock_def Let_def)
    qed
  qed
qed

end
