(* ===== verification/Lock_Theorems.thy ===== *)
theory Lock_Theorems
  imports Lock_Inv
begin

text \<open>
  The properties of the run-scope lock, with concrete witnesses. \<open>demo_machine\<close> is a kernel
  whose lockfile does not exist yet, seen by one process while nobody interferes.
\<close>

section \<open>Quiet worlds\<close>

definition undisturbed_world :: "lock_world \<Rightarrow> bool" where
  \<comment> \<open>no other process acts, no call fails, no signal arrives\<close>
  "undisturbed_world w \<longleftrightarrow>
     (\<forall>n. others w n = []) \<and> (\<forall>n. \<not> call_fails w n) \<and> (\<forall>n. signals w n = None)"

lemma quiet_moment: "undisturbed_world w \<Longrightarrow> undisturbed_world (moment t w) \<and> kernel (moment t w) = kernel w"
  by (simp add: undisturbed_world_def moment_def)

lemma quiet_kcall:
  "undisturbed_world w \<Longrightarrow>
   kcall f w = (fst (f (kernel w)), (moment 0 w)\<lparr>kernel := snd (f (kernel w))\<rparr>)"
  by (simp add: kcall_def Let_def quiet_moment undisturbed_world_def split: prod.split)

lemma quiet_kernel [simp]: "undisturbed_world (w\<lparr>kernel := k\<rparr>) = undisturbed_world w"
  by (simp add: undisturbed_world_def)

lemma quiet_same: "undisturbed_world w \<Longrightarrow> (moment t w)\<lparr>kernel := kernel w\<rparr> = moment t w"
  by (simp add: moment_def undisturbed_world_def)

definition took :: "nat \<Rightarrow> lock_world \<Rightarrow> lock_world \<Rightarrow> bool" where
  \<comment> \<open>\<open>n\<close> calls were made, and no time passed but theirs\<close>
  "took n w w' \<longleftrightarrow>
     calls w' = calls w + n \<and> lag w' = lag w \<and> lock_now w' = lock_now w + (\<Sum>i<n. \<bar>lag w (calls w + i)\<bar>)"

lemma took_moment: "took 1 w (moment 0 w)"
  by (simp add: took_def moment_def)

lemma took_kernel [simp]: "took n w (w'\<lparr>kernel := k\<rparr>) = took n w w'"
  by (simp add: took_def)

lemma took_call: "took 1 w ((moment 0 w)\<lparr>kernel := k\<rparr>)"
  unfolding took_kernel by (rule took_moment)

lemma took_trans:
  assumes "took m w w1" and "took n w1 w2"
  shows "took (m + n) w w2"
proof -
  have "(\<Sum>i<m + n. f i) = (\<Sum>i<m. f i) + (\<Sum>i<n. f (m + i))" for f :: "nat \<Rightarrow> real"
    by (induction n) (simp_all add: add.assoc)
  with assms show ?thesis by (simp add: took_def add.assoc)
qed

lemma quiet_try:
  assumes "undisturbed_world w"
  obtains w' where "try_lock c d w = (fst (k_lock c d (kernel w)) = Inr (), w')" and "undisturbed_world w'"
    and "kernel w' = snd (k_lock c d (kernel w))" and "same_process w w'"
    and "took (if c = WindowsLock then 2 else 1) w w'"
proof (cases c)
  case PosixFlockLock
  let ?v = "(moment 0 w)\<lparr>kernel := snd (k_lock c d (kernel w))\<rparr>"
  have "try_lock c d w = (fst (k_lock c d (kernel w)) = Inr (), ?v)"
    using PosixFlockLock by (simp add: try_lock_lseek lseek_then_def quiet_kcall [OF assms] split: sum.split)
  with that quiet_moment [OF assms, of 0] moment_same [of 0 w] took_moment [of w] PosixFlockLock show ?thesis by simp
next
  case WindowsLock
  let ?u = "moment 0 w"
  have u: "undisturbed_world ?u" "kernel ?u = kernel w" using quiet_moment [OF assms] by blast+
  let ?v = "(moment 0 ?u)\<lparr>kernel := snd (k_lock c d (kernel w))\<rparr>"
  have "lseek_call w = (Inr (), ?u)" by (simp add: lseek_call_def quiet_kcall [OF assms] u(2) [symmetric])
  then have "try_lock c d w = (fst (k_lock c d (kernel w)) = Inr (), ?v)"
    using WindowsLock u(2) by (simp add: try_lock_lseek lseek_then_def quiet_kcall [OF u(1)] split: sum.split)
  moreover have "same_process w (moment 0 ?u)"
    using same_process_trans [OF moment_same [of 0 w] moment_same [of 0 ?u]] by simp
  moreover have "took 2 w (moment 0 ?u)" using took_trans [OF took_moment [of w] took_moment [of ?u]] by (simp add: numeral_2_eq_2)
  ultimately show ?thesis using that quiet_moment [OF u(1), of 0] WindowsLock by simp
qed

lemma quiet_open:
  assumes "undisturbed_world w"
  obtains w3 where "undisturbed_world w3" and "same_process w w3" and "took 3 w w3"
    and "kernel w3 = snd (k_open (my_pid w) (kernel w))"
    and "\<And>p. acquire p w = map_option (settle p (next_desc (kernel w)))
           (acquire_loop p (next_desc (kernel w)) (lock_now w3 + timeout p) w3)"
proof -
  define w1 where "w1 = moment 0 w"
  have q1: "undisturbed_world w1" "kernel w1 = kernel w" "my_pid w1 = my_pid w" "same_process w w1"
    using quiet_moment [OF assms] moment_same [of 0 w] by (simp_all add: w1_def same_process_def)
  define w2 where "w2 = (moment 0 w1)\<lparr>kernel := snd (k_open (my_pid w) (kernel w))\<rparr>"
  have q2: "undisturbed_world w2" "kernel w2 = snd (k_open (my_pid w) (kernel w))" "same_process w w2"
    using quiet_moment [OF q1(1)] same_process_trans [OF q1(4) moment_same [of 0 w1]] by (simp_all add: w2_def)
  define w3 where "w3 = moment 0 w2"
  have q3: "undisturbed_world w3" "kernel w3 = kernel w2" "same_process w w3"
    using quiet_moment [OF q2(1)] same_process_trans [OF q2(3) moment_same [of 0 w2]] by (simp_all add: w3_def)
  have c1: "kcall (\<lambda>k. (Inr (), k)) w = (Inr (), w1)"
    using quiet_kcall [OF assms, of "\<lambda>k. (Inr (), k)"] q1(2) by (simp add: w1_def)
  have c2: "kcall (k_open (my_pid w1)) w1 = (Inr (next_desc (kernel w)), w2)"
    using quiet_kcall [OF q1(1), of "k_open (my_pid w1)"] q1(2,3) by (simp add: w2_def k_open_def)
  have c3: "lock_clock w2 = (lock_now w3, w3)" by (simp add: lock_clock_def w3_def Let_def)
  have "took 1 w w1" "took 1 w1 w2" "took 1 w2 w3"
    unfolding w1_def w2_def w3_def by (rule took_moment took_call)+
  from took_trans [OF took_trans [OF this(1,2)] this(3)] have t: "took 3 w w3" by (simp add: numeral_3_eq_3)
  show ?thesis by (rule that [OF q3(1,3) t]) (simp_all add: q3(2) q2(2) acquire_def c1 c2 c3)
qed

lemma quiet_record:
  assumes "undisturbed_world w" and "hostname w = Inr n" and "utf8_ok (nat_repr (my_pid w) @ ''@'' @ n)"
  obtains w' where "record_holder d w = (Inr (), w')" and "owner (kernel w') = owner (kernel w)"
    and "content (kernel w') = Some (nat_repr (my_pid w) @ ''@'' @ n)" and "took 3 w w'"
proof -
  let ?t = "nat_repr (my_pid w) @ ''@'' @ n"
  define w1 where "w1 = (moment 0 w)\<lparr>kernel := snd (k_truncate (kernel w))\<rparr>"
  define w2 where "w2 = (moment 0 w1)\<lparr>kernel := snd (k_write ?t (kernel w1))\<rparr>"
  have q: "undisturbed_world w1" "undisturbed_world w2"
    using quiet_moment [OF assms(1)] quiet_moment [of w1] by (simp_all add: w1_def w2_def)
  have "my_pid w1 = my_pid w" "hostname w1 = hostname w" by (simp_all add: w1_def moment_def)
  then have "identity_of w1 = Inr ?t" using assms(2,3) by (simp add: identity_of_def Let_def)
  moreover have "kcall k_truncate w = (Inr (), w1)" by (simp add: quiet_kcall [OF assms(1)] w1_def k_truncate_def)
  moreover have "kcall (k_write ?t) w1 = (Inr (), w2)" by (simp add: quiet_kcall [OF q(1)] w2_def k_write_def)
  moreover have "kcall (\<lambda>k. (Inr (), k)) w2 = (Inr (), (moment 0 w2)\<lparr>kernel := kernel w2\<rparr>)"
    using quiet_kcall [OF q(2), of "\<lambda>k. (Inr (), k)"] by simp
  ultimately have "record_holder d w = (Inr (), (moment 0 w2)\<lparr>kernel := kernel w2\<rparr>)"
    by (simp add: record_holder_def write_holder_def)
  moreover have "owner (kernel w2) = owner (kernel w)" "content (kernel w2) = Some ?t"
    by (simp_all add: w2_def w1_def k_write_def k_truncate_def)
  moreover have "took 3 w ((moment 0 w2)\<lparr>kernel := kernel w2\<rparr>)"
  proof -
    have "took 1 w w1" "took 1 w1 w2" unfolding w1_def w2_def by (rule took_call)+
    from took_trans [OF took_trans [OF this] took_call [of w2]] show ?thesis by (simp add: numeral_3_eq_3)
  qed
  ultimately show ?thesis using that by simp
qed

lemma free_lock_acquired:
  assumes "undisturbed_world w" and "kernel_ok (kernel w)" and "owner (kernel w) = None"
    and "hostname w = Inr n" and "utf8_ok (nat_repr (my_pid w) @ ''@'' @ n)"
  shows "\<exists>d w'. acquire p w = Some (Inr (), p\<lparr>lock_fd := Some d, held := True\<rparr>, w') \<and>
     content (kernel w') = Some (nat_repr (my_pid w) @ ''@'' @ n) \<and> owner (kernel w') = Some d \<and>
     took (if lock_class p = WindowsLock then 8 else 7) w w'"
proof -
  let ?d = "next_desc (kernel w)"
  obtain w3 where o: "undisturbed_world w3" "same_process w w3" "took 3 w w3" "kernel w3 = snd (k_open (my_pid w) (kernel w))"
    and a: "acquire p w = map_option (settle p ?d) (acquire_loop p ?d (lock_now w3 + timeout p) w3)"
    by (rule quiet_open [OF assms(1)]) metis
  have "k_lock (lock_class p) ?d (kernel w3) = (Inr (), (kernel w3)\<lparr>owner := Some ?d\<rparr>)"
    using assms(3) by (simp add: o(4) k_open_def k_lock_def)
  moreover obtain w4 where "try_lock (lock_class p) ?d w3 = (fst (k_lock (lock_class p) ?d (kernel w3)) = Inr (), w4)"
      and t': "undisturbed_world w4" "same_process w3 w4" "took (if lock_class p = WindowsLock then 2 else 1) w3 w4"
      and k4: "kernel w4 = snd (k_lock (lock_class p) ?d (kernel w3))"
    by (rule quiet_try [OF o(1)])
  ultimately have t: "try_lock (lock_class p) ?d w3 = (True, w4)" "undisturbed_world w4" "same_process w3 w4"
    and w4: "owner (kernel w4) = Some ?d" by simp_all
  then have l: "acquire_loop p ?d dl w3 = Some (Inr (), w4)" for dl by (subst acquire_loop.simps) simp
  have "my_pid w4 = my_pid w" "hostname w4 = hostname w"
    using same_processD [OF same_process_trans [OF o(2) t(3)]] by simp_all
  with quiet_record [OF t(2), of n ?d] assms(4,5) obtain w5 where "record_holder ?d w4 = (Inr (), w5)"
      "content (kernel w5) = Some (nat_repr (my_pid w) @ ''@'' @ n)" "took 3 w4 w5" "owner (kernel w5) = owner (kernel w4)" by metis
  moreover from took_trans [OF took_trans [OF o(3) t'(3)] this(3)]
  have "took (if lock_class p = WindowsLock then 8 else 7) w w5" by (simp split: if_splits)
  ultimately show ?thesis using a l w4 by (intro exI [of _ ?d] exI [of _ w5]) (simp add: settle_def)
qed

lemma quiet_wait:
  assumes "acquire_loop p j dl w = Some out" and "undisturbed_world w" and "held_by q d (kernel w)" and "j \<noteq> d"
    and "0 \<le> poll p"
  shows "\<exists>w2. out = give_up (lock_class p) j w2 \<and> undisturbed_world w2 \<and> kernel w2 = kernel w \<and> same_process w w2 \<and> dl \<le> lock_now w2"
proof -
  let ?P = "\<lambda>p j dl w out. undisturbed_world w \<and> held_by q d (kernel w) \<and> j \<noteq> d \<and> 0 \<le> poll p \<longrightarrow>
      (\<exists>w2. out = give_up (lock_class p) j w2 \<and> undisturbed_world w2 \<and> kernel w2 = kernel w \<and> same_process w w2 \<and> dl \<le> lock_now w2)"
  have "?P p j dl w out"
  proof (rule acquire_loop.raw_induct [where P = ?P, OF _ assms(1)], rule impI)
    fix rec p j dl w out
    assume IH: "\<And>p j dl w out. rec p j dl w = Some out \<Longrightarrow> ?P p j dl w out"
      and body: "(case try_lock (lock_class p) j w of (locked, w1) \<Rightarrow>
        if locked then Some (Inr (), w1)
        else (case lock_clock w1 of (now, w2) \<Rightarrow>
           if dl \<le> now then Some (give_up (lock_class p) j w2)
           else (case lock_sleep (poll p) w2 of (r, w3) \<Rightarrow>
             (case r of Inl x \<Rightarrow> Some (Inl x, w3) | Inr u \<Rightarrow> rec p j dl w3)))) = Some out"
      and k: "undisturbed_world w \<and> held_by q d (kernel w) \<and> j \<noteq> d \<and> 0 \<le> poll p"
    have l: "k_lock (lock_class p) j (kernel w) = (Inl os_error, kernel w)" using k k_lock_held by blast
    obtain w1 where "try_lock (lock_class p) j w = (fst (k_lock (lock_class p) j (kernel w)) = Inr (), w1)"
        "undisturbed_world w1" "kernel w1 = snd (k_lock (lock_class p) j (kernel w))" "same_process w w1"
      using quiet_try [of w "lock_class p" j] k by blast
    with l have t: "try_lock (lock_class p) j w = (False, w1)" "undisturbed_world w1" "kernel w1 = kernel w"
        "same_process w w1" by simp_all
    define w2 where "w2 = moment 0 w1"
    have q2: "undisturbed_world w2" "kernel w2 = kernel w" "same_process w w2"
      using quiet_moment [OF t(2)] t(3) same_process_trans [OF t(4) moment_same [of 0 w1]] by (simp_all add: w2_def)
    have c: "lock_clock w1 = (lock_now w2, w2)" by (simp add: lock_clock_def w2_def Let_def)
    show "\<exists>w2. out = give_up (lock_class p) j w2 \<and> undisturbed_world w2 \<and> kernel w2 = kernel w \<and> same_process w w2 \<and> dl \<le> lock_now w2"
    proof (cases "dl \<le> lock_now w2")
      case True
      with body t(1) c q2 show ?thesis by auto
    next
      case False
      define w3 where "w3 = moment (poll p) w2"
      have q3: "undisturbed_world w3" "kernel w3 = kernel w" "same_process w w3"
        using quiet_moment [OF q2(1)] q2(2) same_process_trans [OF q2(3) moment_same [of "poll p" w2]] k by (simp_all add: w3_def)
      have "lock_sleep (poll p) w2 = (Inr (), w3)"
        using q2(1) k by (simp add: lock_sleep_def w3_def undisturbed_world_def)
      with body t(1) c False have "rec p j dl w3 = Some out" by simp
      from IH [OF this] q3 k obtain v where "out = give_up (lock_class p) j v" "undisturbed_world v" "kernel v = kernel w" "same_process w3 v"
          "dl \<le> lock_now v" by auto
      with same_process_trans [OF q3(3)] show ?thesis by blast
    qed
  qed
  with assms show ?thesis by blast
qed

section \<open>A machine with one process\<close>

definition demo_kernel :: kernel where
  "demo_kernel = \<lparr>content = None, descs = Map.empty, owner = None, next_desc = 3\<rparr>"

definition demo_machine :: "nat \<Rightarrow> kernel \<Rightarrow> lock_world" where
  "demo_machine p k =
     \<lparr>kernel = k, my_pid = p, hostname = Inr ''host'', others = (\<lambda>n. []), call_fails = (\<lambda>n. False),
      signals = (\<lambda>n. None), lag = (\<lambda>n. 1), lock_now = 0, calls = 0\<rparr>"

lemma demo_machine_simps [simp]:
  "kernel (demo_machine p k) = k" "my_pid (demo_machine p k) = p" "hostname (demo_machine p k) = Inr ''host''"
  "others (demo_machine p k) n = []" "undisturbed_world (demo_machine p k)" "signals (demo_machine p k) n = None"
  by (simp_all add: demo_machine_def undisturbed_world_def)

lemma demo_kernel_ok: "kernel_ok demo_kernel"
  by (simp add: kernel_ok_def demo_kernel_def)

lemma demo_identity: "utf8_ok (nat_repr p @ ''@'' @ ''host'')"
  by (rule utf8_ascii) (use nat_repr_digits [of p] in \<open>fastforce simp: is_digit_def Let_def\<close>)

lemma acquired_held:
  assumes "acquire p w = Some (Inr u, p', w')" and "kernel_ok (kernel w)"
  shows "held_by (my_pid w) (the (lock_fd p')) (kernel w')"
proof -
  from acquire_outcome [OF assms] have k: "kernel_ok (kernel w')" and a: "acquired p w p' w'" by simp_all
  from a obtain d where d: "p' = p\<lparr>lock_fd := Some d, held := True\<rparr>" "owner (kernel w') = Some d"
      "own (my_pid w) (kernel w') = insert d (own (my_pid w) (kernel w))"
    unfolding acquired_def by blast
  then have "d \<in> own (my_pid w) (kernel w')" by simp
  with k d(1,2) show ?thesis by (simp add: held_by_def own_def)
qed

lemma demo_acquired:
  obtains d w' where "acquire p (demo_machine 1 demo_kernel) = Some (Inr (), p\<lparr>lock_fd := Some d, held := True\<rparr>, w')"
    and "content (kernel w') = Some (nat_repr 1 @ ''@host'')" and "held_by 1 d (kernel w')"
proof -
  have "owner (kernel (demo_machine 1 demo_kernel)) = None" by (simp add: demo_kernel_def)
  then have "\<exists>d w'. acquire p (demo_machine 1 demo_kernel) = Some (Inr (), p\<lparr>lock_fd := Some d, held := True\<rparr>, w') \<and>
      content (kernel w') = Some (nat_repr (my_pid (demo_machine 1 demo_kernel)) @ ''@'' @ ''host'') \<and>
      owner (kernel w') = Some d \<and> took (if lock_class p = WindowsLock then 8 else 7) (demo_machine 1 demo_kernel) w'"
    by (intro free_lock_acquired) (simp_all only: demo_machine_simps demo_kernel_ok demo_identity)
  then obtain d w' where a: "acquire p (demo_machine 1 demo_kernel) = Some (Inr (), p\<lparr>lock_fd := Some d, held := True\<rparr>, w')"
    and c: "content (kernel w') = Some (nat_repr 1 @ ''@'' @ ''host'')"
    unfolding demo_machine_simps by (elim exE conjE)
  from acquired_held [OF a] demo_kernel_ok have "held_by 1 d (kernel w')" by simp
  with a c that show ?thesis by simp
qed

section \<open>Properties\<close>

text \<open>C10: The lock excludes other processes. Once acquire has returned, and whatever the other
  processes did since, an acquire of another process on the same lockfile does not return
  normally, and leaves the owner and its own lock object as they were, unless the holder
  unlocks, closes or dies: there is no takeover, however long the holder lasts.\<close>
theorem lock_excludes:
  assumes "acquire p w = Some (Inr (), p', w')" and "kernel_ok (kernel w)"
    and "kernel v = interfere (my_pid w) evs (kernel w')" and "my_pid v \<noteq> my_pid w"
    and "\<forall>n. \<forall>ev\<in>set (others v n). \<not> frees (my_pid w) (the (lock_fd p')) ev"
    and "acquire q v = Some (r, q', v')"
  shows "(\<exists>x. r = Inl x) \<and> q' = q \<and> owner (kernel v') = lock_fd p'"
proof -
  from acquire_outcome [OF assms(1,2)] obtain d where d: "lock_fd p' = Some d" "d \<in> own (my_pid w) (kernel w')"
      "owner (kernel w') = Some d" "kernel_ok (kernel w')" by (auto simp: acquired_def)
  have k: "rely (my_pid w) (kernel w') (kernel v)" using interfere_rely [OF d(4)] assms(3) by simp
  have "d \<in> own (my_pid w) (kernel v)" using rely_own [OF k] d(2) by simp
  moreover have "owner (kernel v) = Some d" using rely_owner [OF k d(2)] d(3) by simp
  ultimately have "guarded (my_pid w) d v"
    using rely_ok [OF k] assms(4,5) d(1) by (simp add: guarded_def held_by_def own_def)
  from guarded_acquire [OF assms(6) this] d(1) show ?thesis by (simp add: guarded_def held_by_def)
qed

theorem lock_excludes_witness:
  "\<exists>v r v'. acquire (make_lock False 30 (1 / 2)) v = Some (r, make_lock False 30 (1 / 2), v') \<and> (\<exists>x. r = Inl x)"
proof -
  let ?p = "make_lock False 30 (1 / 2)"
  obtain d w' where a: "acquire ?p (demo_machine 1 demo_kernel) = Some (Inr (), ?p\<lparr>lock_fd := Some d, held := True\<rparr>, w')"
    and h: "held_by 1 d (kernel w')" by (rule demo_acquired)
  let ?v = "demo_machine 2 (kernel w')"
  have "0 < poll ?p" by (simp add: make_lock_def)
  then obtain r q' v' where q: "acquire ?p ?v = Some (r, q', v')"
    using acquire_returns [of ?p ?v] h by (auto simp: held_by_def)
  from lock_excludes [OF a _ _ _ _ q, of "[]"] demo_kernel_ok q show ?thesis by auto
qed

text \<open>C33: Waiting for the lock ends. With a positive poll interval acquire returns or raises, after
  at most four system calls per poll interval that fits in the timeout and eleven more,
  whatever the other processes do and whichever calls fail.\<close>
theorem lock_wait_ends:
  assumes "0 < poll p" and "kernel_ok (kernel w)"
  shows "\<exists>r p' w'. acquire p w = Some (r, p', w') \<and> calls w' \<le> calls w + 4 * nat \<lceil>timeout p / poll p\<rceil> + 11"
  using assms by (rule acquire_returns)

theorem lock_wait_ends_witness:
  "\<exists>r p' w'. acquire (make_lock False 30 (1 / 2)) (demo_machine 1 demo_kernel) = Some (r, p', w') \<and> calls w' \<le> 251"
proof -
  have "0 < poll (make_lock False 30 (1 / 2))" "kernel_ok (kernel (demo_machine 1 demo_kernel))"
    by (simp_all add: make_lock_def demo_kernel_ok)
  from lock_wait_ends [OF this] show ?thesis by (simp add: make_lock_def demo_machine_def)
qed

text \<open>C34: A contended acquire closes its descriptor and names the holder, except on Windows and
  unless the lockfile is not text. While nothing else happens and another descriptor holds the lock,
  of this process or of another, acquire waits until the timeout has passed. With flock it raises
  CacheLockedError with the stripped content of the lockfile, its own descriptor closed; when that
  content is not UTF-8, UnicodeDecodeError escapes instead and the descriptor stays open. With
  msvcrt.locking the held byte cannot be read, so CacheLockedError always names the holder unknown.\<close>
theorem contention_reported:
  assumes "undisturbed_world w" and "held_by q d (kernel w)" and "content (kernel w) = Some t" and "0 \<le> poll p"
    and "acquire p w = Some (r, p', w')"
  shows "p' = p \<and> owner (kernel w') = Some d \<and> lock_now w + timeout p \<le> lock_now w' \<and>
     (case lock_class p of
        WindowsLock \<Rightarrow> r = Inl (locked_error ''unknown'') \<and> descs (kernel w') = descs (kernel w)
      | PosixFlockLock \<Rightarrow>
          if utf8_ok t then r = Inl (locked_error (holder_name t)) \<and> descs (kernel w') = descs (kernel w)
          else r = Inl codec_error \<and> descs (kernel w') = (descs (kernel w))(next_desc (kernel w) \<mapsto> my_pid w))"
proof -
  let ?j = "next_desc (kernel w)"
  have j: "descs (kernel w) ?j = None" "?j \<noteq> d" "owner (kernel w) = Some d"
    using assms(2) by (auto simp: held_by_def kernel_ok_def)
  obtain w3 where o: "undisturbed_world w3" "same_process w w3" "kernel w3 = snd (k_open (my_pid w) (kernel w))"
    and a: "acquire p w = map_option (settle p ?j) (acquire_loop p ?j (lock_now w3 + timeout p) w3)"
    by (rule quiet_open [OF assms(1)]) metis
  from assms(5) obtain out where l: "acquire_loop p ?j (lock_now w3 + timeout p) w3 = Some out" "settle p ?j out = (r, p', w')"
    unfolding a by (auto simp: map_option_case split: option.splits)
  have "held_by q d (happen (Opens (my_pid w)) (kernel w))" by (rule happen_held [OF assms(2)]) (simp add: frees_def)
  then have "held_by q d (kernel w3)" by (simp add: o(3))
  from quiet_wait [OF l(1) o(1) this j(2) assms(4)] obtain v where v: "out = give_up (lock_class p) ?j v" "undisturbed_world v"
      "kernel v = kernel w3" "same_process w3 v" "lock_now w3 + timeout p \<le> lock_now v" by blast
  define v1 where "v1 = moment 0 v"
  have v1: "undisturbed_world v1" "kernel v1 = kernel w3" "lock_now v \<le> lock_now v1"
    using quiet_moment [OF v(2)] v(3) moment_now [of 0 v] by (simp_all add: v1_def)
  have now: "lock_now w + timeout p \<le> lock_now v1" "lock_now v1 \<le> lock_now (moment 0 v1)"
    using v(5) v1(3) same_processD(2) [OF o(2)] moment_now [of 0 v1] by simp_all
  define named where "named = (if lock_class p = WindowsLock then Inr ''unknown'' else if utf8_ok t then Inr (holder_name t) else Inl codec_error)"
  have h: "read_holder (lock_class p) v = (named, v1)"
  proof -
    have "content (kernel v) = Some t" "owner (kernel v) = Some d" using assms(3) j(3) v(3) o(3) by (simp_all add: k_open_def)
    then show ?thesis
      by (simp add: named_def read_holder_def quiet_kcall [OF v(2)] k_read_def quiet_same [OF v(2)] v1_def)
  qed
  have kept: "descs (kernel (v1\<lparr>kernel := snd (k_close ?j (kernel v1))\<rparr>)) = descs (kernel w)"
    "owner (snd (k_close ?j (kernel v1))) = Some d"
    using v1(2) o(3) j by (auto simp: k_open_def k_close_def fun_upd_idem)
  show ?thesis
  proof (cases named)
    case (Inl x)
    then have n: "lock_class p = PosixFlockLock" "\<not> utf8_ok t" "x = codec_error"
      by (cases "lock_class p"; simp add: named_def split: if_splits)+
    have "out = (Inl x, v1)" using h v(1) Inl by (simp add: give_up_def)
    with l(2) n v1(2) o(3) j now show ?thesis by (auto simp: settle_def k_open_def)
  next
    case (Inr m)
    let ?v2 = "(moment 0 v1)\<lparr>kernel := snd (k_close ?j (kernel v1))\<rparr>"
    have "close_call ?j v1 = (Inr (), ?v2)"
      using v1(1) quiet_moment [OF v1(1), of 0] by (simp add: close_call_def Let_def undisturbed_world_def)
    then have "out = (Inl (locked_error m), ?v2)" using h v(1) Inr by (simp add: give_up_def)
    with l(2) now kept have e: "r = Inl (locked_error m)" "p' = p" "descs (kernel w') = descs (kernel w)"
        "owner (kernel w') = Some d" "lock_now w + timeout p \<le> lock_now w'" by (auto simp: settle_def)
    show ?thesis using e Inr by (cases "lock_class p") (auto simp: named_def split: if_splits)
  qed
qed

theorem contention_reported_witness:
  "\<exists>w'. acquire (make_lock False 30 (1 / 2)) (demo_machine 2 (demo_kernel\<lparr>content := Some [CHR 0xFF],
       descs := [2 \<mapsto> 1], owner := Some 2\<rparr>)) = Some (Inl codec_error, make_lock False 30 (1 / 2), w') \<and>
     descs (kernel w') = [2 \<mapsto> 1, 3 \<mapsto> 2]"
proof -
  let ?k = "demo_kernel\<lparr>content := Some [CHR 0xFF], descs := [2 \<mapsto> 1], owner := Some 2\<rparr>"
  let ?p = "make_lock False 30 (1 / 2)"
  have h: "held_by 1 2 ?k" by (simp add: held_by_def kernel_ok_def demo_kernel_def)
  have "0 < poll ?p" by (simp add: make_lock_def)
  then obtain r p' w' where a: "acquire ?p (demo_machine 2 ?k) = Some (r, p', w')"
    using acquire_returns [of ?p "demo_machine 2 ?k"] h by (auto simp: held_by_def)
  have "\<not> utf8_ok [CHR 0xFF]" by code_simp
  with contention_reported [OF _ _ _ _ a, of 1 2 "[CHR 0xFF]"] h a \<open>0 < poll ?p\<close> show ?thesis
    by (auto simp: demo_kernel_def make_lock_def)
qed

text \<open>Releasing always gives the lock up. Even when unlocking raises, the descriptor is closed,
  the kernel no longer names it as the owner, and the object is no longer held, unless the close
  itself reports an error.\<close>
lemma release_gives_up:
  assumes "acquire p w = Some (Inr (), p1, w1)" and "kernel_ok (kernel w)" and "release p1 w1 = (r, p', w')"
  shows "own (my_pid w) (kernel w') = own (my_pid w) (kernel w) \<and> owner (kernel w') \<noteq> lock_fd p1 \<and>
     (\<not> held p' \<and> lock_fd p' = None \<or> r = Inl os_error \<and> p' = p1)"
proof -
  from acquire_outcome [OF assms(1,2)] obtain d where d: "p1 = p\<lparr>lock_fd := Some d, held := True\<rparr>"
      "d \<notin> own (my_pid w) (kernel w)" "own (my_pid w) (kernel w1) = insert d (own (my_pid w) (kernel w))"
      "kernel_ok (kernel w1)" "my_pid w1 = my_pid w" by (auto simp: acquired_def same_process_def)
  have "lock_fd p1 = Some d" by (simp add: d(1))
  from release_outcome [OF assms(3) this d(4)] d show ?thesis by auto
qed

lemma demo_released:
  obtains d w1 p' w' where "acquire (make_lock False 30 (1 / 2)) (demo_machine 1 demo_kernel) =
      Some (Inr (), (make_lock False 30 (1 / 2))\<lparr>lock_fd := Some d, held := True\<rparr>, w1)"
    and "release ((make_lock False 30 (1 / 2))\<lparr>lock_fd := Some d, held := True\<rparr>) w1 = (Inr (), p', w')"
proof -
  let ?p = "make_lock False 30 (1 / 2)"
  obtain d w1 where a: "acquire ?p (demo_machine 1 demo_kernel) = Some (Inr (), ?p\<lparr>lock_fd := Some d, held := True\<rparr>, w1)"
    and h: "held_by 1 d (kernel w1)" by (rule demo_acquired)
  let ?p1 = "?p\<lparr>lock_fd := Some d, held := True\<rparr>"
  have "same_process (demo_machine 1 demo_kernel) w1" using acquire_outcome [OF a] demo_kernel_ok by simp
  then have q: "undisturbed_world w1"
    using demo_machine_simps(5) [of 1 demo_kernel] unfolding same_process_def undisturbed_world_def by metis
  obtain r p' w' where r: "release ?p1 w1 = (r, p', w')" by (metis surj_pair)
  then have "r = Inr ()"
    using q h quiet_moment [OF q]
    by (auto simp: release_def unlock_lseek lseek_then_def make_lock_def quiet_kcall [OF q] k_unlock_def held_by_def
        close_call_def Let_def undisturbed_world_def moment_def)
  with a r that show ?thesis by blast
qed

text \<open>C36: The body of \<open>with lock:\<close> runs under the lock, and the lock is given up on every way out.
  When acquire raises the body does not run and its exception is what the statement raises. Otherwise
  the body runs once, with this process's new descriptor the owner of the lock when it starts and when
  it ends, whatever other processes do, as long as the body itself does not touch the descriptor.
  Afterwards, also when the body raised or unlocking fails, the descriptor is closed, the kernel no
  longer names it as the owner, and the object is not held, unless the close itself reports an
  error: then the object still claims the lock. The outcome is the body's, unless release raises.\<close>
theorem lock_scoped:
  assumes "with_lock p body w = Some (r, p', w')" and "kernel_ok (kernel w)"
    and "\<forall>q v x v'. body q v = (x, v') \<longrightarrow> kernel_ok (kernel v) \<longrightarrow> undisturbed v v'"
  shows "(\<exists>x. r = Inl x \<and> acquire p w = Some (Inl x, p', w')) \<or>
    (\<exists>p1 w1 x w2 rel. acquire p w = Some (Inr (), p1, w1) \<and> body p1 w1 = (x, w2) \<and> release p1 w2 = (rel, p', w') \<and>
       held p1 \<and> lock_fd p1 \<noteq> None \<and> owner (kernel w1) = lock_fd p1 \<and> owner (kernel w2) = lock_fd p1 \<and>
       own (my_pid w) (kernel w') = own (my_pid w) (kernel w) \<and> owner (kernel w') \<noteq> lock_fd p1 \<and>
       r = (case rel of Inl y \<Rightarrow> Inl y | Inr u \<Rightarrow> x) \<and>
       (\<not> held p' \<and> lock_fd p' = None \<or> rel = Inl os_error \<and> p' = p1))"
proof -
  from assms(1) obtain a p1 w1 where a: "acquire p w = Some (a, p1, w1)"
    by (auto simp: with_lock_def split: option.splits)
  show ?thesis
  proof (cases a)
    case (Inl x)
    with assms(1) a show ?thesis by (auto simp: with_lock_def)
  next
    case (Inr u)
    obtain x w2 where b: "body p1 w1 = (x, w2)" by fastforce
    obtain rel q w3 where l: "release p1 w2 = (rel, q, w3)" by (metis surj_pair)
    have e: "q = p'" "w3 = w'" "r = (case rel of Inl y \<Rightarrow> Inl y | Inr u \<Rightarrow> x)"
      using assms(1) a b l Inr by (auto simp: with_lock_def split: sum.splits)
    from acquire_outcome [OF a assms(2)] Inr obtain d where d: "p1 = p\<lparr>lock_fd := Some d, held := True\<rparr>"
        "d \<notin> own (my_pid w) (kernel w)" "own (my_pid w) (kernel w1) = insert d (own (my_pid w) (kernel w))"
        "owner (kernel w1) = Some d" "kernel_ok (kernel w1)" "my_pid w1 = my_pid w"
      by (auto simp: acquired_def same_process_def)
    have m: "undisturbed w1 w2" using assms(3) b d(5) by blast
    then have s: "my_pid w2 = my_pid w" "kernel_ok (kernel w2)" "own (my_pid w) (kernel w2) = own (my_pid w) (kernel w1)"
        "owner (kernel w2) = Some d"
      using d(3,4,6) by (auto simp: undisturbed_def rely_def same_process_def)
    have f: "lock_fd p1 = Some d" "held p1" by (simp_all add: d(1))
    from release_outcome [OF l f(1) s(2)] s d(1-3) e
    have "own (my_pid w) (kernel w') = own (my_pid w) (kernel w)" "owner (kernel w') \<noteq> Some d"
        "\<not> held p' \<and> lock_fd p' = None \<or> rel = Inl os_error \<and> p' = p1" by auto
    with a Inr b l e f d(4) s(4) show ?thesis
      by (intro disjI2 exI [of _ p1] exI [of _ w1] exI [of _ x] exI [of _ w2] exI [of _ rel]) simp
  qed
qed

theorem lock_scoped_witness:
  "\<exists>d p' w'. with_lock (make_lock False 30 (1 / 2)) (\<lambda>q v. (Inr (lock_fd q), v)) (demo_machine 1 demo_kernel) =
      Some (Inr (Some d), p', w') \<and> owner (kernel w') \<noteq> Some d \<and> \<not> held p'"
proof -
  let ?p = "make_lock False 30 (1 / 2)" and ?body = "\<lambda>q v. (Inr (lock_fd q), v)"
  obtain d w1 p' w' where a: "acquire ?p (demo_machine 1 demo_kernel) = Some (Inr (), ?p\<lparr>lock_fd := Some d, held := True\<rparr>, w1)"
    and l: "release (?p\<lparr>lock_fd := Some d, held := True\<rparr>) w1 = (Inr (), p', w')" by (rule demo_released)
  have b: "with_lock ?p ?body (demo_machine 1 demo_kernel) = Some (Inr (Some d), p', w')"
    unfolding with_lock_def a by (simp add: l)
  have u: "\<forall>q v x v'. ?body q v = (x, v') \<longrightarrow> kernel_ok (kernel v) \<longrightarrow> undisturbed v v'"
    by (auto simp: undisturbed_def rely_refl)
  have "kernel_ok (kernel (demo_machine 1 demo_kernel))" using demo_kernel_ok by simp
  from lock_scoped [OF b this u] a l b show ?thesis by auto
qed

text \<open>C35: A dead holder never blocks. When the process that holds the lock dies, an undisturbed
  acquire of any process, whatever its timeout and poll interval, owns the lock after its first try
  and without a sleep: seven system calls (eight on Windows, which seeks before it locks), of which
  one is the try and three record its own identity in the lockfile, and no time passes but that of
  these calls.\<close>
theorem death_frees_lock:
  assumes "acquire p w = Some (Inr (), p', w')" and "kernel_ok (kernel w)"
    and "kernel v = k_die (my_pid w) (kernel w')" and "undisturbed_world v" and "hostname v = Inr n"
    and "utf8_ok (nat_repr (my_pid v) @ ''@'' @ n)"
  shows "\<exists>d v'. acquire q v = Some (Inr (), q\<lparr>lock_fd := Some d, held := True\<rparr>, v') \<and>
     content (kernel v') = Some (nat_repr (my_pid v) @ ''@'' @ n) \<and> owner (kernel v') = Some d \<and>
     calls v' = calls v + (if lock_class q = WindowsLock then 8 else 7) \<and>
     lock_now v' = lock_now v + (\<Sum>i<calls v' - calls v. \<bar>lag v (calls v + i)\<bar>)"
proof -
  from acquire_outcome [OF assms(1,2)] obtain d where d: "owner (kernel w') = Some d" "d \<in> own (my_pid w) (kernel w')"
      "kernel_ok (kernel w')" by (auto simp: acquired_def)
  have "kernel_ok (kernel v)" using happen_ok [OF d(3), of "Dies (my_pid w)"] assms(3) by simp
  moreover have "owner (kernel v) = None" using d(1,2) assms(3) by (simp add: k_die_def own_def)
  ultimately obtain e v' where "acquire q v = Some (Inr (), q\<lparr>lock_fd := Some e, held := True\<rparr>, v')"
      "content (kernel v') = Some (nat_repr (my_pid v) @ ''@'' @ n)" "owner (kernel v') = Some e"
      "took (if lock_class q = WindowsLock then 8 else 7) v v'"
    using free_lock_acquired [OF assms(4) _ _ assms(5,6), of q] by blast
  then show ?thesis by (intro exI [of _ e] exI [of _ v']) (simp add: took_def)
qed

theorem death_frees_lock_witness:
  "\<exists>v d v'. acquire (make_lock False 30 (1 / 2)) v =
     Some (Inr (), (make_lock False 30 (1 / 2))\<lparr>lock_fd := Some d, held := True\<rparr>, v') \<and>
     content (kernel v') = Some ''2@host'' \<and> calls v' = calls v + 7"
proof -
  let ?p = "make_lock False 30 (1 / 2)"
  obtain d w1 where a: "acquire ?p (demo_machine 1 demo_kernel) = Some (Inr (), ?p\<lparr>lock_fd := Some d, held := True\<rparr>, w1)"
    by (rule demo_acquired)
  have t: "nat_repr 2 @ ''@'' @ ''host'' = ''2@host''" by code_simp
  have c: "lock_class ?p = PosixFlockLock" by (simp add: make_lock_def)
  let ?v = "demo_machine 2 (k_die 1 (kernel w1))"
  have v: "kernel ?v = k_die (my_pid (demo_machine 1 demo_kernel)) (kernel w1)" "undisturbed_world ?v" "hostname ?v = Inr ''host''"
    "utf8_ok (nat_repr (my_pid ?v) @ ''@'' @ ''host'')" "kernel_ok (kernel (demo_machine 1 demo_kernel))"
    by (simp_all only: demo_machine_simps demo_kernel_ok demo_identity)
  from death_frees_lock [OF a v(5,1-4), of ?p] show ?thesis unfolding demo_machine_simps t c by auto
qed

end
