(* ===== verification/Fs_Policy.thy ===== *)
theory Fs_Policy
  imports Os_Files Classifiers "HOL-Library.Word"
begin

text \<open>
  The filesystem policy of \<open>src/resumable_batch/durability.py\<close>: which filesystem a cache path
  is on, by the platform's own call, and whether the durable cache may be used there. What the
  calls of the operating system return is an environment: resolved paths, existing paths, the
  buffer \<open>statfs\<close> fills, the answers of the Windows volume functions. Buffers are byte lists
  and the integer read from one is a 64-bit word, little-endian as on the x86-64 Linux the
  source names.
\<close>

unbundle bit_operations_syntax

datatype fs_policy = FAIL_CLOSED | REQUIRE | ALLOW

datatype platform = Linux | MacOS | Windows

record fs_env =
  platform :: platform
  realpath :: "string \<Rightarrow> string"
  path_exists :: "string \<Rightarrow> bool"
  abspath :: "string \<Rightarrow> string"
  statfs :: "string \<Rightarrow> string result" \<comment> \<open>the buffer, or the exception of a failing call\<close>
  drive_type :: "string \<Rightarrow> int result" \<comment> \<open>\<open>GetDriveTypeW\<close>\<close>
  volume_fs :: "string \<Rightarrow> string option result" \<comment> \<open>\<open>GetVolumeInformationW\<close>; \<open>None\<close>: it returned zero\<close>

section \<open>Linux: magic numbers\<close>

definition FS_MAGIC :: "(int, string) dict" where
  "FS_MAGIC =
     [(0xEF53, ''ext''), (0x58465342, ''xfs''), (0x9123683E, ''btrfs''), (0x01021994, ''tmpfs''),
      (0x794C7630, ''overlay''), (0x6969, ''nfs''), (0xFF534D42, ''cifs''), (0x65735546, ''fuse'')]"

definition DURABLE_FS_ALLOWLIST :: "string set" where
  "DURABLE_FS_ALLOWLIST = {''ext'', ''ext4'', ''xfs'', ''ntfs'', ''apfs'', ''hfs''}"

fun word_of_le :: "string \<Rightarrow> 64 word" where
  "word_of_le [] = 0"
| "word_of_le (c # cs) = of_nat (of_char c) + push_bit 8 (word_of_le cs)"

definition unpack_q :: "string \<Rightarrow> int" where
  \<comment> \<open>\<open>struct.unpack_from("q", raw, 0)\<close>\<close>
  "unpack_q raw = sint (word_of_le (take 8 raw))"

definition statfs_f_type :: "fs_env \<Rightarrow> string \<Rightarrow> int result" where
  "statfs_f_type env path =
     (case statfs env path of Inl x \<Rightarrow> Inl x | Inr raw \<Rightarrow> Inr (unpack_q raw AND 0xFFFFFFFF))"

fun hex_repr :: "nat \<Rightarrow> string" where
  \<comment> \<open>\<open>format(n, "x")\<close>\<close>
  "hex_repr n = (if n < 16 then [hex_digit n] else hex_repr (n div 16) @ [hex_digit (n mod 16)])"

declare hex_repr.simps [simp del]

definition unknown :: "string \<Rightarrow> string" where
  "unknown why = ''unknown('' @ why @ '')''"

section \<open>macOS: the name of the filesystem type\<close>

definition FSTYPENAME_OFF :: nat where
  "FSTYPENAME_OFF = 72"

definition MFSTYPENAMELEN :: nat where
  "MFSTYPENAMELEN = 16"

definition nul :: char where
  "nul = CHR 0x00"

definition is_alnum :: "char \<Rightarrow> bool" where
  \<comment> \<open>\<open>bytes.isalnum\<close>, of one byte\<close>
  "is_alnum c \<longleftrightarrow> (let n = of_char c :: nat in 48 \<le> n \<and> n \<le> 57 \<or> 65 \<le> n \<and> n \<le> 90 \<or> 97 \<le> n \<and> n \<le> 122)"

definition fs_token :: "string \<Rightarrow> bool" where
  \<comment> \<open>\<open>name.isascii() and name.replace(b"_", b"").isalnum()\<close>\<close>
  "fs_token name \<longleftrightarrow>
     (let bare = filter (\<lambda>c. c \<noteq> CHR ''_'') name
      in list_all (\<lambda>c. (of_char c :: nat) < 128) name \<and> bare \<noteq> [] \<and> list_all is_alnum bare)"

definition fstypename :: "string \<Rightarrow> string result" where
  \<comment> \<open>the checks on the 16-byte field\<close>
  "fstypename raw =
     (let name = takeWhile (\<lambda>c. c \<noteq> nul) raw
      in if name = raw \<or> name = [] then Inl (Exn PyValueError ''f_fstypename not a non-empty C string'')
         else if drop (length name) raw \<noteq> replicate (MFSTYPENAMELEN - length name) nul
           then Inl (Exn PyValueError ''f_fstypename padding not zeroed'')
         else if \<not> fs_token name then Inl (Exn PyValueError ''f_fstypename not an fs-name token'')
         else Inr (py_lower name))"

definition statfs_fstypename_macos :: "fs_env \<Rightarrow> string \<Rightarrow> string result" where
  "statfs_fstypename_macos env path =
     (case statfs env path of
        Inl x \<Rightarrow> Inl x
      | Inr buf \<Rightarrow> fstypename (take MFSTYPENAMELEN (drop FSTYPENAME_OFF buf)))"

section \<open>Paths\<close>

definition rstrip :: "char list \<Rightarrow> string \<Rightarrow> string" where
  "rstrip cs s = rev (dropWhile (\<lambda>c. c \<in> set cs) (rev s))"

definition upto_last :: "char list \<Rightarrow> string \<Rightarrow> string" where
  \<comment> \<open>up to and with the last of the separators\<close>
  "upto_last cs s = rev (dropWhile (\<lambda>c. c \<notin> set cs) (rev s))"

definition posix_dirname :: "string \<Rightarrow> string" where
  "posix_dirname p =
     (let head = upto_last ''/'' p
      in if list_all (\<lambda>c. c = CHR ''/'') head then head else rstrip ''/'' head)"

definition backslash :: char where
  "backslash = CHR 0x5C"

abbreviation nt_seps :: "char list" where
  "nt_seps \<equiv> [backslash, CHR ''/'']"

fun index_of :: "(char \<Rightarrow> bool) \<Rightarrow> nat \<Rightarrow> string \<Rightarrow> nat option" where
  \<comment> \<open>\<open>s.find(sep, start)\<close>\<close>
  "index_of P start [] = None"
| "index_of P start (c # cs) =
     (if start = 0 then (if P c then Some 0 else map_option Suc (index_of P 0 cs))
      else map_option Suc (index_of P (start - 1) cs))"

definition nt_drive_len :: "string \<Rightarrow> nat" where
  \<comment> \<open>the length of the drive or of the UNC share in \<open>ntpath.splitroot\<close>\<close>
  "nt_drive_len p =
     (let sep = (\<lambda>c. c \<in> set nt_seps); dev = [backslash, backslash, CHR ''?'', backslash] @ ''UNC'' @ [backslash];
          norm = map (\<lambda>c. if c = CHR ''/'' then backslash else c) p
      in if take 1 norm = [backslash] then
           (if take 1 (drop 1 norm) = [backslash] then
              (let start = (if py_lower (take 8 norm) = py_lower dev then 8 else 2)
               in case index_of sep start p of
                    None \<Rightarrow> length p
                  | Some i \<Rightarrow> (case index_of sep (Suc i) p of None \<Rightarrow> length p | Some j \<Rightarrow> j))
            else 0)
         else if take 1 (drop 1 norm) = '':'' then 2
         else 0)"

definition nt_root_len :: "string \<Rightarrow> nat" where
  \<comment> \<open>the length of drive and root\<close>
  "nt_root_len p =
     (let d = nt_drive_len p
      in if d < length p \<and> p ! d \<in> set nt_seps then Suc d else d)"

definition nt_drive :: "string \<Rightarrow> string" where
  \<comment> \<open>\<open>os.path.splitdrive(p)[0]\<close>\<close>
  "nt_drive p = take (nt_drive_len p) p"

definition nt_dirname :: "string \<Rightarrow> string" where
  "nt_dirname p = take (nt_root_len p) p @ rstrip nt_seps (upto_last nt_seps (drop (nt_root_len p) p))"

definition dirname :: "platform \<Rightarrow> string \<Rightarrow> string" where
  "dirname pl = (if pl = Windows then nt_dirname else posix_dirname)"

lemma prefix_rstrip: "prefix (rstrip cs s) s"
  unfolding rstrip_def by (metis rev_rev_ident suffix_dropWhile suffix_to_prefix)

lemma prefix_upto_last: "prefix (upto_last cs s) s"
  unfolding upto_last_def by (metis rev_rev_ident suffix_dropWhile suffix_to_prefix)

lemma prefix_head: "prefix (rstrip cs (upto_last ds s)) s"
  using prefix_rstrip prefix_upto_last by (rule prefix_order.trans)

lemma prefix_dirname: "prefix (dirname pl p) p"
proof -
  have "prefix (posix_dirname p) p"
    by (simp add: posix_dirname_def Let_def prefix_head prefix_upto_last)
  moreover have "prefix (nt_dirname p) p"
  proof -
    have "prefix (take (nt_root_len p) p @ rstrip nt_seps (upto_last nt_seps (drop (nt_root_len p) p)))
        (take (nt_root_len p) p @ drop (nt_root_len p) p)"
      unfolding same_prefix_prefix by (rule prefix_head)
    then show ?thesis by (simp add: nt_dirname_def)
  qed
  ultimately show ?thesis by (simp add: dirname_def)
qed

function nearest_from :: "platform \<Rightarrow> (string \<Rightarrow> bool) \<Rightarrow> string \<Rightarrow> string" where
  \<comment> \<open>the loop of \<open>_nearest_existing\<close>\<close>
  "nearest_from pl ex probe =
     (if ex probe then probe
      else if dirname pl probe = probe then probe
      else nearest_from pl ex (dirname pl probe))"
  by pat_completeness auto
termination
proof (relation "measure (\<lambda>(pl, ex, p). length p)")
  fix pl ex probe
  assume "dirname pl probe \<noteq> probe"
  then show "((pl, ex, dirname pl probe), (pl, ex, probe)) \<in> measure (\<lambda>(pl, ex, p). length p)"
    using prefix_dirname [of pl probe] prefix_length_less [of "dirname pl probe" probe] by (simp add: strict_prefix_def)
qed simp

declare nearest_from.simps [simp del]

definition nearest_existing :: "fs_env \<Rightarrow> string \<Rightarrow> string" where
  "nearest_existing env path = nearest_from (platform env) (path_exists env) (realpath env path)"

section \<open>Windows: drive and volume\<close>

definition resolve_fs_type_windows :: "fs_env \<Rightarrow> string \<Rightarrow> string result" where
  "resolve_fs_type_windows env path =
     (let drive = nt_drive (abspath env (nearest_existing env path));
          root = drive @ [backslash]
      in case (if drive = [] then Inr 0 else drive_type env root) of
           Inl x \<Rightarrow> Inl x
         | Inr dt \<Rightarrow>
             if dt = 4 then Inr ''network''
             else if dt \<in> {2, 5, 6} then Inr ''removable''
             else if dt \<noteq> 3 then Inr (unknown (''drivetype='' @ int_repr dt))
             else (case volume_fs env root of
                Inl x \<Rightarrow> Inl x
              | Inr None \<Rightarrow> Inr (unknown ''volinfo-failed'')
              | Inr (Some name) \<Rightarrow> Inr (if py_lower name = [] then unknown ''empty-fsname'' else py_lower name)))"

section \<open>The policy\<close>

definition resolve_fs_type :: "fs_env \<Rightarrow> string \<Rightarrow> string result" where
  "resolve_fs_type env path =
     (case platform env of
        Windows \<Rightarrow>
          (case resolve_fs_type_windows env path of
             Inl x \<Rightarrow> if is_Exception x then Inr (unknown ''winapi-failed'') else Inl x
           | Inr t \<Rightarrow> Inr t)
      | MacOS \<Rightarrow>
          (case statfs_fstypename_macos env (nearest_existing env path) of
             Inl x \<Rightarrow> if is_Exception x then Inr (unknown ''statfs-failed'') else Inl x
           | Inr t \<Rightarrow> Inr t)
      | Linux \<Rightarrow>
          (case statfs_f_type env (nearest_existing env path) of
             Inl x \<Rightarrow> if isinstance x PyOSError then Inr (unknown ''statfs-failed'') else Inl x
           | Inr magic \<Rightarrow>
               Inr (case dict_get FS_MAGIC magic of
                  Some t \<Rightarrow> t
                | None \<Rightarrow> unknown (''0x'' @ hex_repr (nat magic)))))"

definition fs_unsupported :: "string \<Rightarrow> exn" where
  "fs_unsupported t = Exn FsUnsupportedError (''cache path is on non-durable FS '' @ t @ '' (REQUIRE)'')"

definition fs_cache_enabled :: "fs_env \<Rightarrow> string \<Rightarrow> fs_policy \<Rightarrow> bool result" where
  "fs_cache_enabled env path policy =
     (case resolve_fs_type env path of
        Inl x \<Rightarrow> Inl x
      | Inr t \<Rightarrow>
          if t \<in> DURABLE_FS_ALLOWLIST then Inr True
          else if policy = REQUIRE then Inl (fs_unsupported t)
          else if policy = ALLOW then Inr True
          else Inr False)"

end
