(* ===== verification/Fs_Theorems.thy ===== *)
theory Fs_Theorems
  imports Fs_Policy
begin

text \<open>
  When the durable cache may be used: the answer of \<open>fs_cache_enabled\<close> against a description of
  the durable volumes in terms of what the operating system reports, and the ancestor of the
  cache path that is asked.
\<close>

section \<open>The low half of \<open>f_type\<close>\<close>

fun le_val :: "string \<Rightarrow> int" where
  "le_val [] = 0"
| "le_val (c # cs) = int (of_char c) + 256 * le_val cs"

lemma le_val_bound: "0 \<le> le_val cs \<and> le_val cs < 256 ^ length cs"
proof (induction cs)
  case (Cons c cs)
  then have "le_val cs \<le> 256 ^ length cs - 1" by simp
  then have "256 * le_val cs \<le> 256 * (256 ^ length cs - 1)" by simp
  moreover have "(of_char c :: nat) \<le> 255" using of_char_lt [of c] by linarith
  then have "int (of_char c) \<le> 255" by linarith
  ultimately show ?case using Cons by simp
qed simp

lemma word_of_le_val: "word_of_le cs = word_of_int (le_val cs)"
proof (induction cs)
  case (Cons c cs)
  have "push_bit 8 (word_of_int (le_val cs) :: 64 word) = word_of_int (256 * le_val cs)"
    by (simp add: push_bit_eq_mult)
  with Cons show ?case by simp
qed simp

lemma le_val_split: "n \<le> length cs \<Longrightarrow> le_val cs = le_val (take n cs) + 256 ^ n * le_val (drop n cs)"
proof (induction n arbitrary: cs)
  case (Suc n)
  then obtain c ds where cs: "cs = c # ds" "n \<le> length ds" by (cases cs) auto
  have "le_val ds = le_val (take n ds) + 256 ^ n * le_val (drop n ds)" by (rule Suc.IH [OF cs(2)])
  then show ?case by (simp add: cs(1) distrib_left mult.assoc)
qed simp

lemma le_val_low: "take_bit 32 (le_val (take 8 raw)) = le_val (take 4 raw)"
proof (cases "4 \<le> length raw")
  case True
  have "le_val (take 8 raw) = le_val (take 4 (take 8 raw)) + 256 ^ 4 * le_val (drop 4 (take 8 raw))"
    by (rule le_val_split) (use True in simp)
  then have "le_val (take 8 raw) mod 2 ^ 32 = le_val (take 4 raw) mod 2 ^ 32"
    by (simp add: min_def mod_add_eq)
  moreover have "le_val (take 4 raw) < 2 ^ 32"
    using le_val_bound [of "take 4 raw"] True by (simp add: min_absorb2)
  ultimately show ?thesis using le_val_bound [of "take 4 raw"] by (simp add: take_bit_eq_mod)
next
  case False
  then have "(256 :: int) ^ length raw \<le> 256 ^ 4" by (intro power_increasing) auto
  then have "le_val raw < 2 ^ 32" using le_val_bound [of raw] by simp
  with False le_val_bound [of raw] show ?thesis by (simp add: take_bit_int_eq_self)
qed

lemma unpack_masked: "unpack_q raw AND 0xFFFFFFFF = le_val (take 4 raw)"
proof -
  have "unpack_q raw AND 0xFFFFFFFF = take_bit 32 (sint (word_of_le (take 8 raw)))"
    unfolding unpack_q_def by (simp add: take_bit_eq_mask mask_eq_exp_minus_1)
  also have "\<dots> = take_bit 32 (uint (word_of_le (take 8 raw)))"
    by (simp add: sint_uint take_bit_signed_take_bit)
  also have "\<dots> = take_bit 32 (le_val (take 8 raw))"
    by (simp add: word_of_le_val uint_word_of_int_eq take_bit_take_bit)
  finally show ?thesis by (simp only: le_val_low)
qed

section \<open>The name of the filesystem on macOS\<close>

lemma lower_alnum: "is_alnum (lower_char c) \<Longrightarrow> is_alnum c"
  by (auto simp: is_alnum_def lower_char_def Let_def split: if_splits)

lemma allowlist_token:
  assumes "py_lower name \<in> DURABLE_FS_ALLOWLIST"
  shows "fs_token name \<and> name \<noteq> [] \<and> nul \<notin> set name \<and> length name < 16"
proof -
  have l: "list_all is_alnum (py_lower name)" "py_lower name \<noteq> []" "length (py_lower name) < 16"
    using assms by (auto simp: DURABLE_FS_ALLOWLIST_def is_alnum_def)
  then have a: "\<forall>c\<in>set name. is_alnum c" using lower_alnum by (auto simp: py_lower_def list_all_iff)
  have b: "is_alnum c \<Longrightarrow> c \<noteq> CHR ''_'' \<and> (of_char c :: nat) < 128 \<and> c \<noteq> nul" for c
    by (auto simp: is_alnum_def nul_def Let_def)
  have "\<forall>c\<in>set name. c \<noteq> CHR ''_'' \<and> (of_char c :: nat) < 128 \<and> c \<noteq> nul"
    by (rule ballI, rule b, rule bspec [OF a])
  then have "filter (\<lambda>c. c \<noteq> CHR ''_'') name = name" "list_all (\<lambda>c. (of_char c :: nat) < 128) name" "nul \<notin> set name"
    by (auto simp: filter_id_conv list_all_iff)
  moreover have "list_all is_alnum name" "name \<noteq> []" "length name < 16" using a l by (auto simp: list_all_iff py_lower_def)
  ultimately show ?thesis by (simp add: fs_token_def)
qed

lemma fstypename_durable:
  "(\<exists>t. fstypename raw = Inr t \<and> t \<in> DURABLE_FS_ALLOWLIST) \<longleftrightarrow>
     (\<exists>name. raw = name @ replicate (16 - length name) nul \<and> py_lower name \<in> DURABLE_FS_ALLOWLIST)"
proof
  assume "\<exists>t. fstypename raw = Inr t \<and> t \<in> DURABLE_FS_ALLOWLIST"
  then have n: "py_lower (takeWhile (\<lambda>c. c \<noteq> nul) raw) \<in> DURABLE_FS_ALLOWLIST"
      "drop (length (takeWhile (\<lambda>c. c \<noteq> nul) raw)) raw
         = replicate (16 - length (takeWhile (\<lambda>c. c \<noteq> nul) raw)) nul"
    by (auto simp: fstypename_def MFSTYPENAMELEN_def Let_def split: if_splits)
  have "raw = takeWhile (\<lambda>c. c \<noteq> nul) raw @ drop (length (takeWhile (\<lambda>c. c \<noteq> nul) raw)) raw"
    by (metis dropWhile_eq_drop takeWhile_dropWhile_id)
  with n show "\<exists>name. raw = name @ replicate (16 - length name) nul \<and> py_lower name \<in> DURABLE_FS_ALLOWLIST" by metis
next
  assume "\<exists>name. raw = name @ replicate (16 - length name) nul \<and> py_lower name \<in> DURABLE_FS_ALLOWLIST"
  then obtain name where n: "raw = name @ replicate (16 - length name) nul" "py_lower name \<in> DURABLE_FS_ALLOWLIST" by blast
  note t = allowlist_token [OF n(2)]
  then have "takeWhile (\<lambda>c. c \<noteq> nul) raw = name"
    unfolding n(1) by (auto simp: takeWhile_append takeWhile_replicate)
  with t n show "\<exists>t. fstypename raw = Inr t \<and> t \<in> DURABLE_FS_ALLOWLIST"
    by (simp add: fstypename_def MFSTYPENAMELEN_def Let_def)
qed

section \<open>The gate\<close>

definition documented_failures :: "fs_env \<Rightarrow> bool" where
  \<comment> \<open>the calls of the operating system fail with \<open>OSError\<close>, those of \<open>ctypes\<close> with an \<open>Exception\<close>\<close>
  "documented_failures env \<longleftrightarrow>
     (\<forall>p x. statfs env p = Inl x \<longrightarrow> isinstance x PyOSError \<and> is_Exception x) \<and>
     (\<forall>p x. drive_type env p = Inl x \<longrightarrow> is_Exception x) \<and> (\<forall>p x. volume_fs env p = Inl x \<longrightarrow> is_Exception x)"

definition durable_volume :: "fs_env \<Rightarrow> string \<Rightarrow> bool" where
  \<comment> \<open>what the system must report for the nearest existing ancestor\<close>
  "durable_volume env path \<longleftrightarrow>
     (case platform env of
        Linux \<Rightarrow>
          (\<exists>buf. statfs env (nearest_existing env path) = Inr buf \<and> le_val (take 4 buf) \<in> {0xEF53, 0x58465342})
      | MacOS \<Rightarrow>
          (\<exists>buf name. statfs env (nearest_existing env path) = Inr buf \<and>
             take 16 (drop 72 buf) = name @ replicate (16 - length name) nul \<and> py_lower name \<in> DURABLE_FS_ALLOWLIST)
      | Windows \<Rightarrow>
          (let drive = nt_drive (abspath env (nearest_existing env path))
           in drive \<noteq> [] \<and> drive_type env (drive @ [backslash]) = Inr 3 \<and>
              (\<exists>name. volume_fs env (drive @ [backslash]) = Inr (Some name) \<and> py_lower name \<in> DURABLE_FS_ALLOWLIST)))"

lemma labels_not_durable:
  "unknown t \<notin> DURABLE_FS_ALLOWLIST" "''network'' \<notin> DURABLE_FS_ALLOWLIST" "''removable'' \<notin> DURABLE_FS_ALLOWLIST"
  by (simp_all add: unknown_def DURABLE_FS_ALLOWLIST_def)

lemma magic_durable:
  "(case dict_get FS_MAGIC m of Some t \<Rightarrow> t | None \<Rightarrow> unknown u) \<in> DURABLE_FS_ALLOWLIST \<longleftrightarrow> m \<in> {0xEF53, 0x58465342}"
  by (auto simp: FS_MAGIC_def DURABLE_FS_ALLOWLIST_def unknown_def)

lemma resolve_durable:
  assumes "documented_failures env"
  shows "\<exists>t. resolve_fs_type env path = Inr t \<and> (t \<in> DURABLE_FS_ALLOWLIST \<longleftrightarrow> durable_volume env path)"
proof (cases "platform env")
  case Linux
  show ?thesis
  proof (cases "statfs env (nearest_existing env path)")
    case (Inl x)
    with Linux assms labels_not_durable show ?thesis
      by (simp add: resolve_fs_type_def statfs_f_type_def documented_failures_def durable_volume_def)
  next
    case (Inr buf)
    with Linux magic_durable show ?thesis
      by (simp add: resolve_fs_type_def statfs_f_type_def durable_volume_def unpack_masked)
  qed
next
  case MacOS
  show ?thesis
  proof (cases "statfs env (nearest_existing env path)")
    case (Inl x)
    with MacOS assms labels_not_durable show ?thesis
      by (simp add: resolve_fs_type_def statfs_fstypename_macos_def documented_failures_def durable_volume_def)
  next
    case (Inr buf)
    have "is_Exception x" if "fstypename raw = Inl x" for raw x
      using that by (auto simp: fstypename_def Let_def split: if_splits)
    then show ?thesis
      using MacOS Inr fstypename_durable [of "take 16 (drop 72 buf)"] labels_not_durable
      by (cases "fstypename (take 16 (drop 72 buf))")
        (auto simp: resolve_fs_type_def statfs_fstypename_macos_def durable_volume_def FSTYPENAME_OFF_def MFSTYPENAMELEN_def)
  qed
next
  case Windows
  define drive where "drive = nt_drive (abspath env (nearest_existing env path))"
  have d: "durable_volume env path \<longleftrightarrow> drive \<noteq> [] \<and> drive_type env (drive @ [backslash]) = Inr 3 \<and>
      (\<exists>name. volume_fs env (drive @ [backslash]) = Inr (Some name) \<and> py_lower name \<in> DURABLE_FS_ALLOWLIST)"
    using Windows by (simp add: durable_volume_def drive_def Let_def)
  have ne: "[] \<notin> DURABLE_FS_ALLOWLIST" by (simp add: DURABLE_FS_ALLOWLIST_def)
  show ?thesis
  proof (cases "if drive = [] then Inr 0 else drive_type env (drive @ [backslash])")
    case (Inl x)
    with Windows assms d labels_not_durable show ?thesis
      by (auto simp: resolve_fs_type_def resolve_fs_type_windows_def documented_failures_def Let_def drive_def [symmetric]
          split: if_splits)
  next
    case (Inr dt)
    show ?thesis
    proof (cases "dt = 3")
      case False
      then have "\<not> durable_volume env path" using Inr d by (auto split: if_splits)
      with False Inr Windows labels_not_durable show ?thesis
        by (simp add: resolve_fs_type_def resolve_fs_type_windows_def Let_def drive_def [symmetric])
    next
      case True
      with Inr have r: "drive \<noteq> []" "drive_type env (drive @ [backslash]) = Inr 3" by (auto split: if_splits)
      show ?thesis
      proof (cases "volume_fs env (drive @ [backslash])")
        case (Inl x)
        with r Windows assms d labels_not_durable show ?thesis
          by (simp add: resolve_fs_type_def resolve_fs_type_windows_def documented_failures_def Let_def drive_def [symmetric])
      next
        case v: (Inr q)
        with r Windows d labels_not_durable ne show ?thesis
          by (cases q) (auto simp: resolve_fs_type_def resolve_fs_type_windows_def Let_def drive_def [symmetric])
      qed
    qed
  qed
qed

text \<open>C37: The cache is used only on a filesystem known to be durable. fs_cache_enabled says yes
  exactly when the policy is ALLOW or the platform reports a durable volume for the nearest
  existing ancestor of the resolved path: on Linux the low 32 bits of f_type are the ext or the
  xfs magic, however the field is sign-extended; on macOS the 16-byte field is a name of the
  allowlist padded with zeros; on Windows a fixed drive has a volume with such a name. Any
  other answer and any failing call disables the cache, or raises under REQUIRE.\<close>
theorem cache_only_on_durable_fs:
  assumes "documented_failures env"
  shows "(fs_cache_enabled env path policy = Inr True \<longleftrightarrow> durable_volume env path \<or> policy = ALLOW) \<and>
     (\<not> durable_volume env path \<and> policy = FAIL_CLOSED \<longrightarrow> fs_cache_enabled env path policy = Inr False) \<and>
     (\<not> durable_volume env path \<and> policy = REQUIRE \<longrightarrow> (\<exists>t. fs_cache_enabled env path policy = Inl (fs_unsupported t)))"
proof -
  obtain t where "resolve_fs_type env path = Inr t" "t \<in> DURABLE_FS_ALLOWLIST \<longleftrightarrow> durable_volume env path"
    using resolve_durable [OF assms] by blast
  then show ?thesis by (cases policy) (auto simp: fs_cache_enabled_def)
qed

definition demo_fs :: "string result \<Rightarrow> fs_env" where
  "demo_fs buf =
     \<lparr>platform = Linux, realpath = (\<lambda>p. p), path_exists = (\<lambda>p. p = ''/''), abspath = (\<lambda>p. p),
      statfs = (\<lambda>p. buf), drive_type = (\<lambda>p. Inr 0), volume_fs = (\<lambda>p. Inr None)\<rparr>"

text \<open>The cifs magic has its sign bit set; the kernel may report it sign-extended.\<close>

theorem cache_only_on_durable_fs_witness:
  "fs_cache_enabled (demo_fs (Inr [CHR 0x42, CHR 0x4D, CHR 0x53, CHR 0xFF, CHR 0xFF, CHR 0xFF, CHR 0xFF, CHR 0xFF]))
     ''/cache'' FAIL_CLOSED = Inr False \<and>
   fs_cache_enabled (demo_fs (Inr [CHR 0x53, CHR 0xEF, nul, nul, nul, nul, nul, nul])) ''/cache'' REQUIRE = Inr True"
proof -
  let ?cifs = "demo_fs (Inr [CHR 0x42, CHR 0x4D, CHR 0x53, CHR 0xFF, CHR 0xFF, CHR 0xFF, CHR 0xFF, CHR 0xFF])"
  let ?ext = "demo_fs (Inr [CHR 0x53, CHR 0xEF, nul, nul, nul, nul, nul, nul])"
  have "documented_failures ?cifs" "documented_failures ?ext" by (simp_all add: documented_failures_def demo_fs_def)
  moreover have "\<not> durable_volume ?cifs ''/cache''" "durable_volume ?ext ''/cache''"
    by (simp_all add: durable_volume_def demo_fs_def nul_def)
  ultimately show ?thesis using cache_only_on_durable_fs by blast
qed

section \<open>The ancestor that is asked\<close>

lemma nearest_from_chain:
  "\<exists>n. nearest_from pl ex p = (dirname pl ^^ n) p \<and> (\<forall>m<n. \<not> ex ((dirname pl ^^ m) p)) \<and>
     (ex (nearest_from pl ex p) \<or> dirname pl (nearest_from pl ex p) = nearest_from pl ex p)"
proof (induction pl ex p rule: nearest_from.induct)
  case (1 pl ex p)
  show ?case
  proof (cases "ex p \<or> dirname pl p = p")
    case True
    then show ?thesis by (intro exI [of _ 0]) (auto simp: nearest_from.simps [of pl ex p])
  next
    case False
    then obtain n where n: "nearest_from pl ex (dirname pl p) = (dirname pl ^^ n) (dirname pl p)"
        "\<forall>m<n. \<not> ex ((dirname pl ^^ m) (dirname pl p))"
        "ex (nearest_from pl ex (dirname pl p)) \<or> dirname pl (nearest_from pl ex (dirname pl p)) = nearest_from pl ex (dirname pl p)"
      using 1 by blast
    have s: "nearest_from pl ex p = nearest_from pl ex (dirname pl p)"
      using False by (simp add: nearest_from.simps [of pl ex p])
    have "\<not> ex ((dirname pl ^^ m) p)" if "m < Suc n" for m
      using that n(2) False by (cases m) (auto simp: funpow_swap1)
    with n(1,3) s show ?thesis by (intro exI [of _ "Suc n"]) (simp add: funpow_swap1)
  qed
qed

text \<open>The filesystem asked is that of the nearest existing ancestor. The walk up from the
  resolved path ends, at a prefix of it that exists, or at a path that is its own parent when
  nothing on the way exists, and it passes over no existing directory.\<close>
lemma nearest_existing_ancestor:
  "prefix (nearest_existing env path) (realpath env path) \<and>
   (path_exists env (nearest_existing env path) \<or>
      dirname (platform env) (nearest_existing env path) = nearest_existing env path) \<and>
   (\<exists>n. nearest_existing env path = (dirname (platform env) ^^ n) (realpath env path) \<and>
      (\<forall>m<n. \<not> path_exists env ((dirname (platform env) ^^ m) (realpath env path))))"
proof -
  have "prefix ((dirname pl ^^ n) p) p" for pl n p
  proof (induction n)
    case (Suc n)
    have "prefix (dirname pl ((dirname pl ^^ n) p)) ((dirname pl ^^ n) p)" by (rule prefix_dirname)
    with Suc show ?case by (auto intro: prefix_order.trans)
  qed simp
  then show ?thesis
    unfolding nearest_existing_def
    using nearest_from_chain [of "platform env" "path_exists env" "realpath env path"] by metis
qed

end
