(* ===== verification/Parquet_Store.thy ===== *)
theory Parquet_Store
  imports Store_Live
begin

text \<open>
  \<open>ParquetResultStore\<close> (\<open>src/resumable_batch/stores/parquet.py\<close>). pandas and pyarrow are
  parameters: frames, tables and column types are any types, and the functions the store calls
  are the record \<open>arrow\<close>. \<open>arrow_documented\<close> says that the names and the metadata of a schema are
  text. What depends on the types in a frame is said of the frame: \<open>file_faithful\<close>, that the file
  written for it is read back as the frame Arrow makes of it. Whether a second round through Arrow
  gives the same schema and the same digest is not assumed, since pandas turns some columns into
  others (integers with a missing value come back as floats): \<open>parquet_served\<close> decides it as the
  code does. Metadata keys and values are bytes, here their text in UTF-8; an error of pandas or
  pyarrow is an \<open>Exception\<close>.
\<close>

record ('f, 'a, 't) arrow =
  from_pandas :: "'f \<Rightarrow> 'a result" \<comment> \<open>\<open>pa.Table.from_pandas(..., preserve_index=False)\<close>\<close>
  to_pandas :: "'a \<Rightarrow> 'f result"
  to_csv :: "'f \<Rightarrow> string result" \<comment> \<open>\<open>to_csv(index=False)\<close>, encoded\<close>
  frame_len :: "'f \<Rightarrow> int"
  columns :: "'f \<Rightarrow> string list"
  schema_fields :: "'a \<Rightarrow> (string \<times> 't) list"
  schema_metadata :: "'a \<Rightarrow> (string, string) dict option"
  replace_metadata :: "'a \<Rightarrow> (string, string) dict \<Rightarrow> 'a"
  writer_open :: "'a \<Rightarrow> string \<times> unit result" \<comment> \<open>\<open>pq.ParquetWriter(path, schema)\<close>\<close>
  writer_write :: "'a \<Rightarrow> string \<Rightarrow> string \<times> unit result"
  writer_close :: "'a \<Rightarrow> string \<Rightarrow> string \<times> unit result"
  read_table :: "string \<Rightarrow> 'a result"
  is_integer :: "'t \<Rightarrow> bool"
  is_floating :: "'t \<Rightarrow> bool"
  is_boolean :: "'t \<Rightarrow> bool"
  is_string :: "'t \<Rightarrow> bool"
  is_large_string :: "'t \<Rightarrow> bool"
  is_temporal :: "'t \<Rightarrow> bool"
  type_str :: "'t \<Rightarrow> string"

section \<open>Schema fingerprint\<close>

definition arrow_kind :: "('f, 'a, 't) arrow \<Rightarrow> 't \<Rightarrow> string" where
  "arrow_kind A t =
     (if is_integer A t then ''int''
      else if is_floating A t then ''float''
      else if is_boolean A t then ''bool''
      else if is_string A t \<or> is_large_string A t then ''str''
      else if is_temporal A t then ''temporal''
      else type_str A t)"

fun join :: "string \<Rightarrow> string list \<Rightarrow> string" where
  "join sep [] = []"
| "join sep [x] = x"
| "join sep (x # y # xs) = x @ sep @ join sep (y # xs)"

definition schema_fp_from_pairs :: "(string \<times> string) list \<Rightarrow> string" where
  "schema_fp_from_pairs ps = join '';'' (map (\<lambda>(name, kind). name @ '':'' @ kind) ps)"

definition table_schema_fp :: "('f, 'a, 't) arrow \<Rightarrow> 'a \<Rightarrow> string" where
  "table_schema_fp A t = schema_fp_from_pairs (map (\<lambda>(n, ty). (n, arrow_kind A ty)) (schema_fields A t))"

fun split_on :: "char \<Rightarrow> string \<Rightarrow> string list" where
  \<comment> \<open>\<open>s.split(c)\<close>\<close>
  "split_on c [] = [[]]"
| "split_on c (d # s) =
     (if d = c then [] # split_on c s
      else (case split_on c s of [] \<Rightarrow> [[d]] | x # xs \<Rightarrow> (d # x) # xs))"

definition names_of_fp :: "string \<Rightarrow> string set" where
  "names_of_fp fp = {takeWhile (\<lambda>c. c \<noteq> CHR '':'') seg | seg. seg \<in> set (split_on (CHR '';'') fp) \<and> seg \<noteq> []}"

datatype expected = ArrowSchema "string list" | ColumnNames "string list"

definition expected_name_set :: "expected \<Rightarrow> string set" where
  "expected_name_set e = (case e of ArrowSchema ns \<Rightarrow> set ns | ColumnNames ns \<Rightarrow> set ns)"

section \<open>Writing and reading a file\<close>

definition write_parquet :: "('f, 'a, 't) arrow \<Rightarrow> 'a \<Rightarrow> string \<times> unit result" where
  \<comment> \<open>the writer is closed whether or not the table was written\<close>
  "write_parquet A t =
     (case writer_open A t of
        (b, Inl x) \<Rightarrow> (b, Inl x)
      | (b, Inr u) \<Rightarrow>
          (case writer_write A t b of (b1, r) \<Rightarrow>
             (case writer_close A t b1 of
                (b2, Inl x) \<Rightarrow> (b2, Inl x)
              | (b2, Inr v) \<Rightarrow> (b2, r))))"

definition table_for :: "('f, 'a, 't) arrow \<Rightarrow> 'f \<Rightarrow> 'a result" where
  "table_for A f = from_pandas A f"

definition parquet_canonical :: "('f, 'a, 't) arrow \<Rightarrow> 'f \<Rightarrow> string result" where
  \<comment> \<open>\<open>_canonical_bytes\<close>: the CSV text of the frame after one round through Arrow\<close>
  "parquet_canonical A f =
     (case table_for A f of
        Inl x \<Rightarrow> Inl x
      | Inr t \<Rightarrow> (case to_pandas A t of Inl x \<Rightarrow> Inl x | Inr g \<Rightarrow> to_csv A g))"

definition no_encoding :: exn where
  "no_encoding = Exn PyUnicodeError ''utf-8''"

definition encodable :: "meta \<Rightarrow> bool" where
  "encodable m \<longleftrightarrow> list_all (\<lambda>(k, v). utf8_ok k \<and> utf8_ok v) m"

definition parquet_write :: "('f, 'a, 't) arrow \<Rightarrow> 'f \<Rightarrow> meta \<Rightarrow> string \<times> unit result" where
  \<comment> \<open>\<open>_write_file\<close>; what is raised before the writer exists leaves no bytes\<close>
  "parquet_write A f m =
     (case table_for A f of
        Inl x \<Rightarrow> ([], Inl x)
      | Inr t \<Rightarrow>
          (if encodable m
           then write_parquet A (replace_metadata A t
                  (dict_update (case schema_metadata A t of None \<Rightarrow> [] | Some kv \<Rightarrow> kv) m))
           else ([], Inl no_encoding)))"

fun decode_items :: "meta \<Rightarrow> (string, string) dict \<Rightarrow> meta option" where
  "decode_items out [] = Some out"
| "decode_items out ((k, v) # kvs) =
     (if utf8_ok k \<and> utf8_ok v then decode_items (dict_set k v out) kvs else None)"

definition decode_meta :: "(string, string) dict option \<Rightarrow> meta option" where
  \<comment> \<open>\<open>_decode_meta\<close>; \<open>None\<close>: some bytes do not decode\<close>
  "decode_meta kv = (case kv of None \<Rightarrow> Some [] | Some d \<Rightarrow> decode_items [] d)"

definition parquet_read :: "('f, 'a, 't) arrow \<Rightarrow> string \<Rightarrow> ('f \<times> meta) option" where
  \<comment> \<open>\<open>_read_file\<close>: any \<open>Exception\<close> on the way is a miss, and what \<open>arrow\<close> raises is one\<close>
  "parquet_read A b =
     (case read_table A b of
        Inl x \<Rightarrow> None
      | Inr t \<Rightarrow>
          (case decode_meta (schema_metadata A t) of
             None \<Rightarrow> None
           | Some m \<Rightarrow> (case to_pandas A t of Inl x \<Rightarrow> None | Inr f \<Rightarrow> Some (f, m))))"

section \<open>Validation\<close>

definition columns_match :: "('f, 'a, 't) arrow \<Rightarrow> expected option \<Rightarrow> 'f \<Rightarrow> bool" where
  "columns_match A e f = (case e of None \<Rightarrow> True | Some x \<Rightarrow> set (columns A f) = expected_name_set x)"

definition parquet_validate :: "('f, 'a, 't) arrow \<Rightarrow> expected option \<Rightarrow> 'f \<Rightarrow> meta \<Rightarrow> bool result" where
  "parquet_validate A e f m =
     (case dict_get m ''schema_fingerprint'' of
        None \<Rightarrow> Inr False
      | Some fp \<Rightarrow>
          (case table_for A f of
             Inl x \<Rightarrow> Inl x
           | Inr t \<Rightarrow> Inr (table_schema_fp A t = fp \<and> columns_match A e f)))"

definition wrong_columns :: exn where
  "wrong_columns = Exn PyValueError ''commit: frame columns != expected''"

definition parquet_guard :: "('f, 'a, 't) arrow \<Rightarrow> expected option \<Rightarrow> 'f \<Rightarrow> unit result" where
  \<comment> \<open>\<open>_validate_commit\<close>\<close>
  "parquet_guard A e f = (if columns_match A e f then Inr () else Inl wrong_columns)"

definition parquet_extra :: "('f, 'a, 't) arrow \<Rightarrow> 'f \<Rightarrow> meta result" where
  \<comment> \<open>\<open>_commit_extra_meta\<close>\<close>
  "parquet_extra A f =
     (case table_for A f of Inl x \<Rightarrow> Inl x | Inr t \<Rightarrow> Inr [(''schema_fingerprint'', table_schema_fp A t)])"

definition parquet :: "(string \<Rightarrow> string) \<Rightarrow> (string \<Rightarrow> string) \<Rightarrow> (json \<Rightarrow> string) \<Rightarrow> ('f, 'a, 't) arrow \<Rightarrow>
    expected option \<Rightarrow> 'f hooks" where
  "parquet sha pf cs A e =
     \<lparr>suffix = ''.parquet'', canonical_bytes = parquet_canonical A, record_count = frame_len A,
      write_body = parquet_write A, read_body = parquet_read A, validate_structure = parquet_validate A e,
      validate_commit = parquet_guard A e, commit_extra_meta = parquet_extra A, sha256_hex = sha,
      float_repr = pf, container_str = cs\<rparr>"

section \<open>What pandas and pyarrow promise\<close>

definition round_trip :: "('f, 'a, 't) arrow \<Rightarrow> 'f \<Rightarrow> 'a \<Rightarrow> 'f \<Rightarrow> bool" where
  "round_trip A f t g \<longleftrightarrow> from_pandas A f = Inr t \<and> to_pandas A t = Inr g"

definition arrow_documented :: "('f, 'a, 't) arrow \<Rightarrow> bool" where
  \<comment> \<open>names, type names and metadata are text\<close>
  "arrow_documented A \<longleftrightarrow>
     (\<forall>f t. from_pandas A f = Inr t \<longrightarrow>
        utf8_ok (table_schema_fp A t) \<and>
        (case schema_metadata A t of None \<Rightarrow> True | Some kv \<Rightarrow> dict_ok kv \<and> encodable kv))"

definition file_faithful :: "('f, 'a, 't) arrow \<Rightarrow> 'f \<Rightarrow> bool" where
  \<comment> \<open>a complete file of the frame's table is read back as what pandas makes of that table, with
    the metadata it was written with\<close>
  "file_faithful A f \<longleftrightarrow>
     (\<forall>t g kv b. round_trip A f t g \<and> write_parquet A (replace_metadata A t kv) = (b, Inr ()) \<longrightarrow>
        (\<exists>u kv'. read_table A b = Inr u \<and> to_pandas A u = Inr g \<and> schema_metadata A u = Some kv' \<and>
           (dict_ok kv \<and> encodable kv \<longrightarrow> dict_ok kv' \<and> encodable kv' \<and> carries kv' kv)))"

definition parquet_served :: "'f hooks \<Rightarrow> ('f, 'a, 't) arrow \<Rightarrow> expected option \<Rightarrow> 'f \<Rightarrow> 'f option" where
  \<comment> \<open>the frame as it is read back, if its schema fingerprint, columns and digest are then accepted\<close>
  "parquet_served h A e f =
     (case from_pandas A f of
        Inl x \<Rightarrow> None
      | Inr t \<Rightarrow>
          (case to_pandas A t of
             Inl x \<Rightarrow> None
           | Inr g \<Rightarrow>
               (if parquet_validate A e g [(''schema_fingerprint'', table_schema_fp A t)] = Inr True \<and>
                   digest_info h g = digest_info h f
                then Some g else None)))"

definition arrow_norm :: "('f, 'a, 't) arrow \<Rightarrow> 'f \<Rightarrow> 'f" where
  \<comment> \<open>the frame as it is read back\<close>
  "arrow_norm A f =
     (case from_pandas A f of Inl x \<Rightarrow> f | Inr t \<Rightarrow> (case to_pandas A t of Inl x \<Rightarrow> f | Inr g \<Rightarrow> g))"

lemma arrow_norm_trip: "round_trip A f t g \<Longrightarrow> arrow_norm A f = g"
  by (simp add: round_trip_def arrow_norm_def)

section \<open>The contract of the manifest store\<close>

lemma decode_items_ok:
  "dict_ok (out @ kvs) \<Longrightarrow> encodable kvs \<Longrightarrow> decode_items out kvs = Some (out @ kvs)"
proof (induction out kvs rule: decode_items.induct)
  case (2 out k v kvs)
  then have "dict_set k v out = out @ [(k, v)]" by (intro dict_set_append) auto
  with 2 show ?case by (simp add: encodable_def)
qed simp

lemma decode_meta_ok: "dict_ok kv \<Longrightarrow> encodable kv \<Longrightarrow> decode_meta (Some kv) = Some kv"
  using decode_items_ok [of "[]" kv] by (simp add: decode_meta_def)

lemma encodable_set: "encodable m \<Longrightarrow> utf8_ok k \<Longrightarrow> utf8_ok v \<Longrightarrow> encodable (dict_set k v m)"
  by (auto simp: encodable_def list_all_iff dest!: dict_set_values)

lemma encodable_update: "encodable d \<Longrightarrow> encodable e \<Longrightarrow> encodable (dict_update d e)"
proof (induction d e rule: dict_update.induct)
  case (2 d k v e)
  then have e: "utf8_ok k" "utf8_ok v" "encodable e" by (simp_all add: encodable_def)
  with 2 encodable_set [of d k v] show ?case by simp
qed simp

lemma carries_update: "dict_ok m \<Longrightarrow> carries (dict_update d m) m"
  by (simp add: carries_def dict_get_update)

lemma carries_trans: "carries m1 m2 \<Longrightarrow> carries m2 m3 \<Longrightarrow> carries m1 m3"
  by (auto simp: carries_def)

lemma documentedD:
  assumes "arrow_documented A" and "from_pandas A f = Inr t"
  shows "utf8_ok (table_schema_fp A t)" and "schema_metadata A t = Some kv \<Longrightarrow> dict_ok kv \<and> encodable kv"
  using assms by (fastforce simp: arrow_documented_def)+

lemma faithfulD:
  assumes "file_faithful A f" and "round_trip A f t g" and "write_parquet A (replace_metadata A t kv) = (b, Inr ())"
    and "dict_ok kv" and "encodable kv"
  obtains u kv' where "read_table A b = Inr u" and "to_pandas A u = Inr g" and "schema_metadata A u = Some kv'"
    and "dict_ok kv'" and "encodable kv'" and "carries kv' kv"
  using assms unfolding file_faithful_def by meson

lemma parquet_suffix_ok: "suffix_ok (parquet sha pf cs A e)"
proof -
  have "k @ ''.parquet'' \<noteq> MANIFEST_NAME" for k
  proof
    assume "k @ ''.parquet'' = MANIFEST_NAME"
    then have "last (k @ ''.parquet'') = last MANIFEST_NAME" by simp
    then show False by (simp add: MANIFEST_NAME_def)
  qed
  then show ?thesis by (simp add: suffix_ok_def parquet_def is_hex_def hex_val_def)
qed

lemma canonical_trip: "parquet_canonical A f = Inr c \<Longrightarrow> \<exists>t g. round_trip A f t g"
  by (auto simp: parquet_canonical_def table_for_def round_trip_def split: sum.splits)

lemma served_trip:
  assumes "round_trip A f t g"
  shows "parquet_served h A e f =
    (if parquet_validate A e g [(''schema_fingerprint'', table_schema_fp A t)] = Inr True \<and> digest_info h g = digest_info h f
     then Some g else None)"
  using assms by (simp add: parquet_served_def round_trip_def)

lemma parquet_extra_ok:
  assumes "arrow_documented A" and "commit_extra_meta (parquet sha pf cs A e) r = Inr ex"
  shows "dict_ok ex \<and> dict_keys ex \<inter> reserved_fields = {} \<and> (\<forall>(f, v)\<in>set ex. utf8_ok f \<and> utf8_ok v)"
proof -
  from assms(2) obtain t where "from_pandas A r = Inr t" "ex = [(''schema_fingerprint'', table_schema_fp A t)]"
    by (auto simp: parquet_def parquet_extra_def table_for_def split: sum.splits)
  with documentedD(1) [OF assms(1)] show ?thesis by (simp add: reserved_fields_def utf8_ascii)
qed

lemma parquet_reads_back:
  assumes "arrow_documented A" and "file_faithful A r" and d: "digest_info (parquet sha pf cs A e) r = Inr d"
    and x: "commit_extra_meta (parquet sha pf cs A e) r = Inr ex" and m: "dict_ok m" "carries m ex"
    and w: "write_body (parquet sha pf cs A e) r m = (body, Inr ())"
  shows "\<exists>r2 m'. read_body (parquet sha pf cs A e) body = Some (r2, m') \<and> carries m' m \<and>
      parquet_served (parquet sha pf cs A e) A e r =
        (if validate_structure (parquet sha pf cs A e) r2 m' = Inr True \<and> digest_info (parquet sha pf cs A e) r2 = Inr d
         then Some r2 else None)"
proof -
  let ?h = "parquet sha pf cs A e"
  have "\<exists>c. parquet_canonical A r = Inr c" using d by (auto simp: digest_info_def parquet_def split: sum.splits)
  then obtain t g where rt: "round_trip A r t g" by (auto dest: canonical_trip)
  then have fp: "from_pandas A r = Inr t" by (simp add: round_trip_def)
  let ?kv = "dict_update (case schema_metadata A t of None \<Rightarrow> [] | Some kv \<Rightarrow> kv) m"
  have w': "encodable m" "write_parquet A (replace_metadata A t ?kv) = (body, Inr ())"
    using w fp by (simp_all add: parquet_def parquet_write_def table_for_def no_encoding_def split: if_splits)
  have "dict_ok ?kv" "encodable ?kv"
    using documentedD(2) [OF assms(1) fp] w'(1)
    by (cases "schema_metadata A t"; auto intro!: dict_ok_update encodable_update; simp add: encodable_def)+
  from faithfulD [OF assms(2) rt w'(2) this] obtain u kv' where u: "read_table A body = Inr u" "to_pandas A u = Inr g"
      "schema_metadata A u = Some kv'" "dict_ok kv'" "encodable kv'" "carries kv' ?kv" .
  have c: "carries kv' m" by (rule carries_trans [OF u(6) carries_update [OF m(1)]])
  have "ex = [(''schema_fingerprint'', table_schema_fp A t)]"
    using x fp by (simp add: parquet_def parquet_extra_def table_for_def)
  with carries_trans [OF c m(2)] have "dict_get kv' ''schema_fingerprint'' = Some (table_schema_fp A t)"
    by (simp add: carries_def)
  then have "validate_structure ?h g kv' = parquet_validate A e g [(''schema_fingerprint'', table_schema_fp A t)]"
    by (simp add: parquet_def parquet_validate_def)
  moreover have "read_body ?h body = Some (g, kv')"
    using u(1-3) decode_meta_ok [OF u(4,5)] by (simp add: parquet_def parquet_read_def)
  ultimately show ?thesis using c d served_trip [OF rt] by (intro exI [of _ g] exI [of _ kv']) simp
qed

lemma parquet_codec:
  assumes "arrow_documented A"
  shows "store_codec (parquet sha pf cs A e) (file_faithful A) (parquet_served (parquet sha pf cs A e) A e)"
proof
  show "suffix_ok (parquet sha pf cs A e)" by (rule parquet_suffix_ok)
qed (rule parquet_extra_ok [OF assms], assumption, rule parquet_reads_back [OF assms])

definition parquet_accepts :: "'f hooks \<Rightarrow> ('f, 'a, 't) arrow \<Rightarrow> expected option \<Rightarrow> 'f \<Rightarrow> bool" where
  \<comment> \<open>the frames that are served after a commit\<close>
  "parquet_accepts h A e f \<longleftrightarrow> file_faithful A f \<and> parquet_served h A e f \<noteq> None"

lemma served_norm: "parquet_served h A e f = Some g \<Longrightarrow> g = arrow_norm A f"
  by (auto simp: parquet_served_def arrow_norm_def split: sum.splits if_splits)

lemma parquet_store:
  assumes "arrow_documented A" and "h = parquet sha pf cs A e"
  shows "payload_codec h (file_faithful A) (parquet_served h A e) (parquet_accepts h A e) (arrow_norm A)"
proof (rule payload_codec.intro)
  show "store_codec h (file_faithful A) (parquet_served h A e)" unfolding assms(2) by (rule parquet_codec [OF assms(1)])
  show "payload_codec_axioms (file_faithful A) (parquet_served h A e) (parquet_accepts h A e) (arrow_norm A)"
    by unfold_locales (auto simp: parquet_accepts_def dest: served_norm)
qed

end
