(* ===== verification/Parquet_Theorems.thy ===== *)
theory Parquet_Theorems
  imports Parquet_Store Store_Theorems
begin

text \<open>
  The properties of the Parquet store. Those that rest on pandas and pyarrow have
  \<open>arrow_documented\<close> and \<open>file_faithful\<close> as hypotheses; \<open>demo_arrow\<close> is a small table format that
  meets them, \<open>drift_arrow\<close> one that also changes a schema.
\<close>

section \<open>A table format\<close>

text \<open>Frames are lists of texts in one column. Each text of a file is escaped byte by byte.\<close>

fun esc :: "string \<Rightarrow> string" where
  "esc [] = ''.''"
| "esc (c # s) = CHR ''x'' # c # esc s"

fun unesc :: "string \<Rightarrow> string \<times> string" where
  "unesc (x # c # s) = (if x = CHR ''x'' then (case unesc s of (t, r) \<Rightarrow> (c # t, r)) else ([], c # s))"
| "unesc [x] = ([], [])"
| "unesc [] = ([], [])"

lemma unesc_esc: "unesc (esc s @ r) = (s, r)"
  by (induction s) (cases r; auto)+

fun esc_pairs :: "(string \<times> string) list \<Rightarrow> string" where
  "esc_pairs [] = ''.''"
| "esc_pairs ((k, v) # kvs) = CHR ''x'' # esc k @ esc v @ esc_pairs kvs"

fun unesc_pairs :: "nat \<Rightarrow> string \<Rightarrow> (string \<times> string) list \<times> string" where
  "unesc_pairs (Suc n) (x # s) =
     (if x = CHR ''x'' then
        (case unesc s of (k, s1) \<Rightarrow> case unesc s1 of (v, s2) \<Rightarrow> case unesc_pairs n s2 of (kvs, r) \<Rightarrow> ((k, v) # kvs, r))
      else ([], s))"
| "unesc_pairs n s = ([], s)"

lemma unesc_esc_pairs: "length kvs < n \<Longrightarrow> unesc_pairs n (esc_pairs kvs @ r) = (kvs, r)"
proof (induction kvs arbitrary: n)
  case Nil
  then show ?case by (cases n) simp_all
next
  case (Cons kv kvs)
  obtain k v where kv: "kv = (k, v)" by fastforce
  from Cons.prems obtain m where "n = Suc m" "length kvs < m" by (cases n) auto
  with Cons.IH [of m] kv show ?case by (simp add: unesc_esc)
qed

lemma esc_pairs_length: "length kvs < length (esc_pairs kvs @ r)"
  by (induction kvs) auto

type_synonym demo_table = "string list \<times> (string, string) dict option"

definition demo_encode :: "demo_table \<Rightarrow> string" where
  "demo_encode t =
     esc_pairs (map (\<lambda>r. (r, [])) (fst t)) @ esc_pairs (case snd t of None \<Rightarrow> [] | Some kv \<Rightarrow> kv)"

definition demo_decode :: "string \<Rightarrow> demo_table" where
  "demo_decode b =
     (case unesc_pairs (length b) b of (rs, s) \<Rightarrow> (map fst rs, Some (fst (unesc_pairs (length s) s))))"

lemma demo_decode_encode: "demo_decode (demo_encode (rs, Some kv)) = (rs, Some kv)"
proof -
  have "unesc_pairs (length (esc_pairs kv)) (esc_pairs kv) = (kv, [])"
    using unesc_esc_pairs [of kv "length (esc_pairs kv)" "[]"] esc_pairs_length [of kv "[]"] by simp
  with unesc_esc_pairs [OF esc_pairs_length] show ?thesis
    unfolding demo_decode_def demo_encode_def by (simp add: comp_def)
qed

definition demo_arrow :: "(string list, demo_table, bool) arrow" where
  \<comment> \<open>types: \<open>True\<close> for integers, \<open>False\<close> for strings\<close>
  "demo_arrow =
     \<lparr>from_pandas = (\<lambda>f. Inr (f, None)), to_pandas = (\<lambda>t. Inr (fst t)), to_csv = (\<lambda>f. Inr (concat f)),
      frame_len = (\<lambda>f. int (length f)), columns = (\<lambda>f. [''a'']), schema_fields = (\<lambda>t. [(''a'', False)]),
      schema_metadata = snd, replace_metadata = (\<lambda>t kv. (fst t, Some kv)), writer_open = (\<lambda>t. ([], Inr ())),
      writer_write = (\<lambda>t b. (demo_encode t, Inr ())), writer_close = (\<lambda>t b. (b, Inr ())),
      read_table = (\<lambda>b. Inr (demo_decode b)), is_integer = (\<lambda>t. t), is_floating = (\<lambda>t. False),
      is_boolean = (\<lambda>t. False), is_string = (\<lambda>t. \<not> t), is_large_string = (\<lambda>t. False),
      is_temporal = (\<lambda>t. False), type_str = (\<lambda>t. [])\<rparr>"

definition drift_arrow :: "(string list, demo_table, bool) arrow" where
  \<comment> \<open>a column of the integer 1 that comes back as text\<close>
  "drift_arrow = demo_arrow
     \<lparr>to_pandas := (\<lambda>t. Inr (map (\<lambda>x. ''1.0'') (fst t))), schema_fields := (\<lambda>t. [(''a'', fst t = [''1''])])\<rparr>"

lemma demo_write:
  "write_parquet demo_arrow (rs, Some kv) = (demo_encode (rs, Some kv), Inr ())"
  "write_parquet drift_arrow (rs, Some kv) = (demo_encode (rs, Some kv), Inr ())"
  "read_table demo_arrow (demo_encode (rs, Some kv)) = Inr (rs, Some kv)"
  "read_table drift_arrow (demo_encode (rs, Some kv)) = Inr (rs, Some kv)"
  by (simp_all add: write_parquet_def demo_arrow_def drift_arrow_def demo_decode_encode)

lemma demo_calls:
  "from_pandas demo_arrow f = Inr (f, None)" "to_pandas demo_arrow t = Inr (fst t)"
  "replace_metadata demo_arrow t kv = (fst t, Some kv)" "schema_metadata demo_arrow t = snd t"
  "from_pandas drift_arrow f = Inr (f, None)" "to_pandas drift_arrow t = Inr (map (\<lambda>x. ''1.0'') (fst t))"
  "replace_metadata drift_arrow t kv = (fst t, Some kv)" "schema_metadata drift_arrow t = snd t"
  by (simp_all add: demo_arrow_def drift_arrow_def)

lemma demo_fp:
  "table_schema_fp demo_arrow t = ''a:str''"
  "table_schema_fp drift_arrow t = (if fst t = [''1''] then ''a:int'' else ''a:str'')"
  by (simp_all add: table_schema_fp_def schema_fp_from_pairs_def arrow_kind_def demo_arrow_def drift_arrow_def)

lemma demo_arrow_documented: "arrow_documented demo_arrow" "arrow_documented drift_arrow"
  by (simp_all add: arrow_documented_def demo_fp demo_calls utf8_ascii)

lemma demo_faithful: "file_faithful demo_arrow f" "file_faithful drift_arrow f"
  by (auto simp: file_faithful_def round_trip_def demo_calls demo_write carries_def)

section \<open>Properties\<close>

text \<open>C38: A commit of the Parquet store is crash-atomic too. Take any pandas and pyarrow whose names
  and metadata are text, a frame whose file is read back as the frame Arrow makes of it, a store
  whose memory is well formed and a hash that is text, and let any system call of commit fail or
  be the one at which the process dies. Every other key keeps its durable result if memory and
  manifest agreed before, and has the old one or the one memory vouched for if not. The committed
  key holds its old result, nothing, or the whole new frame as Arrow gives it back, which is served
  only if its columns, its schema fingerprint after another conversion, its digest and its row
  count are then those of the commit; nothing says that pandas keeps them. When commit returns, that
  new value is the durable one.\<close>
theorem parquet_commit_crash_atomic:
  assumes "arrow_documented A" and "file_faithful A f" and "h = parquet sha pf cs A e"
    and "commit h st k ph f s = (res, st', s')" and "manifest_ok h st" and "clock_ok h s" and "utf8_ok ph"
    and "new = (case parquet_served h A e f of None \<Rightarrow> None | Some g \<Rightarrow> Some (ph, g))"
  shows "(\<forall>j. j \<noteq> k \<longrightarrow>
        durable h (fingerprint st) s' j \<in> {durable h (fingerprint st) s j, vouched h st s j} \<and>
        (synced h st s \<longrightarrow> durable h (fingerprint st) s' j = durable h (fingerprint st) s j)) \<and>
     durable h (fingerprint st) s' k \<in> {durable h (fingerprint st) s k, None, new} \<and>
     (res = Inr () \<longrightarrow>
        durable h (fingerprint st) s' k = new \<and>
        (\<forall>j. j \<noteq> k \<longrightarrow> durable h (fingerprint st) s' j = vouched h st s j) \<and>
        manifest_ok h st' \<and> synced h st' s')"
proof -
  note codec = parquet_codec [OF assms(1), of sha pf cs e, folded assms(3)]
  have n: "seen (parquet_served h A e) ph f = new" unfolding assms(8) by (simp add: seen_def split: option.split)
  note o = store_codec.commit_outcome [OF codec assms(4,5,6,2,7), unfolded n]
  note y = store_codec.commit_synced [OF codec assms(4,5) _ assms(6,2,7)]
  show ?thesis using o(1,2) o(3,4) y by blast
qed

abbreviation demo_parquet :: "string list hooks" where
  "demo_parquet \<equiv> parquet (\<lambda>b. ''d'') (\<lambda>t. t) (\<lambda>v. []) demo_arrow (Some (ColumnNames [''a'']))"

lemma demo_parquet_clock: "clock_ok demo_parquet (demo_os f)"
proof -
  have "float_ok (\<lambda>t. t) ''1.5''" by code_simp
  then show ?thesis
    by (simp add: clock_ok_def world_ok_def demo_os_def parquet_def utf8_ascii)
qed

lemma demo_parquet_storable: "storable demo_parquet ''k'' [''x'']"
proof -
  have "snd (write_parquet demo_arrow t) = Inr ()" for t
    by (simp add: write_parquet_def demo_arrow_def)
  moreover have "encodable m" if "text_meta m" for m
    using that by (auto simp: text_meta_def encodable_def list_all_iff)
  ultimately show ?thesis
    using safe_names(1)
    by (auto simp: storable_def parquet_def parquet_guard_def columns_match_def expected_name_set_def digest_info_def
        parquet_canonical_def parquet_extra_def parquet_write_def table_for_def demo_arrow_def)
qed

theorem parquet_commit_crash_atomic_witness:
  "\<exists>st' s'. commit demo_parquet demo_store ''k'' ''h'' [''x''] (demo_os quiet) = (Inr (), st', s') \<and>
     durable demo_parquet ''f'' s' ''k'' = Some (''h'', [''x''])"
proof -
  obtain st' s' where c: "commit demo_parquet demo_store ''k'' ''h'' [''x''] (demo_os quiet) = (Inr (), st', s')"
    by (rule store_codec.calm_commit [OF parquet_codec [OF demo_arrow_documented(1)] demo_calm demo_parquet_storable
          demo_parquet_clock ascii_names(2) demo_manifest_ok])
  have n: "parquet_served demo_parquet demo_arrow (Some (ColumnNames [''a''])) [''x''] = Some [''x'']"
    by (simp add: parquet_served_def demo_calls parquet_validate_def table_for_def demo_fp columns_match_def expected_name_set_def)
      (simp add: demo_arrow_def)
  from parquet_commit_crash_atomic [OF demo_arrow_documented(1) demo_faithful(1) refl c demo_manifest_ok demo_parquet_clock
      ascii_names(2) refl]
  have "durable demo_parquet (fingerprint demo_store) s' ''k'' = Some (''h'', [''x''])" by (simp add: n)
  with c show ?thesis by (intro exI conjI) (simp_all add: demo_store_def)
qed

text \<open>C40: A frame whose schema changes on its way through pandas is committed and never served. When
  the frame Arrow gives back converts to a table with another schema fingerprint, as integers with
  a missing value do that come back as floats, its commit can return, with payload and manifest
  written, but a process that opens the directory finds no result for the key, and in this store has
  is never True and load never returns while the files stay as they are, whatever the system calls
  do: the fingerprint in the metadata is the one of the frame before the conversion.\<close>
theorem drifting_frame_never_served:
  assumes "arrow_documented A" and "file_faithful A f" and "h = parquet sha pf cs A e"
    and "round_trip A f t g" and "from_pandas A g = Inr t2" and "table_schema_fp A t2 \<noteq> table_schema_fp A t"
    and "commit h st k ph f s = (Inr (), st', s')" and "manifest_ok h st" and "clock_ok h s" and "utf8_ok ph"
  shows "durable h (fingerprint st) s' k = None \<and>
     (\<forall>u x. file_at u = file_at s' \<longrightarrow> fst (has h st' k x u) \<noteq> Inr True \<and> (\<forall>r. fst (load h st' k x u) \<noteq> Inr r))"
proof -
  note codec = parquet_codec [OF assms(1), of sha pf cs e, folded assms(3)]
  have "parquet_validate A e g [(''schema_fingerprint'', table_schema_fp A t)] \<noteq> Inr True"
    using assms(5,6) by (simp add: parquet_validate_def table_for_def)
  then have "seen (parquet_served h A e) ph f = None" by (simp add: seen_def served_trip [OF assms(4)])
  note o = store_codec.commit_outcome [OF codec assms(7,8,9,2,10), unfolded this]
  have d: "durable h (fingerprint st) s' k = None" using o(3) by simp
  then have v: "vouched h st' s' k = None" using o(4) synced_durable [of h st' s' k] by simp
  have "fst (has h st' k x u) \<noteq> Inr True \<and> (\<forall>r. fst (load h st' k x u) \<noteq> Inr r)" if "file_at u = file_at s'" for u x
  proof -
    have "payload_of h u k = payload_of h s' k" by (rule payload_of_same) (simp add: that)
    then have n: "vouched h st' u k = None" using v by (simp add: vouched_def)
    have "fst (load h st' k x u) \<noteq> Inr r" for r
      using load_outcome [of h st' k x u r] n by (metis option.distinct(1) prod.collapse)
    then show ?thesis using has_outcome [of h st' k x u True] n by (metis option.distinct(1) prod.collapse)
  qed
  with d show ?thesis by blast
qed

abbreviation drift_parquet :: "string list hooks" where
  "drift_parquet \<equiv> parquet (\<lambda>b. ''d'') (\<lambda>t. t) (\<lambda>v. []) drift_arrow None"

theorem drifting_frame_never_served_witness:
  "\<exists>st' s'. commit drift_parquet demo_store ''k'' ''h'' [''1''] (demo_os quiet) = (Inr (), st', s') \<and>
     fst (has drift_parquet st' ''k'' ''h'' s') \<noteq> Inr True"
proof -
  have w: "snd (write_parquet drift_arrow t) = Inr ()" for t
    by (simp add: write_parquet_def drift_arrow_def demo_arrow_def)
  have "encodable m" if "text_meta m" for m
    using that by (auto simp: text_meta_def encodable_def list_all_iff)
  then have st: "storable drift_parquet ''k'' [''1'']"
    using safe_names(1) w
    by (simp add: storable_def parquet_def parquet_guard_def columns_match_def digest_info_def parquet_canonical_def
        parquet_extra_def parquet_write_def table_for_def demo_calls) (simp add: drift_arrow_def demo_arrow_def)
  have clock: "clock_ok drift_parquet (demo_os f)" for f
    using demo_parquet_clock [of f] by (simp add: clock_ok_def parquet_def)
  obtain st' s' where c: "commit drift_parquet demo_store ''k'' ''h'' [''1''] (demo_os quiet) = (Inr (), st', s')"
    by (rule store_codec.calm_commit [OF parquet_codec [OF demo_arrow_documented(2)] demo_calm st clock ascii_names(2) demo_manifest_ok])
  have "round_trip drift_arrow [''1''] ([''1''], None) [''1.0'']" "from_pandas drift_arrow [''1.0''] = Inr ([''1.0''], None)"
    "table_schema_fp drift_arrow ([''1.0''], None) \<noteq> table_schema_fp drift_arrow ([''1''], None)"
    by (simp_all add: round_trip_def demo_calls demo_fp)
  from drifting_frame_never_served [OF demo_arrow_documented(2) demo_faithful(2) refl this c demo_manifest_ok clock ascii_names(2)] c
  show ?thesis by blast
qed

text \<open>C39: A frame with unexpected columns is neither committed nor served. When the set of its
  columns is not the expected one, commit raises ValueError before anything is written and with
  the store's memory unchanged, and no metadata makes a file with such a frame valid.\<close>
theorem unexpected_columns_rejected:
  assumes "set (columns A f) \<noteq> expected_name_set x"
  shows "commit (parquet sha pf cs A (Some x)) st k ph f s = (Inl wrong_columns, st, s) \<and>
     parquet_validate A (Some x) f m \<noteq> Inr True"
proof -
  have g: "parquet_guard A (Some x) f = Inl wrong_columns" "\<not> columns_match A (Some x) f"
    using assms by (simp_all add: parquet_guard_def columns_match_def)
  then show ?thesis
    by (auto simp: commit_def write_payload_def parquet_def parquet_validate_def split: option.splits sum.splits)
qed

theorem unexpected_columns_rejected_witness:
  "commit (parquet (\<lambda>b. ''d'') (\<lambda>t. t) (\<lambda>v. []) demo_arrow (Some (ArrowSchema [''a'', ''b'']))) demo_store ''k'' ''h'' [''x'']
     (demo_os quiet) = (Inl wrong_columns, demo_store, demo_os quiet)"
proof -
  have "set (columns demo_arrow [''x'']) \<noteq> expected_name_set (ArrowSchema [''a'', ''b''])"
    by (simp add: demo_arrow_def expected_name_set_def)
  then show ?thesis by (rule conjunct1 [OF unexpected_columns_rejected])
qed

section \<open>The schema fingerprint\<close>

lemma split_on_clean: "c \<notin> set s \<Longrightarrow> split_on c s = [s]"
  by (induction s) auto

lemma split_on_append: "c \<notin> set s \<Longrightarrow> split_on c (s @ c # t) = s # split_on c t"
  by (induction s) auto

lemma split_on_join: "xs \<noteq> [] \<Longrightarrow> \<forall>x\<in>set xs. c \<notin> set x \<Longrightarrow> split_on c (join [c] xs) = xs"
  by (induction "[c]" xs rule: join.induct) (simp_all add: split_on_clean split_on_append)

definition plain_pairs :: "(string \<times> string) list \<Rightarrow> bool" where
  \<comment> \<open>no name has a colon or a semicolon, no kind a semicolon\<close>
  "plain_pairs ps \<longleftrightarrow> (\<forall>(n, k)\<in>set ps. CHR '':'' \<notin> set n \<and> CHR '';'' \<notin> set n \<and> CHR '';'' \<notin> set k)"

lemma split_fp:
  assumes "plain_pairs ps" and "ps \<noteq> []"
  shows "split_on (CHR '';'') (schema_fp_from_pairs ps) = map (\<lambda>(n, k). n @ '':'' @ k) ps"
  unfolding schema_fp_from_pairs_def
  by (rule split_on_join) (use assms in \<open>auto simp: plain_pairs_def\<close>)

lemma seg_inj:
  "CHR '':'' \<notin> set n \<Longrightarrow> CHR '':'' \<notin> set n' \<Longrightarrow> n @ CHR '':'' # k = n' @ CHR '':'' # k' \<Longrightarrow> n = n' \<and> k = k'"
  by (induction n arbitrary: n') (case_tac n', auto)+

text \<open>The schema fingerprint identifies the schema when no column name has a colon or a semicolon
  and no kind a semicolon, which the text of a nested type can have: then two lists of columns have
  the same fingerprint only if they are equal, and \<open>_names_of_fp\<close>, which nothing calls, reads the
  names back.\<close>
lemma schema_fp_identifies:
  assumes "plain_pairs ps" and "plain_pairs qs"
  shows "(schema_fp_from_pairs ps = schema_fp_from_pairs qs \<longleftrightarrow> ps = qs) \<and>
     names_of_fp (schema_fp_from_pairs ps) = fst ` set ps"
proof
  have e: "schema_fp_from_pairs rs = [] \<longleftrightarrow> rs = []" for rs
    by (cases rs; cases "tl rs") (auto simp: schema_fp_from_pairs_def)
  have m: "ps = qs" if "map (\<lambda>(n, k). n @ '':'' @ k) ps = map (\<lambda>(n, k). n @ '':'' @ k) qs"
    using that assms
  proof (induction ps arbitrary: qs)
    case (Cons p ps)
    then obtain q qs' where q: "qs = q # qs'" by (cases qs) auto
    obtain n k n' k' where nk: "p = (n, k)" "q = (n', k')" by (metis surj_pair)
    have "n = n' \<and> k = k'"
      by (rule seg_inj) (use Cons.prems q nk in \<open>simp_all add: plain_pairs_def\<close>)
    moreover have "ps = qs'" by (rule Cons.IH) (use Cons.prems q in \<open>simp_all add: plain_pairs_def\<close>)
    ultimately show ?case using q nk by simp
  qed simp
  show "schema_fp_from_pairs ps = schema_fp_from_pairs qs \<longleftrightarrow> ps = qs"
  proof
    assume eq: "schema_fp_from_pairs ps = schema_fp_from_pairs qs"
    show "ps = qs"
    proof (cases "ps = []")
      case True
      with eq e show ?thesis by metis
    next
      case False
      with eq e have "qs \<noteq> []" by metis
      with False eq split_fp [OF assms(1)] split_fp [OF assms(2)] show ?thesis using m by metis
    qed
  qed simp
  show "names_of_fp (schema_fp_from_pairs ps) = fst ` set ps"
  proof (cases "ps = []")
    case True
    then show ?thesis by (simp add: names_of_fp_def schema_fp_from_pairs_def)
  next
    case False
    have "takeWhile (\<lambda>c. c \<noteq> CHR '':'') (n @ CHR '':'' # k) = n" if "(n, k) \<in> set ps" for n k
      using that assms(1) by (auto simp: plain_pairs_def takeWhile_append)
    with split_fp [OF assms(1) False] show ?thesis
      by (force simp: names_of_fp_def image_iff)
  qed
qed

text \<open>With those characters in a name it does not: a one-column and a two-column schema agree.\<close>

lemma schema_fp_ambiguous:
  "schema_fp_from_pairs [(''a:int;b'', ''int'')] = schema_fp_from_pairs [(''a'', ''int''), (''b'', ''int'')]"
  by (simp add: schema_fp_from_pairs_def)

end
