(* ===== verification/Store_History.thy ===== *)
theory Store_History
  imports Store_Reopen Jsonl_Store
begin

text \<open>
  The store over its whole life: any number of processes, one after another, that open the
  directory, commit, look up, load and clean up, each call with its own faults. \<open>store_step\<close> is
  one call; \<open>spec_step\<close> is the abstract store it is compared with, a map from keys to the values
  a reader may be given, for any function that says what is served of a committed result. Every history of the code is a history of the abstract store.
\<close>

section \<open>Directories that only lose results\<close>

definition decays :: "'r hooks \<Rightarrow> string \<Rightarrow> os \<Rightarrow> os \<Rightarrow> bool" where
  \<comment> \<open>a payload is as it was or gone; the manifest is as it was, unusable or empty\<close>
  "decays h fp s s' \<longleftrightarrow>
     (\<forall>k. payload_of h s' k \<in> {payload_of h s k, None}) \<and>
     disk_entries h fp s' \<in> {disk_entries h fp s, None, Some []} \<and> clock_ok h s' = clock_ok h s"

lemma decays_refl [simp]: "decays h fp s s"
  by (simp add: decays_def)

lemma decays_trans: "decays h fp s t \<Longrightarrow> decays h fp t u \<Longrightarrow> decays h fp s u"
  unfolding decays_def by (metis (no_types, opaque_lifting) insert_iff singletonD)

lemma decays_files:
  assumes "\<And>n. file_at s' n \<in> {file_at s n, None}" and "clock_ok h s' = clock_ok h s"
  shows "decays h fp s s'"
proof -
  have "payload_of h s' k \<in> {payload_of h s k, None}" for k
    using assms(1) [of "k @ suffix h"] by (auto simp: payload_of_def)
  moreover have "disk_entries h fp s' \<in> {disk_entries h fp s, None}"
    using assms(1) [of MANIFEST_NAME] by (auto simp: disk_entries_def)
  ultimately show ?thesis using assms(2) by (auto simp: decays_def)
qed

lemma checked_lost: "po' \<in> {po, None} \<Longrightarrow> checked h fp k eo po' \<in> {checked h fp k eo po, None}"
  by (auto simp: checked_def split: option.split)

lemma decays_durable:
  assumes "decays h fp s s'"
  shows "durable h fp s' k \<in> {durable h fp s k, None}"
proof -
  have "payload_of h s' k \<in> {payload_of h s k, None}"
    and e: "disk_entries h fp s' \<in> {disk_entries h fp s, None, Some []}" using assms by (simp_all add: decays_def)
  note c = checked_lost [OF this(1), of h fp k]
  from e consider "disk_entries h fp s' = disk_entries h fp s" | "disk_entries h fp s' = None" | "disk_entries h fp s' = Some []"
    by (elim insertE emptyE)
  then show ?thesis
  proof cases
    case 1
    then show ?thesis unfolding durable_def by (cases "disk_entries h fp s") (use c in auto)
  qed (simp_all add: durable_def checked_def)
qed

lemma decays_vouched:
  "decays h fp s s' \<Longrightarrow> vouched h st s' k \<in> {vouched h st s k, None}"
  unfolding decays_def vouched_def using checked_lost by metis

definition decaying :: "'r hooks \<Rightarrow> string \<Rightarrow> 'a act \<Rightarrow> bool" where
  "decaying h fp m \<longleftrightarrow> (\<forall>s. clock_ok h s \<longrightarrow> decays h fp s (snd (m s)))"

lemma decayingD: "decaying h fp m \<Longrightarrow> m s = (q, s') \<Longrightarrow> clock_ok h s \<Longrightarrow> decays h fp s s'"
  by (metis decaying_def snd_conv)

lemma decaying_bind:
  assumes "decaying h fp m" and "\<And>x. decaying h fp (f x)"
  shows "decaying h fp (bind_act m f)"
  unfolding decaying_def
proof (intro allI impI)
  fix s assume ok: "clock_ok h s"
  obtain q s1 where m: "m s = (q, s1)" by fastforce
  have d: "decays h fp s s1" by (rule decayingD [OF assms(1) m ok])
  then have ok1: "clock_ok h s1" using ok by (simp add: decays_def)
  have "decays h fp s1 (snd (f x s1))" for x using assms(2) ok1 by (simp add: decaying_def)
  with d m show "decays h fp s (snd (bind_act m f s))"
    by (auto simp: bind_act_def split: sum.split intro: decays_trans)
qed

lemma decaying_then: "decaying h fp m \<Longrightarrow> decaying h fp n \<Longrightarrow> decaying h fp (then_act m n)"
  by (simp add: then_act_def decaying_bind)

lemma decaying_ret [simp]: "decaying h fp (ret x)"
  by (simp add: decaying_def ret_def)

lemma decaying_catch:
  assumes "decaying h fp m"
  shows "decaying h fp (catch_OSError m (ret x))"
  unfolding decaying_def
proof (intro allI impI)
  fix s assume ok: "clock_ok h s"
  obtain q s1 where m: "m s = (q, s1)" by fastforce
  from decayingD [OF assms m ok] m show "decays h fp s (snd (catch_OSError m (ret x) s))"
    by (auto simp: catch_OSError_def ret_def split: sum.split)
qed

lemma decays_advance: "decays h fp s (advance s)"
  by (rule decays_files) (simp_all add: clock_ok_def world_ok_def)

lemma decaying_syscall:
  assumes "\<And>s. decays h fp s (snd (body s))"
  shows "decaying h fp (syscall nothing_partial body)"
proof -
  have "decays h fp s (snd (body (advance s)))" for s
    by (rule decays_trans [OF decays_advance assms])
  then show ?thesis
    using decays_advance by (auto simp: decaying_def syscall_def Let_def split: fault.split option.split)
qed

lemma clock_files [simp]: "clock_ok h (s\<lparr>files := d\<rparr>) = clock_ok h s" "clock_ok h (s\<lparr>dir_exists := b\<rparr>) = clock_ok h s"
  by (simp_all add: clock_ok_def world_ok_def)

lemma decays_pop: "decays h fp s (s\<lparr>files := dict_pop n (files s)\<rparr>)"
proof (rule decays_files)
  show "file_at (s\<lparr>files := dict_pop n (files s)\<rparr>) j \<in> {file_at s j, None}" for j
    by (cases "j = n") simp_all
qed simp

lemma decaying_unlink: "decaying h fp (fs_unlink n)"
  unfolding fs_unlink_def by (rule decaying_syscall) (simp add: decays_pop split: option.split node.split)

lemma decaying_unlink_each: "decaying h fp (unlink_each ns)"
  by (induction ns) (auto intro!: decaying_then decaying_catch decaying_unlink)

lemma decaying_touches:
  assumes "touches {} m"
  shows "decaying h fp m"
  unfolding decaying_def
proof (intro allI impI)
  fix s
  have k: "keeps {} s (snd (m s))" using assms by (simp add: touches_def)
  show "decays h fp s (snd (m s))"
    using keepsD(1,5,6,9) [OF k] by (intro decays_files) (simp_all add: clock_ok_def world_ok_def)
qed

lemma decaying_wipe: "decaying h fp wipe_tree" "decaying h fp sweep_orphan_tmps"
proof -
  show "decaying h fp wipe_tree"
    unfolding wipe_tree_def by (intro decaying_bind decaying_unlink_each decaying_touches touches_listdir)
  show "decaying h fp sweep_orphan_tmps" unfolding decaying_def sweep_orphan_tmps_def
    by (auto intro!: decayingD [OF decaying_unlink_each prod.collapse [symmetric]])
qed

lemma decays_dir: "decays h fp s (s\<lparr>dir_exists := b\<rparr>)"
  by (rule decays_files) (simp_all add: file_at_def del: dict_get_files)

lemma decaying_mkdir: "decaying h fp mkdir"
  unfolding mkdir_def by (rule decaying_syscall) (simp add: decays_dir)

lemma decaying_remove_each: "decaying h fp (remove_each ns)"
  by (induction ns) (auto intro!: decaying_then decaying_catch decaying_syscall decays_pop)

lemma decaying_cleanup: "decaying h fp cleanup"
proof -
  have "decaying h fp (catch_OSError
      (syscall nothing_partial (\<lambda>s. if files s = [] then (Inr (), s\<lparr>dir_exists := False\<rparr>) else (Inl os_error, s))) (ret ()))"
    by (intro decaying_catch decaying_syscall) (simp add: decays_dir)
  from decaying_then [OF decaying_remove_each this] show ?thesis by (simp add: decaying_def cleanup_def)
qed

section \<open>The calls of a store, process after process\<close>

datatype 'r event =
    Commits string string 'r      \<comment> \<open>\<open>commit\<close> returned\<close>
  | CommitFails string string 'r  \<comment> \<open>\<open>commit\<close> raised, or the process died in it\<close>
  | Loads string string 'r        \<comment> \<open>\<open>load\<close> returned this result\<close>
  | Hits string string            \<comment> \<open>\<open>has\<close> returned True\<close>
  | Misses string string          \<comment> \<open>without a fault, \<open>load\<close> raised or \<open>has\<close> returned False\<close>
  | Disturbed                     \<comment> \<open>a read that a fault made fail\<close>
  | Cleans                        \<comment> \<open>\<open>cleanup\<close>\<close>
  | Opens bool                    \<comment> \<open>a new process opened the directory; whether no call of it failed\<close>
  | OpenFails                     \<comment> \<open>opening raised, or the process died in it\<close>

definition same_dir :: "os \<Rightarrow> os \<Rightarrow> bool" where
  \<comment> \<open>the same directory; the faults, the clock and the process may be others\<close>
  "same_dir s t \<longleftrightarrow> files t = files s \<and> dir_exists t = dir_exists s"

definition survivor :: "'a result \<Rightarrow> store \<Rightarrow> store option" where
  \<comment> \<open>an Exception leaves the process and its store object alive\<close>
  "survivor q st = (case q of Inr u \<Rightarrow> Some st | Inl x \<Rightarrow> if is_Exception x then Some st else None)"

inductive store_step :: "'r hooks \<Rightarrow> ('r \<Rightarrow> bool) \<Rightarrow> string \<Rightarrow> store option \<times> os \<Rightarrow> 'r event \<Rightarrow> store option \<times> os \<Rightarrow> bool"
  for h clean fp where
  commits: "same_dir s t \<Longrightarrow> clock_ok h t \<Longrightarrow> clean r \<Longrightarrow> utf8_ok ph \<Longrightarrow> commit h st k ph r t = (q, st', s') \<Longrightarrow>
    store_step h clean fp (Some st, s) (case q of Inr u \<Rightarrow> Commits k ph r | Inl x \<Rightarrow> CommitFails k ph r)
      (survivor q st', s')"
| loads: "same_dir s t \<Longrightarrow> load h st k x t = (q, s') \<Longrightarrow>
    store_step h clean fp (Some st, s)
      (case q of Inr r \<Rightarrow> Loads k x r | Inl e \<Rightarrow> if fault_free t then Misses k x else Disturbed) (survivor q st, s')"
| looks_up: "same_dir s t \<Longrightarrow> has h st k x t = (q, s') \<Longrightarrow>
    store_step h clean fp (Some st, s)
      (if q = Inr True then Hits k x else if fault_free t then Misses k x else Disturbed) (survivor q st, s')"
| cleans: "same_dir s t \<Longrightarrow> clock_ok h t \<Longrightarrow> cleanup t = (q, s') \<Longrightarrow>
    store_step h clean fp (Some st, s) Cleans (survivor q st, s')"
| opens: "same_dir s t \<Longrightarrow> clock_ok h t \<Longrightarrow> open_store h (Some True) fp t = (Inr st, s') \<Longrightarrow>
    store_step h clean fp (so, s) (Opens (fault_free t)) (Some st, s')"
| open_fails: "same_dir s t \<Longrightarrow> clock_ok h t \<Longrightarrow> open_store h (Some True) fp t = (Inl x, s') \<Longrightarrow>
    store_step h clean fp (so, s) OpenFails (None, s')"

inductive store_trace :: "'r hooks \<Rightarrow> ('r \<Rightarrow> bool) \<Rightarrow> string \<Rightarrow> store option \<times> os \<Rightarrow> 'r event list \<Rightarrow> store option \<times> os \<Rightarrow> bool"
  for h clean fp where
  stops: "store_trace h clean fp c [] c"
| goes: "store_step h clean fp c ev c1 \<Longrightarrow> store_trace h clean fp c1 evs c2 \<Longrightarrow> store_trace h clean fp c (ev # evs) c2"

section \<open>The abstract store\<close>

text \<open>
  For every key, the set of the values a reader may be given: \<open>None\<close> for a miss, \<open>Some (ph, r)\<close>
  for the result of a payload hash. A commit that returned leaves one value, what is served of its
  result, or a miss if the readers reject it; one that did not return leaves the key in doubt,
  and what opens or cleans the directory may lose it.
\<close>

type_synonym 'r possible = "string \<Rightarrow> (string \<times> 'r) option set"

fun spec_step :: "('r \<Rightarrow> 'r option) \<Rightarrow> string \<Rightarrow> 'r event \<Rightarrow> 'r possible \<Rightarrow> 'r possible option" where
  "spec_step sv sfx (Commits k ph r) A = Some (A(k := {seen sv ph r}))"
| "spec_step sv sfx (CommitFails k ph r) A = Some (A(k := A k \<union> {None, seen sv ph r}))"
| "spec_step sv sfx (Loads k x r) A = (if Some (x, r) \<in> A k then Some A else None)"
| "spec_step sv sfx (Hits k x) A = (if \<exists>v\<in>A k. map_option fst v = Some x then Some A else None)"
| "spec_step sv sfx (Misses k x) A = (if \<exists>v\<in>A k. map_option fst v \<noteq> Some x then Some A else None)"
| "spec_step sv sfx Disturbed A = Some A"
| "spec_step sv sfx Cleans A = Some (\<lambda>k. insert None (A k))"
| "spec_step sv sfx (Opens faultless) A = Some (\<lambda>k. if faultless \<and> \<not> is_tmp_name (k @ sfx) then A k else insert None (A k))"
| "spec_step sv sfx OpenFails A = Some (\<lambda>k. insert None (A k))"

fun spec_run :: "('r \<Rightarrow> 'r option) \<Rightarrow> string \<Rightarrow> 'r event list \<Rightarrow> 'r possible \<Rightarrow> 'r possible option" where
  "spec_run sv sfx [] A = Some A"
| "spec_run sv sfx (ev # evs) A = (case spec_step sv sfx ev A of None \<Rightarrow> None | Some B \<Rightarrow> spec_run sv sfx evs B)"

section \<open>The relation between the two\<close>

definition disk_ok :: "'r hooks \<Rightarrow> string \<Rightarrow> os \<Rightarrow> bool" where
  \<comment> \<open>there is no usable manifest, or it is one a store of this fingerprint wrote\<close>
  "disk_ok h fp s \<longleftrightarrow> disk_entries h fp s = None \<or> disk_valid h fp s"

definition permits :: "'r hooks \<Rightarrow> string \<Rightarrow> 'r possible \<Rightarrow> store option \<times> os \<Rightarrow> bool" where
  "permits h fp A c \<longleftrightarrow>
     disk_ok h fp (snd c) \<and> (\<forall>k. durable h fp (snd c) k \<in> A k) \<and>
     (\<forall>st. fst c = Some st \<longrightarrow>
        manifest_ok h st \<and> fingerprint st = fp \<and> (\<forall>k. vouched h st (snd c) k \<in> A k))"

lemma permits_dead: "permits h fp A (None, s) \<longleftrightarrow> disk_ok h fp s \<and> (\<forall>k. durable h fp s k \<in> A k)"
  by (simp add: permits_def)

lemma permits_alive:
  "permits h fp A (Some st, s) \<longleftrightarrow> permits h fp A (None, s) \<and> manifest_ok h st \<and> fingerprint st = fp \<and>
     (\<forall>k. vouched h st s k \<in> A k)"
  by (auto simp: permits_def)

lemma permits_survivor: "permits h fp A (Some st, s) \<Longrightarrow> permits h fp A (survivor q st, s)"
  by (simp add: survivor_def permits_def split: sum.split)

lemma same_files_disk:
  assumes "\<And>n. file_at t n = file_at s n"
  shows "disk_entries h fp t = disk_entries h fp s" and "durable h fp t k = durable h fp s k"
    and "vouched h st t k = vouched h st s k" and "disk_ok h fp t = disk_ok h fp s"
proof -
  have p: "payload_of h t j = payload_of h s j" for j by (rule payload_of_same [OF assms])
  show d: "disk_entries h fp' t = disk_entries h fp' s" for fp' by (rule disk_entries_keeps [OF assms])
  show "durable h fp t k = durable h fp s k" by (rule durable_cong [OF d p])
  show "vouched h st t k = vouched h st s k" unfolding vouched_def p ..
  show "disk_ok h fp t = disk_ok h fp s" unfolding disk_ok_def d disk_valid_file [OF assms] ..
qed

lemma permits_files:
  assumes "\<And>n. file_at t n = file_at s n"
  shows "permits h fp A (so, t) = permits h fp A (so, s)"
  by (simp add: permits_def same_files_disk [OF assms])

lemma same_dir_files: "same_dir s t \<Longrightarrow> file_at t n = file_at s n"
  by (simp add: same_dir_def file_at_def del: dict_get_files)

lemma permits_same_dir: "same_dir s t \<Longrightarrow> permits h fp A (so, s) \<Longrightarrow> permits h fp A (so, t)"
  by (simp add: permits_files [OF same_dir_files])

section \<open>Every call is one of the abstract store\<close>

lemma empty_manifest_ok: "utf8_ok fp \<Longrightarrow> manifest_ok h \<lparr>fingerprint = fp, entries = []\<rparr>"
  by (simp add: manifest_ok_def)

lemma disk_ok_decays:
  assumes "decays h fp s s'" and "disk_ok h fp s" and "utf8_ok fp"
  shows "disk_ok h fp s'"
proof -
  have "disk_valid h fp s'" if "disk_entries h fp s' = Some []"
    unfolding disk_valid_def synced_def using that empty_manifest_ok [OF assms(3), of h]
    by (intro exI [of _ "\<lparr>fingerprint = fp, entries = []\<rparr>"]) (simp add: norm_entries_def)
  moreover have "disk_valid h fp s'" if "disk_entries h fp s' = disk_entries h fp s" "disk_entries h fp s \<noteq> None"
    using that assms(2) by (auto simp: disk_ok_def disk_valid_def synced_def)
  moreover have "disk_entries h fp s' \<in> {disk_entries h fp s, None, Some []}" using assms(1) by (simp add: decays_def)
  ultimately show ?thesis unfolding disk_ok_def by (metis insert_iff singletonD)
qed

lemma permits_decays:
  assumes "permits h fp A (so, s)" and "decays h fp s s'" and "utf8_ok fp"
  shows "permits h fp (\<lambda>k. insert None (A k)) (so, s')"
proof -
  have "durable h fp s' k \<in> insert None (A k)" for k
    using assms(1) decays_durable [OF assms(2), of k] by (auto simp: permits_def)
  moreover have "vouched h st s' k \<in> insert None (A k)" if "so = Some st" for st k
    using assms(1) that decays_vouched [OF assms(2), of st k] by (auto simp: permits_def)
  ultimately show ?thesis
    using assms(1) disk_ok_decays [OF assms(2) _ assms(3)] by (simp add: permits_def)
qed

context store_codec
begin

lemma decaying_empty_manifest: "decaying h fp (write_manifest \<lparr>fingerprint = fp, entries = []\<rparr>)" if "utf8_ok fp"
  unfolding decaying_def
proof (intro allI impI)
  fix s assume ok: "clock_ok h s"
  let ?st = "\<lparr>fingerprint = fp, entries = []\<rparr>"
  obtain q s' where m: "write_manifest ?st s = (q, s')" by fastforce
  note w = manifest_written [OF m ok]
  have "disk_entries h fp s' \<in> {disk_entries h fp s, None, Some []}"
    using w(2) disk_entries_written [OF empty_manifest_ok [OF that], of s' h] disk_entries_keeps [of s' s h fp]
    by (auto simp: synced_def norm_entries_def)
  then have "decays h fp s s'" using w(1,3) ok by (simp add: decays_def)
  then show "decays h fp s (snd (write_manifest ?st s))" by (simp add: m)
qed

lemma decaying_open:
  assumes "utf8_ok fp"
  shows "decaying h fp (open_store h lock fp)"
proof -
  have "decaying h fp (case m of Some es \<Rightarrow> ret \<lparr>fingerprint = fp, entries = es\<rparr>
      | None \<Rightarrow> then_act wipe_tree (then_act (write_manifest \<lparr>fingerprint = fp, entries = []\<rparr>)
          (ret \<lparr>fingerprint = fp, entries = []\<rparr>)))" for m
    by (auto split: option.split intro!: decaying_then decaying_wipe decaying_empty_manifest assms)
  then have "decaying h fp (load_or_invalidate_manifest h fp)"
    unfolding load_or_invalidate_manifest_def by (rule decaying_bind [OF decaying_touches [OF touches_read_manifest]])
  then show ?thesis
    unfolding open_store_def
    by (auto simp: decaying_def raise_def
        intro!: decayingD [OF decaying_then [OF decaying_mkdir decaying_bind [OF _ decaying_then [OF decaying_wipe(2) decaying_ret]]]
          prod.collapse [symmetric]])
qed

lemma opened_permits:
  assumes "open_store h (Some True) fp t = (Inr st, s')" and "permits h fp A (None, t)" and "clock_ok h t" and "utf8_ok fp"
  shows "permits h fp (\<lambda>k. if fault_free t \<and> \<not> is_tmp_name (k @ suffix h) then A k else insert None (A k)) (Some st, s')"
proof -
  have d: "decays h fp t s'" by (rule decayingD [OF decaying_open [OF assms(4)] assms(1,3)])
  have A: "disk_ok h fp t" "\<And>k. durable h fp t k \<in> A k" using assms(2) by (simp_all add: permits_def)
  note o = open_outcome [OF assms(1)]
  have ok: "manifest_ok h st"
  proof -
    have "manifest_ok h st" if "entries st = []" using that o(3) assms(4) by (simp add: manifest_ok_def)
    moreover have "manifest_ok h st" if e: "disk_entries h fp t = Some (entries st)"
    proof -
      from A(1) e obtain st0 where "manifest_ok h st0" "fingerprint st0 = fp" "entries st = norm_entries (entries st0)"
        by (auto simp: disk_ok_def disk_valid_def synced_def)
      moreover from this have "st0\<lparr>entries := norm_entries (entries st0)\<rparr> = st" using o(3) by (cases st0; cases st) simp
      ultimately show ?thesis using manifest_ok_norm by metis
    qed
    ultimately show ?thesis using o(4) by blast
  qed
  have v: "vouched h st s' k \<in> {durable h fp t k, None}" for k
  proof -
    have c: "vouched h st t k \<in> {durable h fp t k, None}"
      using o(3,4) by (auto simp: vouched_def durable_def checked_def)
    with decays_vouched [OF d, of st k] show ?thesis by auto
  qed
  have undisturbed: "vouched h st s' k = durable h fp t k \<and> durable h fp s' k = durable h fp t k"
    if "fault_free t" "\<not> is_tmp_name (k @ suffix h)" for k
  proof (cases "disk_entries h fp t")
    case None
    then have "durable h fp t k = None" by (simp add: durable_def)
    with v [of k] decays_durable [OF d, of k] show ?thesis by simp
  next
    case (Some es)
    with A(1) have "disk_valid h fp t" by (simp add: disk_ok_def)
    from reopen_sound [OF this that(1) o(2)] assms(1) have u: "manifest_ok h st" "synced h st s'"
      and e: "vouched h st s' k = durable h fp t k" using that(2) by auto
    from synced_durable [OF u, of k] o(3) e show ?thesis by simp
  qed
  have "durable h fp s' k \<in> insert None (A k) \<and> vouched h st s' k \<in> insert None (A k)" for k
    using A(2) [of k] v [of k] decays_durable [OF d, of k] by auto
  moreover have "disk_ok h fp s'" by (rule disk_ok_decays [OF d A(1) assms(4)])
  ultimately show ?thesis using A(2) undisturbed ok o(3) by (auto simp: permits_def)
qed

lemma published_any:
  assumes p: "publish st k e s = (q, st', s')" and ok: "manifest_ok h st" "entry_ok h k e" "clock_ok h s" "disk_ok h fp s"
    and fp: "fingerprint st = fp" and new: "checked h fp k (Some e) (payload_of h s k) = new"
  shows "disk_ok h fp s'"
    and "durable h fp s' j = (if j = k then new else vouched h st s j) \<or> (\<exists>x. q = Inl x) \<and> durable h fp s' j = durable h fp s j"
    and "vouched h st2 s' j = vouched h st2 s j"
    and "q = Inr () \<Longrightarrow> manifest_ok h st' \<and> fingerprint st' = fp \<and>
           vouched h st' s' j = (if j = k then new else vouched h st s j)"
proof -
  let ?st1 = "st\<lparr>entries := dict_set k e (entries st)\<rparr>"
  note pu = publish_durable [OF p ok(1-3), unfolded fp]
  obtain q2 where m: "write_manifest ?st1 s = (q2, s')"
    using p by (auto simp: publish_def Let_def split: prod.splits sum.splits)
  note keep = manifest_written(1) [OF m ok(3)]
  have ent: "checked h fp j (dict_get (entries ?st1) j) (payload_of h s j) = (if j = k then new else vouched h st s j)" for j
    by (simp add: new vouched_def fp)
  show "vouched h st2 s' j = vouched h st2 s j" unfolding vouched_def keep ..
  show "durable h fp s' j = (if j = k then new else vouched h st s j) \<or> (\<exists>x. q = Inl x) \<and> durable h fp s' j = durable h fp s j"
    using pu(1) ent by metis
  show "q = Inr () \<Longrightarrow> manifest_ok h st' \<and> fingerprint st' = fp \<and> vouched h st' s' j = (if j = k then new else vouched h st s j)"
    using pu(2,3) ent [of j] keep [of j] fp by (simp add: vouched_def)
  have "disk_valid h fp s'" if "synced h ?st1 s'"
    using that pu(3) unfolding disk_valid_def by (intro exI [of _ ?st1]) (simp add: fp)
  moreover have "disk_ok h fp s'" if "file_at s' MANIFEST_NAME = file_at s MANIFEST_NAME"
    using ok(4) by (simp add: disk_ok_def disk_entries_keeps [OF that] disk_valid_file [OF that])
  ultimately show "disk_ok h fp s'"
    using manifest_written(2) [OF m ok(3)] disk_entries_written [OF pu(3)] by (auto simp: disk_ok_def)
qed

lemma commit_permits:
  assumes c: "commit h st k ph r s = (q, st', s')" and A: "permits h fp A (Some st, s)"
    and env: "clock_ok h s" "clean r" "utf8_ok ph"
  shows "permits h fp (case q of Inr u \<Rightarrow> A(k := {seen served ph r}) | Inl x \<Rightarrow> A(k := A k \<union> {None, seen served ph r}))
     (survivor q st', s')"
proof -
  let ?B = "A(k := A k \<union> {None, seen served ph r})"
  obtain q1 s1 where w: "write_payload h st k ph r s = (q1, s1)" by fastforce
  note wa = write_payload_any [OF w env(1,2)]
  have a: "disk_ok h fp s" "manifest_ok h st" "fingerprint st = fp" "\<And>j. durable h fp s j \<in> A j" "\<And>j. vouched h st s j \<in> A j"
    using A by (simp_all add: permits_def)
  have b: "durable h fp s1 j \<in> ?B j" "vouched h st s1 j \<in> ?B j" for j
  proof -
    show "durable h fp s1 j \<in> ?B j" using wa(2) [of fp] wa(3) [of j fp] a(4) [of j] by (cases "j = k") auto
    show "vouched h st s1 j \<in> ?B j" using wa(4) [of st] wa(5) [of j st] a(5) [of j] by (cases "j = k") auto
  qed
  have ok1: "disk_ok h fp s1"
    using a(1) disk_valid_file [OF payload_written(1) [OF w env(1)], of h fp] by (simp add: disk_ok_def wa(1) [of fp])
  show ?thesis
  proof (cases q1)
    case (Inl x)
    with c w have "s' = s1" "q = Inl x" "st' = st" by (simp_all add: commit_def)
    with ok1 a(2,3) b show ?thesis by (simp add: permits_def survivor_def)
  next
    case (Inr e)
    note pw = payload_written [OF w env(1)]
    from pw(4) [OF Inr] obtain body where n: "payload_new h s st k ph r e body"
        "payload_of h s1 k = read_body h body" by blast
    have p: "publish st k e s1 = (q, st', s')" using c w Inr by (simp add: commit_def)
    have "checked h fp k (Some e) (payload_of h s1 k) = seen served ph r"
      using fresh_payload [OF n(1) env(2)] n(2) a(3) by simp
    note pa = published_any [OF p a(2) commit_entry_ok [OF n(1) env(3,1)] pw(5) ok1 a(3) this]
    show ?thesis
    proof (cases q)
      case (Inl x)
      have "durable h fp s' j \<in> ?B j" for j using pa(2) [of j] b [of j] by (auto split: if_splits)
      moreover have "st' = st" if "is_Exception x" by (rule commit_rollback [OF c [unfolded Inl] that])
      ultimately show ?thesis using Inl pa(1) pa(3) a(2,3) b(2) by (auto simp: permits_def survivor_def)
    next
      case (Inr u)
      have "v \<in> (A(k := {seen served ph r})) j" if "v = (if j = k then seen served ph r else vouched h st s1 j)" for v j
        using that wa(5) [of j] a(5) [of j] by auto
      then show ?thesis using Inr pa(1) pa(2,4) by (simp add: permits_def survivor_def)
    qed
  qed
qed

lemma read_permits:
  assumes "permits h fp A (Some st, s)" and "\<And>n. file_at s' n = file_at s n"
  shows "permits h fp A (survivor q st, s')"
  by (simp add: permits_files [OF assms(2)] permits_survivor [OF assms(1)])

lemma step_permitted:
  assumes "store_step h clean fp c ev c'" and "permits h fp A c" and "utf8_ok fp"
  shows "\<exists>B. spec_step served (suffix h) ev A = Some B \<and> permits h fp B c'"
  using assms
proof (cases rule: store_step.cases)
  case (commits s t r ph st k q st' s')
  have "permits h fp A (Some st, t)" using assms(2) commits(1) permits_same_dir [OF commits(4)] by simp
  from commit_permits [OF commits(8) this commits(5-7)] commits(2,3) show ?thesis by (cases q) simp_all
next
  case (loads s t st k x q s')
  have t: "permits h fp A (Some st, t)" using assms(2) loads(1) permits_same_dir [OF loads(4)] by simp
  have "\<And>n. file_at s' n = file_at t n" using touchesD(1) [OF touches_load loads(5), of _ "{}"] by simp
  note p = read_permits [OF t this]
  have v: "vouched h st t k \<in> A k" using t by (simp add: permits_def)
  show ?thesis
  proof (cases q)
    case (Inr r)
    with load_outcome [of h st k x t r s'] loads(5) v have "Some (x, r) \<in> A k" by simp
    with p Inr loads(2,3) show ?thesis by simp
  next
    case (Inl e)
    have "map_option fst (vouched h st t k) \<noteq> Some x" if "fault_free t"
      using load_hit [OF that] loads(5) Inl by force
    with v p Inl loads(2,3) show ?thesis by auto
  qed
next
  case (looks_up s t st k x q s')
  have t: "permits h fp A (Some st, t)" using assms(2) looks_up(1) permits_same_dir [OF looks_up(4)] by simp
  have "\<And>n. file_at s' n = file_at t n" using touchesD(1) [OF touches_has looks_up(5), of _ "{}"] by simp
  note p = read_permits [OF t this]
  have v: "vouched h st t k \<in> A k" using t by (simp add: permits_def)
  show ?thesis
  proof (cases "q = Inr True")
    case True
    with has_outcome [of h st k x t True s'] looks_up(5) obtain r where "vouched h st t k = Some (x, r)" by auto
    with v p True looks_up(2,3) show ?thesis by force
  next
    case False
    have "map_option fst (vouched h st t k) \<noteq> Some x" if "fault_free t"
      using has_hit [OF that] looks_up(5) False by force
    with v p False looks_up(2,3) show ?thesis by auto
  qed
next
  case (cleans s t q s' st)
  have "permits h fp A (Some st, t)" using assms(2) cleans(1) permits_same_dir [OF cleans(4)] by simp
  from permits_survivor [OF permits_decays [OF this decayingD [OF decaying_cleanup cleans(6,5)] assms(3)]] cleans(2,3)
  show ?thesis by simp
next
  case (opens s t st s' so)
  have "permits h fp A (so, t)" using assms(2) opens(1) permits_same_dir [OF opens(4)] by simp
  then have "permits h fp A (None, t)" by (simp add: permits_def)
  from opened_permits [OF opens(6) this opens(5) assms(3)] opens(2,3) show ?thesis by simp
next
  case (open_fails s t x s' so)
  have "permits h fp A (so, t)" using assms(2) open_fails(1) permits_same_dir [OF open_fails(4)] by simp
  then have "permits h fp A (None, t)" by (simp add: permits_def)
  from permits_decays [OF this decayingD [OF decaying_open [OF assms(3)] open_fails(6,5)] assms(3)] open_fails(2,3)
  show ?thesis by simp
qed

lemma trace_permitted:
  assumes "store_trace h clean fp c evs c'" and "permits h fp A c" and "utf8_ok fp"
  shows "\<exists>B. spec_run served (suffix h) evs A = Some B \<and> permits h fp B c'"
  using assms(1,2)
proof (induction arbitrary: A)
  case (goes c ev c1 evs c2)
  from step_permitted [OF goes(1,4) assms(3)] goes(3) show ?case by force
qed simp

end

section \<open>What the abstract store promises\<close>

fun recommits :: "string \<Rightarrow> 'r event \<Rightarrow> bool" where
  "recommits k (Commits j ph r) = (j = k)"
| "recommits k (CommitFails j ph r) = (j = k)"
| "recommits k ev = False"

fun may_lose :: "string \<Rightarrow> 'r event \<Rightarrow> bool" where
  "may_lose name (Opens faultless) = (\<not> faultless \<or> is_tmp_name name)"
| "may_lose name OpenFails = True"
| "may_lose name Cleans = True"
| "may_lose name ev = False"

lemma spec_step_other:
  assumes "spec_step sv sfx ev A = Some B" and "\<not> recommits k ev"
  shows "B k = A k \<or> may_lose (k @ sfx) ev \<and> B k = insert None (A k)"
  using assms by (cases ev) (auto split: if_splits)

lemma spec_run_append:
  "spec_run sv sfx (xs @ ys) A = (case spec_run sv sfx xs A of None \<Rightarrow> None | Some B \<Rightarrow> spec_run sv sfx ys B)"
  by (induction xs arbitrary: A) (auto split: option.split)

lemma spec_run_other:
  assumes "spec_run sv sfx evs A = Some B" and "\<forall>ev\<in>set evs. \<not> recommits k ev"
  shows "B k \<subseteq> insert None (A k)" and "\<forall>ev\<in>set evs. \<not> may_lose (k @ sfx) ev \<Longrightarrow> B k = A k"
proof -
  have "B k \<subseteq> insert None (A k) \<and> ((\<forall>ev\<in>set evs. \<not> may_lose (k @ sfx) ev) \<longrightarrow> B k = A k)"
    using assms
  proof (induction evs arbitrary: A)
    case (Cons ev evs)
    then obtain A1 where "spec_step sv sfx ev A = Some A1" "spec_run sv sfx evs A1 = Some B"
      by (auto split: option.splits)
    with Cons.IH [of A1] Cons.prems(2) spec_step_other [of sv sfx ev A A1 k] show ?case by auto
  qed auto
  then show "B k \<subseteq> insert None (A k)" "\<forall>ev\<in>set evs. \<not> may_lose (k @ sfx) ev \<Longrightarrow> B k = A k" by blast+
qed

lemma spec_last_commit:
  assumes "spec_run sv sfx (evs1 @ Commits k ph r # evs2 @ [ev]) A = Some B" and "\<forall>e\<in>set evs2. \<not> recommits k e"
  shows "ev = Loads k x r' \<Longrightarrow> x = ph \<and> sv r = Some r'"
    and "\<forall>e\<in>set evs2. \<not> may_lose (k @ sfx) e \<Longrightarrow> sv r \<noteq> None \<Longrightarrow> ev \<noteq> Misses k ph"
proof -
  from assms(1) obtain A1 A2 where "spec_run sv sfx evs1 A = Some A1"
      and e: "spec_run sv sfx evs2 (A1(k := {seen sv ph r})) = Some A2" "spec_step sv sfx ev A2 = Some B"
    by (auto simp: spec_run_append split: option.splits)
  note o = spec_run_other [OF e(1) assms(2)]
  show "ev = Loads k x r' \<Longrightarrow> x = ph \<and> sv r = Some r'"
    using e(2) o(1) by (cases "sv r") (auto simp: seen_def split: if_splits)
  show "\<forall>e\<in>set evs2. \<not> may_lose (k @ sfx) e \<Longrightarrow> sv r \<noteq> None \<Longrightarrow> ev \<noteq> Misses k ph"
    using e(2) o(2) by (auto simp: seen_def split: if_splits)
qed

section \<open>A directory that something else has damaged\<close>

text \<open>
  The digest in the manifest binds the body: when no other bytes have the same SHA-256, a load
  gives back what renders to the committed bytes, whatever is in the payload file by then.
\<close>

definition no_second_preimage :: "'r hooks \<Rightarrow> string \<Rightarrow> bool" where
  "no_second_preimage h c \<longleftrightarrow> (\<forall>b. sha256_hex h b = sha256_hex h c \<longrightarrow> b = c)"

lemma checked_digest:
  assumes "vouched h st u k = Some (x, r2)" and "dict_get (entries st) k = Some e"
    and "entry_get e ''payload_hash'' = Some (JStr ph)" and "entry_get e ''result_digest'' = Some (JStr (sha256_hex h c))"
    and "entry_get e ''record_count'' = Some (JInt n)" and "no_second_preimage h c"
  shows "x = ph \<and> canonical_bytes h r2 = Inr c \<and> record_count h r2 = n"
proof -
  from assms(1,2) obtain m where "entry_get e ''payload_hash'' = Some (JStr x)" "check h (fingerprint st) k x r2 m e = Inr Ok"
    by (auto simp: vouched_Some)
  with assms(3-6) show ?thesis
    by (auto simp: check_Ok digest_info_def no_second_preimage_def int_repr_inj split: sum.splits)
qed

context store_codec
begin

lemma committed_entry:
  assumes "commit h st k ph r s = (Inr (), st', s')" and "manifest_ok h st" and "clock_ok h s" and "clean r" and "utf8_ok ph"
    and "canonical_bytes h r = Inr c"
  obtains e where "disk_entries h (fingerprint st) s' = Some (norm_entries (dict_set k e (entries st)))" and "dict_ok e"
    and "manifest_ok h (st\<lparr>entries := dict_set k e (entries st)\<rparr>)"
    and "entry_get e ''payload_hash'' = Some (JStr ph)" and "entry_get e ''result_digest'' = Some (JStr (sha256_hex h c))"
    and "entry_get e ''record_count'' = Some (JInt (record_count h r))"
proof -
  from assms(1) obtain e s1 where w: "write_payload h st k ph r s = (Inr e, s1)" and p: "publish st k e s1 = (Inr (), st', s')"
    by (auto simp: commit_def split: prod.splits sum.splits)
  note pw = payload_written [OF w assms(3)]
  from pw(4) [OF refl] obtain body where n: "payload_new h s st k ph r e body" by blast
  note ok = commit_entry_ok [OF n assms(5,3)]
  let ?st1 = "st\<lparr>entries := dict_set k e (entries st)\<rparr>"
  have ok1: "manifest_ok h ?st1" by (rule manifest_ok_insert [OF assms(2) ok])
  obtain q where m: "write_manifest ?st1 s1 = (q, s')" "q = Inr ()"
    using p by (auto simp: publish_def Let_def split: prod.splits sum.splits)
  have "synced h ?st1 s'" using manifest_written(2) [OF m(1) pw(5)] m(2) disk_entries_written [OF ok1] by auto
  then have "disk_entries h (fingerprint st) s' = Some (norm_entries (dict_set k e (entries st)))" by (simp add: synced_def)
  moreover from n assms(6) obtain n' gen ex now where "commit_extra_meta h r = Inr ex"
      "e = commit_entry ph (sha256_hex h c) n' (record_count h r) gen now ex"
    by (auto simp: payload_new_def digest_info_def)
  ultimately show ?thesis using that [of e] ok1 entry_ok_dict [OF ok] by (simp add: commit_entry_get)
qed

lemma damaged_load:
  assumes "commit h st k ph r s = (Inr (), st', s')" and "manifest_ok h st" and "clock_ok h s" and "clean r" and "utf8_ok ph"
    and "canonical_bytes h r = Inr c" and "no_second_preimage h c"
    and "file_at t MANIFEST_NAME = file_at s' MANIFEST_NAME"
    and "open_store h lock (fingerprint st) t = (Inr st2, t2)" and "load h st2 k x u = (Inr r2, u')"
  shows "x = ph \<and> canonical_bytes h r2 = Inr c \<and> record_count h r2 = record_count h r"
proof -
  obtain e where e: "disk_entries h (fingerprint st) s' = Some (norm_entries (dict_set k e (entries st)))" "dict_ok e"
    "manifest_ok h (st\<lparr>entries := dict_set k e (entries st)\<rparr>)"
    "entry_get e ''payload_hash'' = Some (JStr ph)" "entry_get e ''result_digest'' = Some (JStr (sha256_hex h c))"
    "entry_get e ''record_count'' = Some (JInt (record_count h r))"
    by (rule committed_entry [OF assms(1-6)])
  have v: "vouched h st2 u k = Some (x, r2)" by (rule load_outcome [OF assms(10)])
  then have "entries st2 \<noteq> []" by (auto simp: vouched_Some)
  with open_outcome(4) [OF assms(9)] have "disk_entries h (fingerprint st) t = Some (entries st2)" by blast
  then have es: "entries st2 = norm_entries (dict_set k e (entries st))"
    using e(1) by (simp add: disk_entries_keeps [OF assms(8)])
  have "dict_ok (dict_set k e (entries st))" using e(3) by (simp add: manifest_ok_def)
  then have d: "dict_get (entries st2) k = Some (sort_key fst e)" unfolding es by (simp add: norm_entries_get)
  note g = entry_get_sort [OF e(2)]
  show ?thesis by (rule checked_digest [OF v d, unfolded g, OF e(4-6) assms(7)])
qed

end

end
