(* ===== verification/Parquet_Run.thy ===== *)
theory Parquet_Run
  imports Engine_Restart Store_History Parquet_Store
begin

text \<open>
  A run over the Parquet store. When pandas and pyarrow behave as \<open>arrow_documented\<close> says, the
  store meets \<open>payload_codec\<close> for the frames that are read back with their schema and digest, so all that is proved of a run inside that locale holds of it:
  its output combines exactly the leaves, a crash loses nothing that was settled, the next
  run does not execute it again, and every history of the store is one of the abstract map.
\<close>

lemma parquet_run_store:
  assumes "arrow_documented A"
  shows "result_store (pool_env (parquet sha pf cs A x)) (world_load (parquet sha pf cs A x))
     (world_serves (parquet sha pf cs A x)) (world_sound (parquet sha pf cs A x) (parquet_accepts (parquet sha pf cs A x) A x)) utf8_ok"
  by (rule payload_codec.pool_store [OF parquet_store [OF assms refl]])

lemma parquet_run_combines:
  assumes "arrow_documented A" and "hashes_text cfg" and "world_sound (parquet sha pf cs A x) (parquet_accepts (parquet sha pf cs A x) A x) w"
    and "run_checkpointed cfg (pool_env (parquet sha pf cs A x)) items w = Some (Inr res, w')"
  shows "\<exists>ls rs e0 e1 w1 w2. admit_roots cfg items initial_engine = (Inr (), e0) \<and>
     loop_steps cfg (pool_env (parquet sha pf cs A x)) (e0, w) (e1, w1) \<and>
     finally_block (pool_env (parquet sha pf cs A x)) w1 = (Inr (), w2) \<and>
     frontier cfg items ls \<and> distinct (map content_key ls) \<and>
     list_all2 (\<lambda>kh r. vouched (parquet sha pf cs A x) (cache w2) (disk w2) (fst kh) = Some (snd kh, r)) (leaf_map ls) rs \<and>
     outcome_of cfg rs = Inr (frame res) \<and>
     attempts res = committed_keys res + transient_retries res + splits res \<and>
     resumed_keys res + committed_keys res = int (length ls)"
proof -
  have "result_store.hashes_ok utf8_ok cfg"
    using assms(2) by (simp add: result_store.hashes_ok_def [OF parquet_run_store [OF assms(1)]] hashes_text_def)
  from result_store.run_success [OF parquet_run_store [OF assms(1)] assms(4) this assms(3)]
  show ?thesis unfolding world_serves_def by blast
qed

lemma parquet_crashed_run:
  assumes "arrow_documented A" and "h = parquet sha pf cs A x"
    and "admit_roots cfg items initial_engine = (Inr (), e0)" and "ad \<in> set (ready e0)"
    and "loop_steps cfg (pool_env h) (e0, w) (e1, w1)" and "fatal_exc e1 = None"
    and "iteration cfg (pool_env h) e1 w1 = (q, e2, w2)"
    and "world_sound h (parquet_accepts h A x) w" and "hashes_text cfg" and "fingerprint (cache w) \<noteq> []"
    and "dict_get (terminal_hash e1) (content_key ad) = Some (payload_hash ad)"
    and "content_key ad \<notin> content_key ` set (pending e1)" and "\<not> is_tmp_name (content_key ad @ ''.parquet'')"
    and "file_at t = file_at (disk w2)" and "fault_free t"
    and "open_store h (Some True) (fingerprint (cache w)) t = (Inr (cache u), disk u)"
    and "clock_ok h t" and "\<forall>n p c r. execute u n p c = Inr r \<longrightarrow> parquet_accepts h A x r"
    and "submitted u = []" and "run_checkpointed cfg (pool_env h) items u = Some (out, u')"
  shows "(\<exists>r. vouched h (cache w1) (disk w1) (content_key ad) = Some (payload_hash ad, r) \<and>
        fst (load h (cache u) (content_key ad) (payload_hash ad) (disk u)) = Inr r) \<and>
     payload (item ad) \<notin> snd ` set (submitted u')"
proof -
  note c = parquet_store [OF assms(1,2)]
  have "suffix h = ''.parquet''" by (simp add: assms(2) parquet_def)
  then have "\<not> is_tmp_name (content_key ad @ suffix h)" using assms(13) by simp
  from payload_codec.crashed_run [OF c assms(3-12) this assms(14-20)] show ?thesis .
qed

lemma parquet_history_refines_map:
  assumes "arrow_documented A" and "store_trace (parquet sha pf cs A x) (file_faithful A) fp (None, s) evs (so, s')"
    and "disk_ok (parquet sha pf cs A x) fp s" and "utf8_ok fp" and "\<forall>k. durable (parquet sha pf cs A x) fp s k \<in> P k"
  shows "\<exists>Q. spec_run (parquet_served (parquet sha pf cs A x) A x) ''.parquet'' evs P = Some Q \<and>
     (\<forall>k. durable (parquet sha pf cs A x) fp s' k \<in> Q k) \<and>
     (\<forall>st k. so = Some st \<longrightarrow> vouched (parquet sha pf cs A x) st s' k \<in> Q k)"
proof -
  have "suffix (parquet sha pf cs A x) = ''.parquet''" by (simp add: parquet_def)
  moreover have "permits (parquet sha pf cs A x) fp P (None, s)" using assms(3,5) by (simp add: permits_dead)
  note store_codec.trace_permitted [OF parquet_codec [OF assms(1)] assms(2) this assms(4)]
  ultimately show ?thesis by (auto simp: permits_def)
qed

end
