(* ===== verification/History_Theorems.thy ===== *)
theory History_Theorems
  imports Store_History Store_Theorems
begin

text \<open>
  The properties of the JSONL store over a whole history of processes, and of what a damaged
  directory can make of it, with a history of two processes as the witness.
\<close>

section \<open>A history of two processes\<close>

lemma reopen_calm:
  assumes "calm s" and "fp \<noteq> []" and "disk_entries h fp s = Some es"
  obtains s' where "open_store h (Some True) fp s = (Inr \<lparr>fingerprint = fp, entries = es\<rparr>, s')"
    and "calm s'" and "\<And>n. \<not> is_tmp_name n \<Longrightarrow> file_at s' n = file_at s n"
proof -
  have ff: "fault_free s" using assms(1) by (simp add: calm_def)
  from reopen_valid [OF ff assms(2,3)] obtain s' where o: "open_store h (Some True) fp s = (Inr \<lparr>fingerprint = fp, entries = es\<rparr>, s')"
    and f: "\<And>n. file_at s' n = (if is_tmp_name n \<and> file_at s n \<noteq> Some SubDir then None else file_at s n)"
    and ff': "fault_free s'" by blast
  obtain s1 where m: "mkdir s = (Inr (), s1)" and d: "dir_exists s1" "urandom_at s1 = urandom_at s"
    using ff by (auto simp: mkdir_def syscall_fault_free)
  have "bind_act (load_or_invalidate_manifest h fp) (\<lambda>st. then_act sweep_orphan_tmps (ret st)) s1
      = (Inr \<lparr>fingerprint = fp, entries = es\<rparr>, s')"
    using o m assms(2) by (simp add: open_store_def then_act_def bind_act_def [of mkdir])
  from touchesD(2,6) [OF touches_open this] d have "dir_exists s'" "urandom_at s' = urandom_at s" by simp_all
  with assms(1) f ff' have "calm s'" by (auto simp: calm_def writable_cache_def world_ok_def)
  then show ?thesis using that [OF o] f by simp
qed

lemma demo_disk: "disk_entries demo_hooks ''f'' (demo_os f) = Some []"
  using demo_synced [of demo_hooks f] by (simp add: synced_def demo_store_def norm_entries_def)

lemma demo_opened:
  obtains s where "open_store demo_hooks (Some True) ''f'' (demo_os quiet) = (Inr demo_store, s)"
    and "calm s" and "clock_ok demo_hooks s" and "synced demo_hooks demo_store s"
proof -
  have "''f'' \<noteq> []" by simp
  from reopen_calm [OF demo_calm this demo_disk] obtain s
    where o: "open_store demo_hooks (Some True) ''f'' (demo_os quiet) = (Inr \<lparr>fingerprint = ''f'', entries = []\<rparr>, s)"
      and s: "calm s" and f: "\<And>n. \<not> is_tmp_name n \<Longrightarrow> file_at s n = file_at (demo_os quiet) n" by blast
  have "clock_ok demo_hooks s" using open_clock [OF o] demo_clock by simp
  moreover have "file_at s MANIFEST_NAME = file_at (demo_os quiet) MANIFEST_NAME"
    by (rule f) (simp add: is_tmp_name_def MANIFEST_NAME_def sublist_code)
  then have "synced demo_hooks demo_store s"
    using demo_synced [of demo_hooks quiet] by (simp add: synced_def disk_entries_keeps [of s "demo_os quiet"])
  ultimately show ?thesis using that [of s] o s by (simp add: demo_store_def)
qed

lemma demo_records: "json_records (\<lambda>t. t) demo_rows" and demo_served_rows: "jsonl_served None rs = Some (map jnorm rs)"
  by (simp_all add: demo_rows_def jsonl_served_def jsonl_validate_def)

lemma demo_history:
  obtains c where "store_trace demo_hooks (json_records (\<lambda>t. t)) ''f'' (None, demo_os quiet)
    [Opens True, Commits ''k'' ''h'' demo_rows, Opens True, Loads ''k'' ''h'' (map jnorm demo_rows)] c"
proof -
  let ?step = "store_step demo_hooks (json_records (\<lambda>t. t)) ''f''"
  have same: "same_dir u u" for u by (simp add: same_dir_def)
  obtain s1 where o1: "open_store demo_hooks (Some True) ''f'' (demo_os quiet) = (Inr demo_store, s1)"
    and s1: "calm s1" "clock_ok demo_hooks s1" and sy: "synced demo_hooks demo_store s1" by (rule demo_opened)
  have rows: "\<forall>r\<in>set demo_rows. json_ok (\<lambda>t. t) True r" by (simp add: demo_rows_def utf8_ascii)
  obtain st2 s2 where c: "commit demo_hooks demo_store ''k'' ''h'' demo_rows s1 = (Inr (), st2, s2)" and s2: "calm s2"
    by (rule jsonl_commit_returns [OF s1 demo_manifest_ok safe_names(1) ascii_names(2) rows])
  have fp: "fingerprint demo_store = ''f''" by (simp add: demo_store_def)
  note d = jsonl_store.commit_durable [OF c demo_manifest_ok sy s1(2) demo_accepts ascii_names(2), unfolded fp]
  have v: "disk_valid demo_hooks ''f'' s2" using d(4) unfolding disk_valid_def by blast
  obtain st3 s3 where o3: "open_store demo_hooks (Some True) ''f'' s2 = (Inr st3, s3)" "fault_free s3"
    and w: "\<And>j. \<not> is_tmp_name (j @ suffix demo_hooks) \<Longrightarrow> vouched demo_hooks st3 s3 j = durable demo_hooks ''f'' s2 j"
    by (rule reopen_sound [OF v calm_fault_free [OF s2]]) auto
  have "vouched demo_hooks st3 s3 ''k'' = Some (''h'', map jnorm demo_rows)"
    using w [of "''k''"] d(3) by (simp add: is_tmp_name_def sublist_code jsonl_suffix)
  from load_hit [OF o3(2) this] have l: "load demo_hooks st3 ''k'' ''h'' s3 = (Inr (map jnorm demo_rows), advance s3)" .
  have "?step (None, demo_os quiet) (Opens True) (Some demo_store, s1)"
    using store_step.opens [OF same [of "demo_os quiet"] demo_clock o1] calm_fault_free [OF demo_calm] by simp
  moreover have "?step (Some demo_store, s1) (Commits ''k'' ''h'' demo_rows) (Some st2, s2)"
    using store_step.commits [of _ _ _ "json_records (\<lambda>t. t)", OF same [of s1] s1(2) demo_records ascii_names(2) c] by (simp add: survivor_def)
  moreover have "?step (Some st2, s2) (Opens True) (Some st3, s3)"
    using store_step.opens [OF same [of s2] d(5) o3(1)] calm_fault_free [OF s2] by simp
  moreover have "?step (Some st3, s3) (Loads ''k'' ''h'' (map jnorm demo_rows)) (Some st3, advance s3)"
    using store_step.loads [OF same [of s3] l] by (simp add: survivor_def)
  ultimately show ?thesis by (blast intro: that store_trace.intros)
qed

lemma demo_disk_ok: "disk_ok demo_hooks ''f'' (demo_os f)"
  using demo_manifest_ok [of demo_hooks] demo_synced [of demo_hooks f]
  by (auto simp: disk_ok_def disk_valid_def demo_store_def)

lemma demo_nothing: "durable demo_hooks ''f'' (demo_os f) k = None"
  by (simp add: durable_def demo_disk checked_def)

section \<open>The store is a map that survives\<close>

text \<open>C3: The JSONL store refines an abstract map, over any history. Any number of processes, one after
  another, open a directory, commit, look up, load and clean up, each call failing or dying in any
  system call, the callers going on after an exception. The results are any lists of Python values,
  whether or not the record_validator passes them; hashes and fingerprint are text, and the directory
  starts with no usable manifest or one a store of the fingerprint wrote. The abstract store keeps
  for each key the values a reader may be given: after a commit that returned, the new result as JSON
  reads it back, or a miss when the validator rejects it then (commit does not ask it); after one
  that did not return, the old one, none or that one; after cleanup, a disturbed opening, or any
  opening if the file name has .tmp., the old one or none. Every load and hit gives such a value,
  every miss without a fault is one, and at the end memory and directory hold such values.\<close>
theorem store_history_refines_map:
  assumes "store_trace (jsonl sha pf cs v) (json_records pf) fp (None, s) evs (so, s')"
    and "disk_ok (jsonl sha pf cs v) fp s" and "utf8_ok fp" and "\<forall>k. durable (jsonl sha pf cs v) fp s k \<in> A k"
  shows "\<exists>B. spec_run (jsonl_served v) ''.jsonl'' evs A = Some B \<and>
     (\<forall>k. durable (jsonl sha pf cs v) fp s' k \<in> B k) \<and>
     (\<forall>st k. so = Some st \<longrightarrow> vouched (jsonl sha pf cs v) st s' k \<in> B k)"
proof -
  have "permits (jsonl sha pf cs v) fp A (None, s)" using assms(2,4) by (simp add: permits_dead)
  from jsonl_store.trace_permitted [OF assms(1) this assms(3)] show ?thesis
    by (auto simp: jsonl_suffix permits_def)
qed

theorem store_history_refines_map_witness:
  "\<exists>c. store_trace demo_hooks (json_records (\<lambda>t. t)) ''f'' (None, demo_os quiet)
      [Opens True, Commits ''k'' ''h'' demo_rows, Opens True, Loads ''k'' ''h'' (map jnorm demo_rows)] c \<and>
     (\<exists>B. durable demo_hooks ''f'' (snd c) ''k'' \<in> B ''k'' \<and> B ''k'' = {Some (''h'', map jnorm demo_rows)})"
proof -
  obtain c where c: "store_trace demo_hooks (json_records (\<lambda>t. t)) ''f'' (None, demo_os quiet)
      [Opens True, Commits ''k'' ''h'' demo_rows, Opens True, Loads ''k'' ''h'' (map jnorm demo_rows)] c" by (rule demo_history)
  obtain so s' where s': "c = (so, s')" by (cases c)
  note t = c [unfolded s']
  have "utf8_ok ''f''" by (simp add: utf8_ascii)
  from store_history_refines_map [OF t demo_disk_ok this, of "\<lambda>k. {None}"] demo_nothing
  obtain B where B: "spec_run (jsonl_served None) ''.jsonl''
      [Opens True, Commits ''k'' ''h'' demo_rows, Opens True, Loads ''k'' ''h'' (map jnorm demo_rows)] (\<lambda>k. {None}) = Some B"
    "durable demo_hooks ''f'' s' ''k'' \<in> B ''k''" by auto
  then have "B ''k'' = {Some (''h'', map jnorm demo_rows)}" by (auto simp: is_tmp_name_def sublist_code seen_def demo_served_rows)
  with t B(2) show ?thesis by fastforce
qed

text \<open>C8: The last commit wins, and is not lost. Once a commit of a key has returned, and until the
  next attempt to commit that key, a load of it, by this process or a later one, returns no other
  hash and nothing but the committed records as JSON reads them back, and those only if the
  record_validator passes them, whatever the other calls did and wherever they failed. If it passes
  them, no call in between cleaned the directory up or opened it under a fault, and the key's file
  name has no .tmp. in it, the key is not a miss either. Histories are those of
  store_history_refines_map.\<close>
theorem last_commit_wins:
  assumes "store_trace (jsonl sha pf cs v) (json_records pf) fp (None, s) (evs1 @ Commits k ph r # evs2 @ [ev]) c"
    and "disk_ok (jsonl sha pf cs v) fp s" and "utf8_ok fp" and "\<forall>e\<in>set evs2. \<not> recommits k e"
  shows "(\<forall>x r'. ev = Loads k x r' \<longrightarrow> x = ph \<and> r' = map jnorm r \<and> jsonl_validate v r' [] = Inr True) \<and>
     ((\<forall>e\<in>set evs2. \<not> may_lose (k @ ''.jsonl'') e) \<and> jsonl_validate v (map jnorm r) [] = Inr True \<longrightarrow> ev \<noteq> Misses k ph)"
proof -
  have "permits (jsonl sha pf cs v) fp (\<lambda>k. UNIV) (None, s)" using assms(2) by (simp add: permits_dead)
  from jsonl_store.trace_permitted [OF assms(1) this assms(3)] obtain B
    where "spec_run (jsonl_served v) ''.jsonl'' (evs1 @ Commits k ph r # evs2 @ [ev]) (\<lambda>k. UNIV) = Some B"
    by (auto simp: jsonl_suffix)
  note w = spec_last_commit [OF this assms(4)]
  have "x = ph \<and> r' = map jnorm r \<and> jsonl_validate v r' [] = Inr True" if "ev = Loads k x r'" for x r'
    using w(1) [OF that] by (auto simp: jsonl_served_def split: if_splits)
  moreover have "ev \<noteq> Misses k ph"
    if "\<forall>e\<in>set evs2. \<not> may_lose (k @ ''.jsonl'') e" "jsonl_validate v (map jnorm r) [] = Inr True"
    using w(2) [OF that(1)] that(2) by (simp add: jsonl_served_def)
  ultimately show ?thesis by blast
qed

theorem last_commit_wins_witness:
  "\<exists>c. store_trace demo_hooks (json_records (\<lambda>t. t)) ''f'' (None, demo_os quiet)
      ([Opens True] @ Commits ''k'' ''h'' demo_rows # [Opens True] @ [Loads ''k'' ''h'' (map jnorm demo_rows)]) c \<and>
     Loads ''k'' ''h'' (map jnorm demo_rows) \<noteq> Misses ''k'' ''h''"
proof -
  obtain c where "store_trace demo_hooks (json_records (\<lambda>t. t)) ''f'' (None, demo_os quiet)
      ([Opens True] @ Commits ''k'' ''h'' demo_rows # [Opens True] @ [Loads ''k'' ''h'' (map jnorm demo_rows)]) c"
    by (rule demo_history) simp
  moreover from last_commit_wins [OF this demo_disk_ok] have "Loads ''k'' ''h'' (map jnorm demo_rows) \<noteq> Misses ''k'' ''h''"
    by (auto simp: is_tmp_name_def sublist_code utf8_ascii jsonl_validate_def)
  ultimately show ?thesis by blast
qed

section \<open>A damaged directory\<close>

text \<open>C5: A damaged payload is never served as the committed result. After a commit has returned, let
  another process open the directory with its manifest intact, under any faults, and then let the
  directory be any directory: payload files torn, swapped, rolled back or rewritten. If the key
  still loads at all, it loads under the committed hash and what is returned renders to exactly the
  committed records, as long as no other bytes have the SHA-256 of the committed ones.\<close>
theorem damaged_payload_never_served:
  assumes "commit (jsonl sha pf cs v) st k ph r s = (Inr (), st', s')" and "manifest_ok (jsonl sha pf cs v) st"
    and "clock_ok (jsonl sha pf cs v) s" and "jsonl_accepts pf v r" and "utf8_ok ph"
    and "canonical_record_bytes r = Inr c" and "\<forall>b. sha b = sha c \<longrightarrow> b = c"
    and "file_at t MANIFEST_NAME = file_at s' MANIFEST_NAME"
    and "open_store (jsonl sha pf cs v) lock (fingerprint st) t = (Inr st2, t2)"
    and "load (jsonl sha pf cs v) st2 k x u = (Inr r2, u')"
  shows "x = ph \<and> canonical_record_bytes r2 = Inr c \<and> length r2 = length r"
proof -
  have c: "canonical_bytes (jsonl sha pf cs v) r = Inr c" "no_second_preimage (jsonl sha pf cs v) c"
    using assms(6,7) by (simp_all add: jsonl_def no_second_preimage_def)
  have r: "json_records pf r" using jsonl_accepts_served [OF assms(4)] by simp
  from jsonl_store.damaged_load [OF assms(1-3) r assms(5) c assms(8-10)] show ?thesis by (simp add: jsonl_def)
qed

theorem damaged_payload_never_served_witness:
  "\<exists>sha c st2 r2 u u'. canonical_record_bytes demo_rows = Inr c \<and> (\<forall>b. sha b = sha c \<longrightarrow> b = c) \<and>
     load (jsonl sha (\<lambda>t. t) (\<lambda>v. []) None) st2 ''k'' ''h'' u = (Inr r2, u') \<and> canonical_record_bytes r2 = Inr c"
proof -
  obtain c where c: "canonical_record_bytes demo_rows = Inr c"
    using dumps_utf8 [of "\<lambda>t. t" "hd demo_rows"] by (auto simp: canonical_utf8 demo_rows_def utf8_ascii)
  let ?sha = "\<lambda>b. if b = c then ''0'' else ''1''" and ?rows = "map jnorm demo_rows"
  let ?h = "jsonl ?sha (\<lambda>t. t) (\<lambda>v. []) None"
  have rows: "\<forall>r\<in>set demo_rows. json_ok (\<lambda>t. t) True r" by (simp add: demo_rows_def utf8_ascii)
  have clock: "clock_ok ?h (demo_os quiet)" using demo_clock [of quiet] by (simp add: clock_ok_def jsonl_def utf8_ascii)
  obtain st' s' where m: "commit ?h demo_store ''k'' ''h'' demo_rows (demo_os quiet) = (Inr (), st', s')" and s': "calm s'"
    by (rule jsonl_commit_returns [OF demo_calm clock demo_manifest_ok safe_names(1) ascii_names(2) rows])
  note d = jsonl_store.commit_durable [OF m demo_manifest_ok demo_synced clock demo_accepts ascii_names(2)]
  have dv: "disk_valid ?h (fingerprint demo_store) s'" using d(4) unfolding disk_valid_def by blast
  have "fingerprint demo_store \<noteq> []" by (simp add: demo_store_def)
  from reopen_sound [OF dv calm_fault_free [OF s'] this] obtain st2 t2 where o: "open_store ?h (Some True) (fingerprint demo_store) s' = (Inr st2, t2)" "fault_free t2"
      and w: "\<And>j. \<not> is_tmp_name (j @ suffix ?h) \<Longrightarrow> vouched ?h st2 t2 j = durable ?h (fingerprint demo_store) s' j"
    by blast
  have "vouched ?h st2 t2 ''k'' = Some (''h'', ?rows)"
    using w [of "''k''"] d(3) by (simp add: is_tmp_name_def sublist_code jsonl_suffix)
  from load_hit [OF o(2) this] have l: "load ?h st2 ''k'' ''h'' t2 = (Inr ?rows, advance t2)" .
  have sha: "\<forall>b. ?sha b = ?sha c \<longrightarrow> b = c" by simp
  from damaged_payload_never_served [OF m demo_manifest_ok clock demo_accepts ascii_names(2) c sha refl o(1) l]
  have "canonical_record_bytes ?rows = Inr c" by blast
  with c sha l show ?thesis
    by (intro exI [of _ ?sha] exI [of _ c] exI [of _ st2] exI [of _ ?rows] exI [of _ t2] exI [of _ "advance t2"] conjI)
qed

end
