(* ===== verification/Spec2Isabelle.thy ===== *)
theory Spec2Isabelle
  imports Engine_Theorems Engine_Restart Lock_Theorems Fs_Theorems Parquet_Theorems Parquet_Run History_Theorems
begin

text \<open>
  A verification of resumable-batch, a Python library that runs a list of items through a
  caller's function with retries and splits and keeps every finished result in a directory, so that
  a run that was killed is continued by running it again.

  \<^bold>\<open>The program.\<close> \<open>run_checkpointed\<close> (\<open>src/resumable_batch/engine.py\<close>) admits the items under
  their content keys, skips those whose result the store has, submits the others to a thread pool
  under a concurrency cap, commits what comes back, retries what fails transiently after a delay,
  splits what runs out of memory, and at the end combines the results of the leaves in key order. The
  stores (\<open>stores/base.py\<close>, \<open>stores/jsonl.py\<close>, \<open>stores/parquet.py\<close>) keep one payload file per key
  and a manifest that is the source of truth; both are written to a temporary file that replaces
  the old one (\<open>durability.py\<close>). A process opens a store under a lock on the directory
  (\<open>locking.py\<close>) and only where the filesystem is known to be durable (\<open>fs_cache_enabled\<close> of
  \<open>durability.py\<close>).

  \<^bold>\<open>The theories\<close>, in the order of the imports.

  \<^item> Foundations. \<open>Prelude\<close>: dictionaries as association lists in order of insertion
    (\<open>dict_get\<close>, \<open>dict_set\<close>, \<open>dict_pop\<close>), shared list lemmas. \<open>Py_Errors\<close>: \<open>errors.py\<close> and the
    built-in exceptions the handlers name; isinstance is membership in \<open>mro\<close>. \<open>Model\<close>: \<open>model.py\<close>.
    \<open>Classifiers\<close>: \<open>classifiers.py\<close>. \<open>Text_Codec\<close> and \<open>Json\<close>: the text encodings and the part of
    Python's json module the stores use, a writer and a reader that are proved inverse to each
    other. \<open>Os_Files\<close>: the directory, the system calls on it and the primitives \<open>_fsync_file\<close>,
    \<open>_fsync_dir\<close>, \<open>_atomic_replace_file\<close>, \<open>_tmp_name\<close> of \<open>durability.py\<close>.

  \<^item> The stores. \<open>Manifest_Store\<close>: every method of \<open>AtomicManifestStore\<close>; \<open>store\<close> is the object
    (\<open>self._entries\<close>, the fingerprint), \<open>hooks\<close> the methods a subclass overrides, an \<open>act\<close> a
    function from a state of the operating system to a result or an exception and a new state.
    \<open>Store_View\<close>: \<open>vouched\<close>, the result the files hold for a key, and what each read returns.
    \<open>Store_Commit\<close>: \<open>commit\<close> call by call. \<open>Store_Durable\<close>: \<open>durable\<close>, what the next process finds
    for a key, and the locale \<open>store_codec\<close>, the contract of a subclass with \<open>served\<close>, what becomes of a
    result that is written and read back; inside it a commit is atomic whatever fails, also when the
    readers reject the result. \<open>payload_codec\<close> extends it by the results that are served in full,
    those a run is about. \<open>Store_Live\<close>: without faults a commit returns. \<open>Store_Reopen\<close>: opening
    the directory of an earlier process, and the type of the entries. \<open>Jsonl_Store\<close>, \<open>Jsonl_Live\<close>:
    \<open>JsonlResultStore\<close>, the interpretation \<open>jsonl_store\<close> of \<open>payload_codec\<close>. \<open>Parquet_Store\<close>:
    \<open>ParquetResultStore\<close> over an arbitrary \<open>arrow\<close>, which meets \<open>store_codec\<close> when
    \<open>arrow_documented\<close> holds, for the frames whose files are \<open>file_faithful\<close>. \<open>Store_History\<close>: a store over its whole life, \<open>store_trace\<close>, the calls
    of one process after another with the faults of each, and the abstract store it is compared
    with, \<open>spec_step\<close>, a map from keys to the values a reader may be given. \<open>Store_Theorems\<close>,
    \<open>History_Theorems\<close>, \<open>Parquet_Theorems\<close>: the properties.

  \<^item> The engine. \<open>Delayed_Queue\<close>: the heap of delayed retries, with the locale \<open>delay_queue\<close> and its
    interpretation \<open>heapq\<close>. \<open>Engine\<close>: \<open>run_checkpointed\<close>; the record \<open>engine\<close> holds its local
    variables, each nested function (\<open>_admit\<close>, \<open>_promote_matured\<close>, \<open>_handle_split\<close>, \<open>_route_exception\<close>,
    the dispatch loop, the processing of finished futures, the finally block, the fold) is a
    definition, and the clock, the sleep, the random source, the pool and the store are the record
    \<open>env\<close> of functions on a world. \<open>Engine_Inv\<close>: the invariant \<open>loop_inv\<close>, handler by handler,
    and the step relation \<open>loop_step\<close> of the main loop. \<open>Engine_Term\<close>: the locale \<open>fair_env\<close> and
    termination. \<open>Engine_Results\<close>: the locale \<open>result_store\<close>, what the engine needs of a store.
    \<open>Pool_World\<close>: the concrete world, a thread pool with worker contexts and a manifest store over a
    directory; it interprets \<open>fair_env\<close> (as \<open>pool\<close>) and \<open>result_store\<close> (as \<open>jsonl_run\<close>).
    \<open>Engine_Resume\<close>: the run that finds everything cached. \<open>Engine_Restart\<close>: the run that dies and
    the run after it, for every store that meets \<open>payload_codec\<close>. \<open>Parquet_Run\<close>: the same for a run over
    the Parquet store. \<open>Engine_Theorems\<close>: the properties of a run; the two that span a crash are here.

  \<^item> The guards. \<open>Locking\<close>, \<open>Lock_Inv\<close>, \<open>Lock_Theorems\<close>: \<open>LockProvider\<close> and its two subclasses on a
    kernel that other processes act on between any two calls. \<open>Fs_Policy\<close>, \<open>Fs_Theorems\<close>:
    \<open>resolve_fs_type\<close> on Linux, macOS and Windows, and \<open>fs_cache_enabled\<close>.

  \<^bold>\<open>What the theorems show.\<close>
  A commit is atomic for every fault and every point at which the process dies, a committed
  result survives, is served only when manifest and payload vouch for it, and an invalid manifest is
  wiped; a failed commit leaves memory as it was; the files round-trip. Every history of calls, of
  any number of processes and under any faults, is a history of the abstract map, so the last
  commit wins and stays; and a payload file that was damaged later is not served in place of the
  committed records. A run
  terminates; its output is the combination of exactly the leaves its splits produced; the
  counters account for every key; retries, delays and splits keep their bounds; a fatal error is not
  masked by the cleanup; a cached run executes nothing. A run that dies loses nothing it had
  settled, and the run after it does not do that work again. The lock excludes, is given up on
  every way out of a with statement, its wait is bounded, a dead holder frees it; the cache is
  used only on a durable filesystem. The behaviours that differ from what the code or its
  documentation means to do are theorems too (\<open>tmp_key_lost_on_reopen\<close>,
  \<open>drifting_frame_never_served\<close>, \<open>committed_result_survives_restart\<close> for a result the validator
  rejects, \<open>backoff_overflows\<close>, \<open>contention_reported\<close>, \<open>lock_scoped\<close>, \<open>duplicate_roots_rejected\<close>).

  \<^bold>\<open>Oracles.\<close> Everything the environment decides is a function of a counter that every call
  advances, and no theorem restricts it unless it says so. \<open>os\<close>: whether a call succeeds, raises
  OSError or is the point at which the process is killed (with how many bytes of a write on disk),
  the values of urandom, uuid4 and time; \<open>clock_ok\<close>, a hypothesis of what concerns commits, says
  that uuid4().hex and hexdigest() are text and that a time is written as floats are. A killed process is an exception no handler of the code
  catches. \<open>world\<close>: how time passes, what \<open>worker_setup\<close> and \<open>execute\<close> return or raise, which
  thread takes a task, which futures are done when a wait returns. \<open>lock_world\<close>: which calls of the
  lock fail, what other processes do to the lockfile; they may do anything to their own descriptors
  but not unlink the lockfile, as the code itself never does. \<open>fs_env\<close>: paths and the answers of
  statfs and of the volume functions. \<open>arrow\<close>: pandas and pyarrow, which are not part of the
  repository; \<open>arrow_documented\<close> says that names and metadata are text and \<open>file_faithful\<close>, of one
  frame, that its file is read back as the frame Arrow makes of its table; \<open>demo_arrow\<close> meets both.
  That a second conversion gives the same schema is not assumed, as it is not so. SHA-256 is any
  function; \<open>damaged_payload_never_served\<close> alone supposes that no other bytes have the digest of the
  committed ones.

  \<^bold>\<open>Data.\<close> A str is its UTF-8 bytes, a dict an association list, a float a real (with infinities
  and NaN where the code tests for them, and the overflow of a power at 2 to the 1024), a JSON float
  its repr. Integers are unbounded, except the words of statfs, which are 64 bits wide.

  \<^bold>\<open>Recursion and bounds.\<close> The scanner of JSON texts has fuel 2 * length + 2; \<open>loads_fuel\<close> shows
  it never runs out. The main loop and \<open>acquire\<close> may not end for an arbitrary environment and are
  partial functions into option; \<open>run_terminates\<close> and \<open>lock_wait_ends\<close> show that they return, the
  first by a multiset of weights (splits and attempts left, the queue an item is in), the second
  within 4 * ceiling (timeout / poll) + 11 calls. Splitting is bounded by the depth cap and by
  \<open>not_shrinking\<close>.

  \<^bold>\<open>Not modelled.\<close> A loss of power that takes back a replacement after os.replace has returned and
  before the directory is synced: a file that was replaced stays replaced, so the fsyncs are calls
  that may fail and do nothing else, and their order is not observable. File systems and globs that
  ignore case, as on Windows. An \<open>initializer\<close> of the pool that runs after \<open>submit\<close> has returned: here
  it runs when its thread is created. Errors of pandas and pyarrow that are no \<open>Exception\<close>.
  \<open>__init__.py\<close> and \<open>stores/__init__.py\<close>, which only re-export names; the
  \<open>ResultStore\<close> protocol, which has no code (its role is the locale \<open>result_store\<close>); log messages.
  Python's limits on recursion depth and on the digits of an integer in json; records whose keys are
  not strings. What \<open>execute\<close> does besides returning or raising. A failure of the Parquet
  encoder before its writer opens the file leaves an empty temporary file in the model. Tests,
  scripts and documents are not part of the program.
\<close>

section \<open>The whole job\<close>

text \<open>C2: A run that dies loses nothing it had settled. Take a run whose memory and manifest agree at
  the start, whose hashes are text and whose workers return only records the store accepts: Python
  values that the record_validator, if there is one, passes as they are read back (commit itself does
  not ask it, and a record it rejects is settled but never loads). Let the run do any number of
  turns of its main loop without a fatal error, and let one more turn end in any way, the process
  killed in any system call of it included. The turns before the last account for every leaf: what
  was resumed, committed and is still pending is exactly the terminal keys. A new process none of
  whose system calls fails, with the directory left behind and the same non-empty fingerprint, opens
  it, and loads for every leaf that was not pending exactly the result the run had for it, unless
  the key's file name contains .tmp. (see tmp_key_lost_on_reopen).\<close>
theorem killed_run_keeps_its_commits:
  assumes "admit_roots cfg items initial_engine = (Inr (), e0)"
    and "loop_steps cfg (pool_env (jsonl sha pf cs v)) (e0, w) (e1, w1)" and "fatal_exc e1 = None"
    and "iteration cfg (pool_env (jsonl sha pf cs v)) e1 w1 = (q, e2, w2)"
    and "world_sound (jsonl sha pf cs v) (jsonl_accepts pf v) w" and "hashes_text cfg" and "fingerprint (cache w) \<noteq> []"
    and "file_at t = file_at (disk w2)" and "fault_free t"
  shows "\<exists>ls st t1. frontier cfg items ls \<and> terminal_keys e1 = content_key ` set ls \<and>
     int (length ls) = resumed e1 + committed e1 + int (length (pending e1)) \<and>
     open_store (jsonl sha pf cs v) (Some True) (fingerprint (cache w)) t = (Inr st, t1) \<and>
     (\<forall>ad\<in>set ls. ad \<in> set (pending e1) \<or> is_tmp_name (content_key ad @ ''.jsonl'') \<or>
        (\<exists>r. vouched (jsonl sha pf cs v) (cache w1) (disk w1) (content_key ad) = Some (payload_hash ad, r) \<and>
             fst (load (jsonl sha pf cs v) st (content_key ad) (payload_hash ad) t1) = Inr r))"
  by (rule jsonl_store.killed_run [unfolded jsonl_suffix, OF assms])

lemma demo_first_turn:
  obtains e1 w1 where "iteration demo_cfg (pool_env demo_hooks) demo_start (demo_world demo_store (demo_os quiet)) = (Inr (), e1, w1)"
    and "pending e1 = []" and "fatal_exc e1 = None" and "terminal_hash e1 = [(''k'', ''h'')]" and "calm (disk w1)"
    and "terminal_keys e1 = {''k''}" and "clock_ok demo_hooks (disk w1)"
proof -
  obtain st s where c: "commit demo_hooks demo_store ''k'' ''h'' demo_rows (demo_os quiet) = (Inr (), st, s)"
      "calm s" by (rule demo_commit)
  have "clock_ok demo_hooks s"
    by (rule jsonl_store.commit_durable(5) [OF c(1) demo_manifest_ok demo_synced demo_clock demo_accepts ascii_names(2)])
  moreover have "max_workers demo_cfg = 2" by (simp add: max_workers_def demo_cfg_def)
  ultimately show ?thesis
    using that c
    by (simp add: iteration_def demo_start_def enqueue_terminal_def initial_engine_def demo_admitted_def demo_item_def
      pool_env_def on_disk_def has_def demo_world_def demo_store_def submit_def init_worker_def Let_def await_def
      wait_timeout_def wait_first_def run_one_def elapse_def world_commit_def promote_matured_def clock_def pending_def)
qed

lemma demo_sound: "world_sound demo_hooks (jsonl_accepts (\<lambda>t. t) None) (demo_world demo_store (demo_os quiet))"
  by (simp add: world_sound_def demo_world_def demo_manifest_ok demo_synced demo_clock demo_accepts)

lemma demo_hashes: "hashes_text demo_cfg"
  using ascii_names(2) by (simp add: hashes_text_def demo_cfg_def)

lemma demo_two_turns:
  obtains e1 w1 where "loop_steps demo_cfg (pool_env demo_hooks) (demo_start, demo_world demo_store (demo_os quiet)) (e1, w1)"
    and "iteration demo_cfg (pool_env demo_hooks) e1 w1 = (Inr (), e1, w1)" and "fatal_exc e1 = None" and "pending e1 = []"
    and "fault_free (disk w1)" and "terminal_keys e1 = {''k''}" and "terminal_hash e1 = [(''k'', ''h'')]"
    and "clock_ok demo_hooks (disk w1)"
proof -
  obtain e1 w1 where i: "iteration demo_cfg (pool_env demo_hooks) demo_start (demo_world demo_store (demo_os quiet)) = (Inr (), e1, w1)"
      "pending e1 = []" "fatal_exc e1 = None" "terminal_hash e1 = [(''k'', ''h'')]" "calm (disk w1)" "terminal_keys e1 = {''k''}"
      "clock_ok demo_hooks (disk w1)" by (rule demo_first_turn)
  have "unfinished demo_start" by (simp add: unfinished_def demo_start_def enqueue_terminal_def initial_engine_def)
  then have "loop_steps demo_cfg (pool_env demo_hooks) (demo_start, demo_world demo_store (demo_os quiet)) (e1, w1)"
    using i(1) by (intro r_into_rtranclp loop_step.intros)
  moreover have "iteration demo_cfg (pool_env demo_hooks) e1 w1 = (Inr (), e1, w1)"
    using i(2,3) by (simp add: iteration_def pending_def)
  ultimately show ?thesis using that i calm_fault_free by blast
qed

theorem killed_run_keeps_its_commits_witness:
  "\<exists>(w1 :: (string, json list, unit) world) st t1 r. open_store demo_hooks (Some True) ''f'' (disk w1) = (Inr st, t1) \<and>
     fst (load demo_hooks st ''k'' ''h'' t1) = Inr r"
proof -
  let ?w = "demo_world demo_store (demo_os quiet)"
  obtain e1 w1 where i: "loop_steps demo_cfg (pool_env demo_hooks) (demo_start, ?w) (e1, w1)"
      "iteration demo_cfg (pool_env demo_hooks) e1 w1 = (Inr (), e1, w1)" "fatal_exc e1 = None" "pending e1 = []"
      "fault_free (disk w1)" "terminal_keys e1 = {''k''}" by (rule demo_two_turns)
  have f: "fingerprint (cache ?w) = ''f''" by (simp add: demo_world_def demo_store_def)
  then have "fingerprint (cache ?w) \<noteq> []" by simp
  from killed_run_keeps_its_commits [OF demo_roots i(1,3,2) demo_sound demo_hashes this refl i(5), unfolded f]
  obtain ls st t1 where ls: "frontier demo_cfg [demo_item ''k''] ls" "terminal_keys e1 = content_key ` set ls"
      "open_store demo_hooks (Some True) ''f'' (disk w1) = (Inr st, t1)"
      "\<forall>ad\<in>set ls. ad \<in> set (pending e1) \<or> is_tmp_name (content_key ad @ ''.jsonl'') \<or>
        (\<exists>r. vouched demo_hooks (cache w1) (disk w1) (content_key ad) = Some (payload_hash ad, r) \<and>
             fst (load demo_hooks st (content_key ad) (payload_hash ad) t1) = Inr r)" by (elim exE conjE) (rule that)
  have "''k'' \<in> content_key ` set ls" using ls(2) i(6) by (metis insertI1)
  then obtain ad where ad: "ad \<in> set ls" "content_key ad = ''k''" by (metis imageE)
  have "payload_hash ad = ''h''" using frontier_leaf(1) [OF ls(1) ad(1)] by (simp add: demo_cfg_def)
  moreover have "\<not> is_tmp_name (''k'' @ ''.jsonl'')" by (simp add: is_tmp_name_def sublist_code)
  moreover note bspec [OF ls(4) ad(1), unfolded ad(2) i(4)]
  ultimately obtain r where "fst (load demo_hooks st ''k'' ''h'' t1) = Inr r" by simp blast
  with ls(3) show ?thesis by blast
qed

text \<open>C1: A job that is started again after a crash does only what is left. When a run was killed in
  any turn of its main loop, a root item whose key was settled before that turn, not pending, and
  whose file name has no .tmp. in it, is served from disk in the next process: the new store loads
  for it the result the old run had, and a whole new run over the same items submits no task with
  the payload of that item, whatever its clock, its pool and its workers do and however it ends. The
  system calls of the new process do not fail, neither when it opens the directory nor during the
  run: an OSError when the payload is read makes has False, and the item is run again. As in
  killed_run_keeps_its_commits, memory and manifest agree at the start of the old run, no turn before
  the last met a fatal error, hashes are text, the fingerprint is not empty, and the workers of both
  runs return only records the validator passes.\<close>
theorem crashed_run_resumes:
  assumes "admit_roots cfg items initial_engine = (Inr (), e0)" and "ad \<in> set (ready e0)"
    and "loop_steps cfg (pool_env (jsonl sha pf cs v)) (e0, w) (e1, w1)" and "fatal_exc e1 = None"
    and "iteration cfg (pool_env (jsonl sha pf cs v)) e1 w1 = (q, e2, w2)"
    and "world_sound (jsonl sha pf cs v) (jsonl_accepts pf v) w" and "hashes_text cfg" and "fingerprint (cache w) \<noteq> []"
    and "dict_get (terminal_hash e1) (content_key ad) = Some (payload_hash ad)"
    and "content_key ad \<notin> content_key ` set (pending e1)" and "\<not> is_tmp_name (content_key ad @ ''.jsonl'')"
    and "file_at t = file_at (disk w2)" and "fault_free t"
    and "open_store (jsonl sha pf cs v) (Some True) (fingerprint (cache w)) t = (Inr (cache u), disk u)"
    and "clock_ok (jsonl sha pf cs v) t" and "\<forall>n p c r. execute u n p c = Inr r \<longrightarrow> jsonl_accepts pf v r"
    and "submitted u = []" and "run_checkpointed cfg (pool_env (jsonl sha pf cs v)) items u = Some (out, u')"
  shows "(\<exists>r. vouched (jsonl sha pf cs v) (cache w1) (disk w1) (content_key ad) = Some (payload_hash ad, r) \<and>
        fst (load (jsonl sha pf cs v) (cache u) (content_key ad) (payload_hash ad) (disk u)) = Inr r) \<and>
     payload (item ad) \<notin> snd ` set (submitted u')"
  by (rule jsonl_store.crashed_run [unfolded jsonl_suffix, OF assms])

theorem crashed_run_resumes_witness:
  "\<exists>(u :: (string, json list, unit) world) out u' r. run_checkpointed demo_cfg (pool_env demo_hooks) [demo_item ''k''] u = Some (out, u') \<and>
     fst (load demo_hooks (cache u) ''k'' ''h'' (disk u)) = Inr r \<and> ''k'' \<notin> snd ` set (submitted u')"
proof -
  let ?w = "demo_world demo_store (demo_os quiet)"
  obtain e1 w1 where i: "loop_steps demo_cfg (pool_env demo_hooks) (demo_start, ?w) (e1, w1)"
      "iteration demo_cfg (pool_env demo_hooks) e1 w1 = (Inr (), e1, w1)" "fatal_exc e1 = None" "pending e1 = []"
      "fault_free (disk w1)" "terminal_keys e1 = {''k''}" "terminal_hash e1 = [(''k'', ''h'')]"
      "clock_ok demo_hooks (disk w1)" by (rule demo_two_turns)
  have f: "fingerprint (cache ?w) = ''f''" by (simp add: demo_world_def demo_store_def)
  then have fp: "fingerprint (cache ?w) \<noteq> []" by simp
  obtain ls where dv: "disk_valid demo_hooks (fingerprint (cache ?w)) (disk w1)"
    by (rule jsonl_store.leaf_survives [OF demo_roots i(1,2,3) demo_sound demo_hashes])
  obtain st t1 where o: "open_store demo_hooks (Some True) (fingerprint (cache ?w)) (disk w1) = (Inr st, t1)"
    by (rule reopen_sound [OF dv i(5) fp])
  let ?u = "demo_world st t1"
  obtain out u' where r: "run_checkpointed demo_cfg (pool_env demo_hooks) [demo_item ''k''] ?u = Some (out, u')"
    using run_terminates by (metis surj_pair)
  have ad: "demo_admitted ''k'' \<in> set (ready demo_start)" by (simp add: demo_ready)
  have op: "open_store demo_hooks (Some True) (fingerprint (cache ?w)) (disk w1) = (Inr (cache ?u), disk ?u)"
    using o by (simp add: demo_world_def)
  have done_k: "dict_get (terminal_hash e1) (content_key (demo_admitted ''k'')) = Some (payload_hash (demo_admitted ''k''))"
    "content_key (demo_admitted ''k'') \<notin> content_key ` set (pending e1)"
    "\<not> is_tmp_name (content_key (demo_admitted ''k'') @ ''.jsonl'')"
    using i(4,7) by (simp_all add: demo_admitted_def is_tmp_name_def sublist_code)
  have ex: "\<forall>n p c r. execute ?u n p c = Inr r \<longrightarrow> jsonl_accepts (\<lambda>t. t) None r" and "submitted ?u = []"
    using demo_accepts by (simp_all add: demo_world_def)
  from crashed_run_resumes [OF demo_roots ad i(1,3,2) demo_sound demo_hashes fp done_k refl i(5) op i(8) this r]
  obtain rr where "fst (load demo_hooks (cache ?u) ''k'' ''h'' (disk ?u)) = Inr rr" "''k'' \<notin> snd ` set (submitted u')"
    by (auto simp: demo_admitted_def demo_item_def)
  with r show ?thesis by blast
qed

end
